(* ===== verification/Prelude.thy ===== *)
theory Prelude
  imports Main "HOL-Library.Word"
begin

text \<open>
  Prelude of the development: the machine types of the C++ code, the outcomes of an
  operation that can go wrong, and the lemmas on lists and words that the component
  theories share.
\<close>

unbundle bit_operations_syntax

section \<open>Machine types\<close>

text \<open>
  A C++ \<open>int\<close> that is only stored, compared for equality or sent over the wire is a
  32-bit word as well; where its sign matters it is read with \<open>sint\<close>, and where it
  is a size it is a \<open>nat\<close> whose range is checked against \<open>int_max\<close>.
\<close>

type_synonym u8 = "8 word"
type_synonym u16 = "16 word"
type_synonym u32 = "32 word"
type_synonym i32 = "32 word"
type_synonym u64 = "64 word"

section \<open>Outcomes\<close>

text \<open>
  What can go wrong besides an error code the program itself returns: a failed
  \<open>assert\<close>, a null pointer that is dereferenced, an access outside an object, an
  object used after it was freed, a signed addition or doubling out of range, a
  division by zero, and an exception of the standard library that nothing catches. \<open>Not_yet\<close> is no fault: the
  operation sleeps on a condition variable and is no step yet.
\<close>

datatype fault =
    Assert_failed
  | Null_deref
  | Out_of_bounds
  | Use_after_free
  | Int_overflow
  | Division_by_zero
  | Uncaught_exception
  | Not_yet

type_synonym 'a outcome = "fault + 'a"

definition andthen :: "'a outcome \<Rightarrow> ('a \<Rightarrow> 'b outcome) \<Rightarrow> 'b outcome" where
  "andthen r k = (case r of Inl e \<Rightarrow> Inl e | Inr x \<Rightarrow> k x)"

lemma andthen_simps [simp]:
  "andthen (Inl e) k = Inl e"
  "andthen (Inr x) k = k x"
  by (simp_all add: andthen_def)

lemma andthen_assoc: "andthen (andthen r k) l = andthen r (\<lambda>x. andthen (k x) l)"
  by (simp add: andthen_def split: sum.split)

lemma andthen_Inr_iff:
  "andthen r k = Inr y \<longleftrightarrow> (\<exists>x. r = Inr x \<and> k x = Inr y)"
  by (auto simp: andthen_def split: sum.split)

text \<open>The largest value of an \<open>int\<close>: a size that would exceed it overflows.\<close>

definition int_max :: nat where
  "int_max = 2147483647"

section \<open>Lists\<close>

lemma take_list_update_Suc:
  "i < length xs \<Longrightarrow> take (Suc i) (xs[i := x]) = take i xs @ [x]"
  by (simp add: take_Suc_conv_app_nth)

text \<open>Overwriting a block of a list, as \<open>memcpy\<close> and \<open>bcopy\<close> do.\<close>

definition overwrite :: "'a list \<Rightarrow> nat \<Rightarrow> 'a list \<Rightarrow> 'a list" where
  "overwrite xs i ys = take i xs @ ys @ drop (i + length ys) xs"

lemma length_overwrite [simp]:
  "i + length ys \<le> length xs \<Longrightarrow> length (overwrite xs i ys) = length xs"
  by (simp add: overwrite_def)

lemma take_overwrite_prefix:
  "i \<le> length xs \<Longrightarrow> take (i + length ys) (overwrite xs i ys) = take i xs @ ys"
  by (simp add: overwrite_def)

lemma overwrite_Nil [simp]: "overwrite xs i [] = xs"
  by (simp add: overwrite_def)

lemma overwrite_snoc:
  assumes "i + length ys < length xs"
  shows "(overwrite xs i ys)[i + length ys := y] = overwrite xs i (ys @ [y])"
proof -
  have "drop (i + length ys) xs = xs ! (i + length ys) # drop (Suc (i + length ys)) xs"
    using assms by (simp add: Cons_nth_drop_Suc)
  then show ?thesis
    using assms by (simp add: overwrite_def list_update_append)
qed

section \<open>Words\<close>

text \<open>
  Splitting a word into bytes and putting it together again; \<open>scast\<close> is the
  conversion of a (signed) \<open>char\<close> to a wider integer.
\<close>

named_theorems byte_simps

lemma and_ff [byte_simps]: "x AND 0xff = take_bit 8 (x :: 'a::len word)"
  by (simp add: take_bit_eq_mask mask_eq_exp_minus_1)

lemma not_bit8: "8 \<le> n \<Longrightarrow> \<not> bit (y :: u8) n"
  using bit_imp_le_length [of y n] by auto

lemma take_bit_scast_byte [byte_simps]: "take_bit 8 (scast (y :: u8) :: u32) = ucast y"
proof (rule bit_word_eqI)
  fix n assume n: "n < LENGTH(32)"
  show "bit (take_bit 8 (scast y :: 32 word)) n = bit (ucast y :: 32 word) n"
  proof (cases "n < 8")
    case True
    then have "min 7 n = n" by simp
    with True n show ?thesis by (simp add: bit_simps)
  qed (use n in \<open>simp add: bit_simps not_bit8\<close>)
qed

lemma ucast_take_bit_byte [byte_simps]:
  "(ucast (take_bit 8 (x :: 'a::len word)) :: u8) = ucast x"
  by (rule bit_word_eqI) (simp add: bit_simps)

lemma ucast_scast_byte [byte_simps]: "ucast (scast (y :: u8) :: u32) = y"
proof (rule bit_word_eqI)
  fix n assume n: "n < LENGTH(8)"
  then have "min 7 n = n" by simp
  with n show "bit (ucast (scast y :: 32 word) :: 8 word) n = bit y n" by (simp add: bit_simps)
qed

lemma scast_byte_eq_0 [byte_simps]: "(scast (y :: u8) :: u32) = 0 \<longleftrightarrow> y = 0"
  by (metis ucast_scast_byte unsigned_0 signed_0)

lemma signed_shift_byte [byte_simps]:
  assumes "k \<le> 24"
  shows "(ucast (signed_drop_bit k (x :: u32)) :: u8) = ucast (drop_bit k x)"
proof (rule bit_word_eqI)
  fix n assume n: "n < LENGTH(8)"
  with assms have "min 31 (k + n) = k + n" "\<not> 32 - k \<le> n" by auto
  with n assms show "bit (ucast (signed_drop_bit k x) :: u8) n = bit (ucast (drop_bit k x) :: u8) n"
    by (simp add: bit_simps)
qed

lemma join_u32 [byte_simps]:
  fixes x :: u32
  shows "(push_bit 24 (ucast (ucast (drop_bit 24 x) :: u8)) OR
     push_bit 16 (ucast (ucast (drop_bit 16 x) :: u8)) OR
     push_bit 8 (ucast (ucast (drop_bit 8 x) :: u8)) OR
     ucast (ucast x :: u8)) = x" (is "?l = _")
proof (rule bit_word_eqI)
  fix n assume n: "n < LENGTH(32)"
  then consider "n < 8" | "8 \<le> n" "n < 16" | "16 \<le> n" "n < 24" | "24 \<le> n" "n < 32"
    by fastforce
  then show "bit ?l n = bit x n"
    using n by cases (auto simp add: bit_simps)
qed

lemma join_u16 [byte_simps]:
  fixes x :: u16
  shows "ucast (push_bit 8 (ucast (ucast (drop_bit 8 x) :: u8) :: u32)) OR
     ucast (ucast (ucast x :: u8) :: u32) = x" (is "?l = _")
proof (rule bit_word_eqI)
  fix n assume n: "n < LENGTH(16)"
  then consider "n < 8" | "8 \<le> n" "n < 16" by fastforce
  then show "bit ?l n = bit x n"
    using n by cases (auto simp add: bit_simps)
qed

lemma join_u64 [byte_simps]:
  fixes x :: u64
  shows "ucast (ucast x :: u32) OR push_bit 32 (ucast (ucast (drop_bit 32 x) :: u32)) = x"
    (is "?l = _")
proof (rule bit_word_eqI)
  fix n assume n: "n < LENGTH(64)"
  then consider "n < 32" | "32 \<le> n" "n < 64" by fastforce
  then show "bit ?l n = bit x n"
    using n by cases (auto simp add: bit_simps)
qed

lemma unat_neg_of_nat:
  assumes "0 < k" "k < 2 ^ 32"
  shows "unat (- of_nat k :: u32) = 2 ^ 32 - k"
proof -
  have "(of_nat (2 ^ 32) :: u32) = 0" by simp
  then have "(- of_nat k :: u32) = of_nat (2 ^ 32 - k)"
    using assms(2) by (simp only: of_nat_diff less_imp_le) simp
  then show ?thesis using assms by (simp only: unat_of_nat) (simp add: take_bit_nat_eq_self)
qed

end
