(* ===== verification/Marshall.thy ===== *)
theory Marshall
  imports Prelude
begin

text \<open>
  The byte buffers of the RPC library (\<open>rpc/marshall.h\<close> and the marshalling part of
  \<open>rpc/rpc.cc\<close>): \<open>marshall\<close>, which grows a heap buffer as values are appended behind
  space reserved for the header, and \<open>unmarshall\<close>, which reads a received buffer and
  remembers in \<open>_ok\<close> whether it ever ran out of bytes. A cell of a buffer that came from
  \<open>malloc\<close> or \<open>realloc\<close> and was not written yet is \<^term>\<open>None\<close>.
\<close>

section \<open>Sizes and headers\<close>

record req_header =
  rq_xid :: i32
  rq_proc :: i32
  rq_clt_nonce :: u32
  rq_srv_nonce :: u32
  rq_xid_rep :: i32

record reply_header =
  rp_xid :: i32
  rp_ret :: i32

definition DEFAULT_RPC_SZ :: nat where
  "DEFAULT_RPC_SZ = 1024"

text \<open>
  \<open>sizeof(req_header)\<close> is five 4-byte fields, \<open>sizeof(reply_header)\<close> two, and
  \<open>rpc_sz_t\<close> is an \<open>int\<close>; the build does not set \<open>RPC_CHECKSUMMING\<close>.
\<close>

definition sizeof_rpc_sz_t :: nat where
  "sizeof_rpc_sz_t = 4"

definition RPC_HEADER_SZ :: nat where
  "RPC_HEADER_SZ = max (5 * 4) (2 * 4) + sizeof_rpc_sz_t"

lemma header_sizes [simp]:
  "RPC_HEADER_SZ = 24" "sizeof_rpc_sz_t = 4" "DEFAULT_RPC_SZ = 1024"
  by (simp_all add: RPC_HEADER_SZ_def sizeof_rpc_sz_t_def DEFAULT_RPC_SZ_def)

section \<open>marshall\<close>

type_synonym cells = "u8 option list"

record marshall =
  mbuf :: "cells option"
  mcapa :: nat
  mind :: nat

definition malloc :: "nat \<Rightarrow> cells" where
  "malloc n = replicate n None"

definition realloc :: "cells \<Rightarrow> nat \<Rightarrow> cells" where
  "realloc b n = take n b @ replicate (n - length b) None"

definition marshall_new :: marshall where
  "marshall_new = \<lparr>mbuf = Some (malloc DEFAULT_RPC_SZ), mcapa = DEFAULT_RPC_SZ, mind = RPC_HEADER_SZ\<rparr>"

definition grow :: "nat \<Rightarrow> marshall \<Rightarrow> marshall outcome" where
  "grow c m =
     (if int_max < c then Inl Int_overflow
      else case mbuf m of
        None \<Rightarrow> Inl Assert_failed
      | Some b \<Rightarrow> Inr (m\<lparr>mcapa := c, mbuf := Some (realloc b c)\<rparr>))"

text \<open>\<open>_buf[_ind++] = x\<close> and \<open>memcpy(_buf+_ind, p, n); _ind += n\<close>.\<close>

definition poke :: "u8 \<Rightarrow> marshall \<Rightarrow> marshall outcome" where
  "poke x m =
     (case mbuf m of
        None \<Rightarrow> Inl Null_deref
      | Some b \<Rightarrow>
          if mind m < length b
          then Inr (m\<lparr>mbuf := Some (b[mind m := Some x]), mind := mind m + 1\<rparr>)
          else Inl Out_of_bounds)"

definition poke_bytes :: "u8 list \<Rightarrow> marshall \<Rightarrow> marshall outcome" where
  "poke_bytes p m =
     (case mbuf m of
        None \<Rightarrow> Inl Null_deref
      | Some b \<Rightarrow>
          if mind m + length p \<le> length b
          then Inr (m\<lparr>mbuf := Some (overwrite b (mind m) (map Some p)), mind := mind m + length p\<rparr>)
          else Inl Out_of_bounds)"

definition rawbyte :: "u8 \<Rightarrow> marshall \<Rightarrow> marshall outcome" where
  "rawbyte x m =
     andthen (if mcapa m \<le> mind m then grow (mcapa m * 2) m else Inr m) (poke x)"

definition rawbytes :: "u8 list \<Rightarrow> marshall \<Rightarrow> marshall outcome" where
  "rawbytes p m =
     (let n = length p in
      if int_max < mind m + n then Inl Int_overflow
      else andthen
        (if mcapa m < mind m + n
         then grow (if n < mcapa m then 2 * mcapa m else mcapa m + n) m
         else Inr m)
        (poke_bytes p))"

subsection \<open>The overloaded output operators\<close>

definition put_bool :: "bool \<Rightarrow> marshall \<Rightarrow> marshall outcome" where
  "put_bool x m = rawbyte (if x then 1 else 0) m"

definition put_uchar :: "u8 \<Rightarrow> marshall \<Rightarrow> marshall outcome" where
  "put_uchar x m = rawbyte x m"

definition put_char :: "u8 \<Rightarrow> marshall \<Rightarrow> marshall outcome" where
  "put_char x m = put_uchar x m"

definition put_ushort :: "u16 \<Rightarrow> marshall \<Rightarrow> marshall outcome" where
  "put_ushort x m =
     andthen (rawbyte (ucast (drop_bit 8 x AND 0xff)) m)
       (rawbyte (ucast (x AND 0xff)))"

definition put_short :: "u16 \<Rightarrow> marshall \<Rightarrow> marshall outcome" where
  "put_short x m = put_ushort x m"

definition put_uint :: "u32 \<Rightarrow> marshall \<Rightarrow> marshall outcome" where
  "put_uint x m =
     andthen (rawbyte (ucast (drop_bit 24 x AND 0xff)) m) (\<lambda>m.
     andthen (rawbyte (ucast (drop_bit 16 x AND 0xff)) m) (\<lambda>m.
     andthen (rawbyte (ucast (drop_bit 8 x AND 0xff)) m)
       (rawbyte (ucast (x AND 0xff)))))"

definition put_int :: "i32 \<Rightarrow> marshall \<Rightarrow> marshall outcome" where
  "put_int x m = put_uint x m"

definition put_string :: "u8 list \<Rightarrow> marshall \<Rightarrow> marshall outcome" where
  "put_string s m = andthen (put_uint (of_nat (length s)) m) (rawbytes s)"

definition put_ull :: "u64 \<Rightarrow> marshall \<Rightarrow> marshall outcome" where
  "put_ull x m = andthen (put_uint (ucast (drop_bit 32 x)) m) (put_uint (ucast x))"

text \<open>\<open>marshall::pack\<close> shifts a signed \<open>int\<close>, so its shift is arithmetic.\<close>

definition pack :: "i32 \<Rightarrow> marshall \<Rightarrow> marshall outcome" where
  "pack x m =
     andthen (rawbyte (ucast (signed_drop_bit 24 x AND 0xff)) m) (\<lambda>m.
     andthen (rawbyte (ucast (signed_drop_bit 16 x AND 0xff)) m) (\<lambda>m.
     andthen (rawbyte (ucast (signed_drop_bit 8 x AND 0xff)) m)
       (rawbyte (ucast (x AND 0xff)))))"

definition pack_req_header :: "req_header \<Rightarrow> marshall \<Rightarrow> marshall outcome" where
  "pack_req_header h m =
     (let saved_sz = mind m in
      andthen (pack (rq_xid h) (m\<lparr>mind := sizeof_rpc_sz_t\<rparr>)) (\<lambda>m.
      andthen (pack (rq_proc h) m) (\<lambda>m.
      andthen (pack (rq_clt_nonce h) m) (\<lambda>m.
      andthen (pack (rq_srv_nonce h) m) (\<lambda>m.
      andthen (pack (rq_xid_rep h) m) (\<lambda>m.
      Inr (m\<lparr>mind := saved_sz\<rparr>)))))))"

definition pack_reply_header :: "reply_header \<Rightarrow> marshall \<Rightarrow> marshall outcome" where
  "pack_reply_header h m =
     (let saved_sz = mind m in
      andthen (pack (rp_xid h) (m\<lparr>mind := sizeof_rpc_sz_t\<rparr>)) (\<lambda>m.
      andthen (pack (rp_ret h) m) (\<lambda>m.
      Inr (m\<lparr>mind := saved_sz\<rparr>))))"

text \<open>\<open>take_buf\<close> hands the buffer and its size over and leaves a null pointer behind.\<close>

definition take_buf :: "marshall \<Rightarrow> cells option \<times> nat \<times> marshall" where
  "take_buf m = (mbuf m, mind m, m\<lparr>mbuf := None, mind := 0\<rparr>)"

definition get_content :: "marshall \<Rightarrow> cells outcome" where
  "get_content m =
     (case mbuf m of
        None \<Rightarrow> Inl Null_deref
      | Some b \<Rightarrow> Inr (take (mind m - RPC_HEADER_SZ) (drop RPC_HEADER_SZ b)))"

section \<open>unmarshall\<close>

text \<open>
  \<open>ubuf\<close> holds the \<open>_sz\<close> bytes the object owns (a null \<open>_buf\<close> has \<open>_sz = 0\<close>), so
  \<open>_sz\<close> is \<^term>\<open>length (ubuf u)\<close>.
\<close>

record unmarshall =
  ubuf :: "u8 list"
  uind :: nat
  uok :: bool

abbreviation usz :: "unmarshall \<Rightarrow> nat" where
  "usz u \<equiv> length (ubuf u)"

definition unmarshall_empty :: unmarshall where
  "unmarshall_empty = \<lparr>ubuf = [], uind = 0, uok = False\<rparr>"

definition unmarshall_of :: "u8 list \<Rightarrow> unmarshall" where
  "unmarshall_of b = \<lparr>ubuf = b, uind = 0, uok = True\<rparr>"

definition okdone :: "unmarshall \<Rightarrow> bool" where
  "okdone u \<longleftrightarrow> uok u \<and> uind u = usz u"

text \<open>
  \<open>unmarshall::rawbyte\<close> reads a (signed) \<open>char\<close> and returns it as an
  \<open>unsigned int\<close>; past the end it returns 0 and clears \<open>_ok\<close>.
\<close>

definition urawbyte :: "unmarshall \<Rightarrow> u32 \<times> unmarshall" where
  "urawbyte u =
     (if usz u \<le> uind u then (0, u\<lparr>uok := False\<rparr>)
      else (scast (ubuf u ! uind u), u\<lparr>uind := uind u + 1\<rparr>))"

text \<open>
  \<open>unmarshall::rawbytes\<close>: the bound check \<open>(_ind+n) > (unsigned)_sz\<close> is computed in
  32-bit unsigned arithmetic; the copy that follows reads \<open>n\<close> bytes from \<open>_buf+_ind\<close>.
\<close>

definition urawbytes :: "u8 list \<Rightarrow> u32 \<Rightarrow> unmarshall \<Rightarrow> (u8 list \<times> unmarshall) outcome" where
  "urawbytes ss n u =
     (if (of_nat (usz u) :: u32) < of_nat (uind u) + n then Inr (ss, u\<lparr>uok := False\<rparr>)
      else if usz u < uind u + unat n then Inl Out_of_bounds
      else Inr (take (unat n) (drop (uind u) (ubuf u)), u\<lparr>uind := uind u + unat n\<rparr>))"

definition get_bool :: "unmarshall \<Rightarrow> (bool \<times> unmarshall) outcome" where
  "get_bool u = (let (c, u) = urawbyte u in Inr (c \<noteq> 0, u))"

definition get_uchar :: "unmarshall \<Rightarrow> (u8 \<times> unmarshall) outcome" where
  "get_uchar u = (let (c, u) = urawbyte u in Inr (ucast c, u))"

definition get_char :: "unmarshall \<Rightarrow> (u8 \<times> unmarshall) outcome" where
  "get_char u = (let (c, u) = urawbyte u in Inr (ucast c, u))"

definition get_ushort :: "unmarshall \<Rightarrow> (u16 \<times> unmarshall) outcome" where
  "get_ushort u =
     (let (a, u) = urawbyte u; (b, u) = urawbyte u
      in Inr (ucast (push_bit 8 (a AND 0xff)) OR ucast (b AND 0xff), u))"

definition get_short :: "unmarshall \<Rightarrow> (u16 \<times> unmarshall) outcome" where
  "get_short u =
     (let (a, u) = urawbyte u; (b, u) = urawbyte u
      in Inr (ucast (push_bit 8 (a AND 0xff)) OR ucast (b AND 0xff), u))"

definition get_uint :: "unmarshall \<Rightarrow> (u32 \<times> unmarshall) outcome" where
  "get_uint u =
     (let (a, u) = urawbyte u; (b, u) = urawbyte u; (c, u) = urawbyte u; (d, u) = urawbyte u
      in Inr (push_bit 24 (a AND 0xff) OR push_bit 16 (b AND 0xff) OR
              push_bit 8 (c AND 0xff) OR (d AND 0xff), u))"

definition get_int :: "unmarshall \<Rightarrow> (i32 \<times> unmarshall) outcome" where
  "get_int u =
     (let (a, u) = urawbyte u; (b, u) = urawbyte u; (c, u) = urawbyte u; (d, u) = urawbyte u
      in Inr (push_bit 24 (a AND 0xff) OR push_bit 16 (b AND 0xff) OR
              push_bit 8 (c AND 0xff) OR (d AND 0xff), u))"

definition get_ull :: "unmarshall \<Rightarrow> (u64 \<times> unmarshall) outcome" where
  "get_ull u =
     andthen (get_uint u) (\<lambda>(h, u).
     andthen (get_uint u) (\<lambda>(l, u).
     Inr (ucast l OR push_bit 32 (ucast h), u)))"

text \<open>The target string \<open>s\<close> keeps its value when the bytes run out.\<close>

definition get_string :: "u8 list \<Rightarrow> unmarshall \<Rightarrow> (u8 list \<times> unmarshall) outcome" where
  "get_string s u =
     andthen (get_uint u) (\<lambda>(sz, u).
       if uok u then urawbytes s sz u else Inr (s, u))"

definition unpack :: "unmarshall \<Rightarrow> i32 \<times> unmarshall" where
  "unpack u =
     (let (a, u) = urawbyte u; (b, u) = urawbyte u; (c, u) = urawbyte u; (d, u) = urawbyte u
      in (push_bit 24 (a AND 0xff) OR push_bit 16 (b AND 0xff) OR
          push_bit 8 (c AND 0xff) OR (d AND 0xff), u))"

definition unpack_req_header :: "unmarshall \<Rightarrow> req_header \<times> unmarshall" where
  "unpack_req_header u =
     (let u = u\<lparr>uind := sizeof_rpc_sz_t\<rparr>;
          (x, u) = unpack u; (p, u) = unpack u; (c, u) = unpack u;
          (s, u) = unpack u; (r, u) = unpack u
      in (\<lparr>rq_xid = x, rq_proc = p, rq_clt_nonce = c, rq_srv_nonce = s, rq_xid_rep = r\<rparr>,
          u\<lparr>uind := RPC_HEADER_SZ\<rparr>))"

definition unpack_reply_header :: "unmarshall \<Rightarrow> reply_header \<times> unmarshall" where
  "unpack_reply_header u =
     (let u = u\<lparr>uind := sizeof_rpc_sz_t\<rparr>;
          (x, u) = unpack u; (r, u) = unpack u
      in (\<lparr>rp_xid = x, rp_ret = r\<rparr>, u\<lparr>uind := RPC_HEADER_SZ\<rparr>))"

text \<open>\<open>unmarshall::take_buf\<close>, and \<open>take_in\<close>: (new value of the receiver, of the argument).\<close>

definition utake_buf :: "unmarshall \<Rightarrow> u8 list \<times> unmarshall" where
  "utake_buf u = (ubuf u, u\<lparr>ubuf := [], uind := 0\<rparr>)"

definition take_in :: "unmarshall \<Rightarrow> unmarshall \<Rightarrow> unmarshall \<times> unmarshall" where
  "take_in u another =
     (let (b, another) = utake_buf another
      in (u\<lparr>ubuf := b, uind := RPC_HEADER_SZ, uok := RPC_HEADER_SZ \<le> length b\<rparr>, another))"

text \<open>
  \<open>take_content\<close> leaves room for a header, whose cells keep what the object owned and else hold what
  the memory holds (\<open>junk\<close>). The size is computed in a \<open>size_t\<close> and stored in an \<open>int\<close>: a negative one
  makes \<open>realloc\<close> answer a null pointer, one that lost its upper half a block that is too short.
\<close>

definition take_content :: "(nat \<Rightarrow> u8) \<Rightarrow> u8 list \<Rightarrow> unmarshall \<Rightarrow> unmarshall outcome" where
  "take_content junk s u =
     (let sz = (length s + RPC_HEADER_SZ) mod 2 ^ 32 in
      if int_max < sz then Inl Assert_failed
      else if sz < length s + RPC_HEADER_SZ then Inl Out_of_bounds
      else Inr (u\<lparr>ubuf := map (\<lambda>i. if i < usz u then ubuf u ! i else junk i) [0..<RPC_HEADER_SZ] @ s,
                 uind := RPC_HEADER_SZ, uok := True\<rparr>))"

text \<open>The constructor from a string.\<close>

definition unmarshall_str :: "(nat \<Rightarrow> u8) \<Rightarrow> u8 list \<Rightarrow> unmarshall outcome" where
  "unmarshall_str junk s = take_content junk s unmarshall_empty"

text \<open>
  What a receiver sees of a sent buffer: its first \<open>n\<close> cells, where a cell that was never
  written holds some byte \<open>junk i\<close> the program does not control.
\<close>

definition wire :: "(nat \<Rightarrow> u8) \<Rightarrow> nat \<Rightarrow> cells \<Rightarrow> u8 list" where
  "wire junk n b = map (\<lambda>i. case b ! i of None \<Rightarrow> junk i | Some x \<Rightarrow> x) [0..<n]"



section \<open>What a marshall holds\<close>

definition written :: "marshall \<Rightarrow> cells" where
  "written m = (case mbuf m of None \<Rightarrow> [] | Some b \<Rightarrow> take (mind m) b)"

text \<open>
  The invariant: the buffer is there and as long as \<open>_capa\<close> says, the write position is
  inside it and behind the header, and doubling never wastes more than half of it.
\<close>

definition wf_marshall :: "marshall \<Rightarrow> bool" where
  "wf_marshall m \<longleftrightarrow>
     (case mbuf m of None \<Rightarrow> False | Some b \<Rightarrow> length b = mcapa m) \<and>
     RPC_HEADER_SZ \<le> mind m \<and> mind m \<le> mcapa m \<and> DEFAULT_RPC_SZ \<le> mcapa m \<and>
     mcapa m \<le> max DEFAULT_RPC_SZ (2 * mind m)"

definition fits :: "marshall \<Rightarrow> nat \<Rightarrow> bool" where
  "fits m n \<longleftrightarrow> 2 * (mind m + n) \<le> int_max"

definition appended :: "marshall \<Rightarrow> u8 list \<Rightarrow> marshall \<Rightarrow> bool" where
  "appended m bs m' \<longleftrightarrow> wf_marshall m' \<and> written m' = written m @ map Some bs"

text \<open>\<open>puts f bs\<close>: on every well-formed buffer with room, \<open>f\<close> succeeds and appends \<open>bs\<close>.\<close>

definition puts :: "(marshall \<Rightarrow> marshall outcome) \<Rightarrow> u8 list \<Rightarrow> bool" where
  "puts f bs \<longleftrightarrow>
     (\<forall>m. wf_marshall m \<longrightarrow> fits m (length bs) \<longrightarrow> (\<exists>m'. f m = Inr m' \<and> appended m bs m'))"

lemma wf_marshall_bufE:
  assumes "wf_marshall m"
  obtains b where "mbuf m = Some b" "length b = mcapa m" "24 \<le> mind m" "mind m \<le> mcapa m"
    "1024 \<le> mcapa m" "mcapa m \<le> max 1024 (2 * mind m)"
  using assms by (auto simp: wf_marshall_def split: option.splits)

lemma wf_marshall_new: "wf_marshall marshall_new"
  by (simp add: wf_marshall_def marshall_new_def malloc_def)

lemma length_written: "wf_marshall m \<Longrightarrow> length (written m) = mind m"
  by (elim wf_marshall_bufE) (simp add: written_def)

lemma appended_mind:
  assumes "wf_marshall m" "appended m bs m'"
  shows "mind m' = mind m + length bs"
proof -
  from assms(2) have "wf_marshall m'" by (simp add: appended_def)
  then have "mind m' = length (written m')" by (simp add: length_written)
  also have "\<dots> = length (written m) + length bs" using assms(2) by (simp add: appended_def)
  finally show ?thesis using assms(1) by (simp add: length_written)
qed

lemma length_realloc [simp]: "length (realloc b c) = c"
  by (simp add: realloc_def)

lemma take_realloc: "n \<le> length b \<Longrightarrow> n \<le> c \<Longrightarrow> take n (realloc b c) = take n b"
  by (simp add: realloc_def)

lemma puts_rawbyte [intro, simp]: "puts (rawbyte x) [x]"
  unfolding puts_def
proof (intro allI impI)
  fix m assume wf: "wf_marshall m" and fit: "fits m (length [x])"
  from wf obtain b where b: "mbuf m = Some b" "length b = mcapa m" "24 \<le> mind m" "mind m \<le> mcapa m"
    "1024 \<le> mcapa m" "mcapa m \<le> max 1024 (2 * mind m)" by (rule wf_marshall_bufE)
  show "\<exists>m'. rawbyte x m = Inr m' \<and> appended m [x] m'"
  proof (cases "mcapa m \<le> mind m")
    case True
    with b fit have "\<not> int_max < mcapa m * 2" by (simp add: fits_def)
    with True b show ?thesis
      by (auto simp: rawbyte_def grow_def poke_def appended_def wf_marshall_def written_def
          take_list_update_Suc take_realloc)
  next
    case False
    with b show ?thesis
      by (auto simp: rawbyte_def poke_def appended_def wf_marshall_def written_def
          take_list_update_Suc)
  qed
qed

lemma puts_rawbytes [intro, simp]: "puts (rawbytes p) p"
  unfolding puts_def
proof (intro allI impI)
  fix m assume wf: "wf_marshall m" and fit: "fits m (length p)"
  from wf obtain b where b: "mbuf m = Some b" "length b = mcapa m" "24 \<le> mind m" "mind m \<le> mcapa m"
    "1024 \<le> mcapa m" "mcapa m \<le> max 1024 (2 * mind m)" by (rule wf_marshall_bufE)
  have ow: "take (mind m + length p) (overwrite c (mind m) (map Some p)) = take (mind m) c @ map Some p"
    if "mind m \<le> length c" for c :: cells
    using take_overwrite_prefix [of "mind m" c "map Some p"] that by simp
  from fit have ov: "\<not> int_max < mind m + length p" by (simp add: fits_def)
  show "\<exists>m'. rawbytes p m = Inr m' \<and> appended m p m'"
  proof (cases "mcapa m < mind m + length p")
    case True
    define c where "c = (if length p < mcapa m then 2 * mcapa m else mcapa m + length p)"
    from True b fit have c: "\<not> int_max < c" "mind m + length p \<le> c" "mcapa m \<le> c"
      "c \<le> 2 * (mind m + length p)"
      by (auto simp: c_def fits_def)
    with True b ov show ?thesis
      by (auto simp: rawbytes_def Let_def grow_def poke_bytes_def appended_def wf_marshall_def
          written_def ow take_realloc simp flip: c_def)
  next
    case False
    with b ov show ?thesis
      by (auto simp: rawbytes_def Let_def poke_bytes_def appended_def wf_marshall_def written_def ow)
  qed
qed

lemma appended_trans:
  "appended m bs m' \<Longrightarrow> appended m' cs m'' \<Longrightarrow> appended m (bs @ cs) m''"
  by (simp add: appended_def)

lemma puts_Inr [intro, simp]: "puts Inr []"
  by (simp add: puts_def appended_def)

lemma puts_andthen [intro]:
  assumes f: "puts f bs" and g: "puts g cs"
  shows "puts (\<lambda>m. andthen (f m) g) (bs @ cs)"
  unfolding puts_def
proof (intro allI impI)
  fix m assume wf: "wf_marshall m" and fit: "fits m (length (bs @ cs))"
  from fit have "fits m (length bs)" by (simp add: fits_def)
  with f wf obtain m' where m': "f m = Inr m'" "appended m bs m'"
    unfolding puts_def by blast
  with fit appended_mind [OF wf m'(2)] have "wf_marshall m'" "fits m' (length cs)"
    by (simp_all add: appended_def fits_def)
  with g obtain m'' where "g m' = Inr m''" "appended m' cs m''"
    unfolding puts_def by blast
  with m' show "\<exists>m'. andthen (f m) g = Inr m' \<and> appended m (bs @ cs) m'"
    by (auto intro: appended_trans)
qed

text \<open>Big-endian encodings.\<close>

definition enc_u16 :: "u16 \<Rightarrow> u8 list" where
  "enc_u16 x = [ucast (drop_bit 8 x), ucast x]"

definition enc_u32 :: "u32 \<Rightarrow> u8 list" where
  "enc_u32 x = [ucast (drop_bit 24 x), ucast (drop_bit 16 x), ucast (drop_bit 8 x), ucast x]"

definition enc_u64 :: "u64 \<Rightarrow> u8 list" where
  "enc_u64 x = enc_u32 (ucast (drop_bit 32 x)) @ enc_u32 (ucast x)"

definition enc_string :: "u8 list \<Rightarrow> u8 list" where
  "enc_string s = enc_u32 (of_nat (length s)) @ s"

lemma length_enc [simp]:
  "length (enc_u16 a) = 2" "length (enc_u32 b) = 4" "length (enc_u64 c) = 8"
  "length (enc_string s) = 4 + length s"
  by (simp_all add: enc_u16_def enc_u32_def enc_u64_def enc_string_def)

lemma puts_cong: "puts f bs \<Longrightarrow> bs = cs \<Longrightarrow> puts f cs"
  by simp

lemma puts_u16: "puts (put_ushort x) (enc_u16 x)"
  unfolding put_ushort_def [abs_def] enc_u16_def
  by (rule puts_cong, (rule puts_andthen puts_rawbyte)+) (simp add: byte_simps)

lemma puts_u32: "puts (put_uint x) (enc_u32 x)"
  unfolding put_uint_def [abs_def] enc_u32_def
  by (rule puts_cong, (rule puts_andthen puts_rawbyte)+) (simp add: byte_simps)

lemma puts_u64: "puts (put_ull x) (enc_u64 x)"
  unfolding put_ull_def [abs_def] enc_u64_def
  by (rule puts_andthen puts_u32)+

lemma puts_string: "puts (put_string s) (enc_string s)"
  unfolding put_string_def [abs_def] enc_string_def
  by (rule puts_andthen puts_u32 puts_rawbytes)+



section \<open>What an unmarshall reads\<close>

text \<open>
  \<open>gets g bs x\<close>: on a reader that is still ok, has a size an \<open>int\<close> can hold and whose remaining bytes start with
  \<open>bs\<close>, \<open>g\<close> returns \<open>x\<close> and has consumed exactly \<open>bs\<close>.
\<close>

definition gets :: "(unmarshall \<Rightarrow> ('a \<times> unmarshall) outcome) \<Rightarrow> u8 list \<Rightarrow> 'a \<Rightarrow> bool" where
  "gets g bs x \<longleftrightarrow>
     (\<forall>u rest. uok u \<longrightarrow> usz u \<le> int_max \<longrightarrow> drop (uind u) (ubuf u) = bs @ rest \<longrightarrow>
        g u = Inr (x, u\<lparr>uind := uind u + length bs\<rparr>))"

lemma getsI:
  assumes "\<And>u rest. uok u \<Longrightarrow> usz u \<le> int_max \<Longrightarrow> drop (uind u) (ubuf u) = bs @ rest
     \<Longrightarrow> g u = Inr (x, u\<lparr>uind := uind u + length bs\<rparr>)"
  shows "gets g bs x"
  using assms by (simp add: gets_def)

lemma gets_return [intro, simp]: "gets (\<lambda>u. Inr (x, u)) [] x"
  by (simp add: gets_def)

lemma drop_append_step:
  "drop i xs = ys @ zs \<Longrightarrow> drop (i + length ys) xs = zs"
  by (metis add.commute append_eq_conv_conj drop_drop)

lemma gets_andthen [intro]:
  assumes g: "gets g bs x" and h: "gets (h x) cs y"
  shows "gets (\<lambda>u. andthen (g u) (\<lambda>(x, u). h x u)) (bs @ cs) y"
proof (rule getsI)
  fix u :: unmarshall and rest
  assume u: "uok u" "usz u \<le> int_max" "drop (uind u) (ubuf u) = (bs @ cs) @ rest"
  let ?u = "u\<lparr>uind := uind u + length bs\<rparr>"
  from u g have "g u = Inr (x, ?u)" unfolding gets_def by force
  moreover from u h have "h x ?u = Inr (y, ?u\<lparr>uind := uind ?u + length cs\<rparr>)"
    unfolding gets_def by (auto dest!: drop_append_step [of _ _ bs])
  ultimately show "andthen (g u) (\<lambda>(x, u). h x u) = Inr (y, u\<lparr>uind := uind u + length (bs @ cs)\<rparr>)"
    by (simp add: add.assoc)
qed

lemma drop_ConsD: "drop i xs = y # ys \<Longrightarrow> i < length xs \<and> xs ! i = y \<and> drop (Suc i) xs = ys"
  by (metis drop_Suc length_drop length_Cons list.sel(3) nth_via_drop tl_drop zero_less_Suc
      zero_less_diff)

lemma urawbyte_hit:
  "drop (uind u) (ubuf u) = b # bs \<Longrightarrow> urawbyte u = (scast b, u\<lparr>uind := Suc (uind u)\<rparr>)"
  by (auto simp: urawbyte_def dest: drop_ConsD)

lemma drop4:
  assumes "drop i xs = a # b # c # d # zs"
  shows "drop (Suc i) xs = b # c # d # zs" "drop (Suc (Suc i)) xs = c # d # zs"
    "drop (Suc (Suc (Suc i))) xs = d # zs"
  using assms by (auto dest: drop_ConsD)

lemma gets_u32: "gets get_uint (enc_u32 x) x"
proof (rule getsI)
  fix u :: unmarshall and rest
  assume "drop (uind u) (ubuf u) = enc_u32 x @ rest"
  then have d: "drop (uind u) (ubuf u) = ucast (drop_bit 24 x) # ucast (drop_bit 16 x) #
      ucast (drop_bit 8 x) # ucast x # rest" by (simp add: enc_u32_def)
  show "get_uint u = Inr (x, u\<lparr>uind := uind u + length (enc_u32 x)\<rparr>)"
    by (simp add: get_uint_def Let_def urawbyte_hit d drop4 [OF d] byte_simps)
qed

lemma get_int_eq: "get_int = get_uint"
  by (rule ext) (simp add: get_int_def get_uint_def)

lemma gets_int: "gets get_int (enc_u32 x) x"
  by (simp add: get_int_eq gets_u32)

lemma gets_u16: "gets get_ushort (enc_u16 x) x"
proof (rule getsI)
  fix u :: unmarshall and rest
  assume "drop (uind u) (ubuf u) = enc_u16 x @ rest"
  then have d: "drop (uind u) (ubuf u) = ucast (drop_bit 8 x) # ucast x # rest"
    by (simp add: enc_u16_def)
  from drop_ConsD [OF d] have d': "drop (Suc (uind u)) (ubuf u) = ucast x # rest" by simp
  show "get_ushort u = Inr (x, u\<lparr>uind := uind u + length (enc_u16 x)\<rparr>)"
    by (simp add: get_ushort_def Let_def urawbyte_hit d d' byte_simps)
qed

lemma get_short_eq: "get_short = get_ushort"
  by (rule ext) (simp add: get_short_def get_ushort_def)

lemma gets_byte:
  "gets get_bool [if b then 1 else 0] b" "gets get_uchar [x] x" "gets get_char [x] x"
  by (auto simp: gets_def get_bool_def get_uchar_def get_char_def urawbyte_hit byte_simps)

lemma gets_u64: "gets get_ull (enc_u64 x) x"
proof -
  let ?h = "ucast (drop_bit 32 x) :: u32" and ?l = "ucast x :: u32"
  have "gets get_ull (enc_u32 ?h @ enc_u32 ?l @ []) (ucast ?l OR push_bit 32 (ucast ?h))"
    unfolding get_ull_def [abs_def] by (rule gets_andthen gets_u32 gets_return)+
  then show ?thesis by (simp add: enc_u64_def byte_simps)
qed

text \<open>A block whose end stays below \<open>2 ^ 32\<close> passes the wrapping check exactly when it fits.\<close>

lemma urawbytes_small:
  assumes "usz u < 2 ^ 31" "uind u < 2 ^ 31" "unat n < 2 ^ 31"
  shows "urawbytes ss n u =
     (if usz u < uind u + unat n then Inr (ss, u\<lparr>uok := False\<rparr>)
      else Inr (take (unat n) (drop (uind u) (ubuf u)), u\<lparr>uind := uind u + unat n\<rparr>))"
proof -
  have "unat (of_nat (uind u) + n) = uind u + unat n"
    using assms by (simp add: unat_word_ariths unat_of_nat)
  moreover have "unat (of_nat (usz u) :: u32) = usz u"
    using assms by (simp add: unat_of_nat)
  ultimately have "(of_nat (usz u) :: u32) < of_nat (uind u) + n \<longleftrightarrow> usz u < uind u + unat n"
    by (simp add: word_less_nat_alt)
  then show ?thesis by (simp add: urawbytes_def)
qed

lemma gets_string:
  assumes "length s \<le> int_max"
  shows "gets (get_string s0) (enc_string s) s"
proof (rule getsI)
  fix u :: unmarshall and rest
  assume u: "uok u" "usz u \<le> int_max" "drop (uind u) (ubuf u) = enc_string s @ rest"
  let ?n = "of_nat (length s) :: u32"
  let ?v = "u\<lparr>uind := uind u + 4\<rparr>"
  from assms have n: "unat ?n = length s" by (simp add: unat_of_nat int_max_def)
  from u gets_u32 [of ?n] have g: "get_uint u = Inr (?n, ?v)"
    by (auto simp: gets_def enc_string_def)
  from u(3) have d: "drop (uind u + 4) (ubuf u) = s @ rest"
    using drop_append_step [of "uind u" "ubuf u" "enc_u32 ?n" "s @ rest"]
    by (simp add: enc_string_def)
  from u(3) have "length (drop (uind u) (ubuf u)) = 4 + length s + length rest" by simp
  then have "uind u + 4 + length s \<le> usz u" by simp
  moreover from this have "urawbytes s0 ?n ?v = Inr (take (length s) (drop (uind u + 4) (ubuf u)),
      ?v\<lparr>uind := uind ?v + length s\<rparr>)"
    using u(2) assms n by (subst urawbytes_small) (auto simp: int_max_def)
  ultimately show "get_string s0 u = Inr (s, u\<lparr>uind := uind u + length (enc_string s)\<rparr>)"
    using u(1) by (simp add: get_string_def g d add.assoc)
qed



section \<open>Headers\<close>

definition enc_req_header :: "req_header \<Rightarrow> u8 list" where
  "enc_req_header h = enc_u32 (rq_xid h) @ enc_u32 (rq_proc h) @ enc_u32 (rq_clt_nonce h) @
     enc_u32 (rq_srv_nonce h) @ enc_u32 (rq_xid_rep h)"

definition enc_reply_header :: "reply_header \<Rightarrow> u8 list" where
  "enc_reply_header h = enc_u32 (rp_xid h) @ enc_u32 (rp_ret h)"

lemma length_enc_header [simp]:
  "length (enc_req_header h) = 20" "length (enc_reply_header r) = 8"
  by (simp_all add: enc_req_header_def enc_reply_header_def)

lemma overwrite_overwrite:
  assumes "i + length xs + length ys \<le> length b" "j = i + length xs"
  shows "overwrite (overwrite b i xs) j ys = overwrite b i (xs @ ys)"
  using assms by (simp add: overwrite_def ac_simps)

lemma drop_overwrite_after:
  "i + length ys \<le> k \<Longrightarrow> i \<le> length b \<Longrightarrow> drop k (overwrite b i ys) = drop k b"
  by (simp add: overwrite_def)

lemma drop_overwrite_at:
  "i \<le> length b \<Longrightarrow> drop i (overwrite b i ys) = ys @ drop (i + length ys) b"
  by (simp add: overwrite_def)

lemma overwrite4:
  assumes "i + 4 \<le> length b"
  shows "b[i := x0, Suc i := x1, Suc (Suc i) := x2, Suc (Suc (Suc i)) := x3] =
     overwrite b i [x0, x1, x2, x3]"
proof -
  have "b[i := x0] = overwrite b i [x0]"
    using overwrite_snoc [of i "[]" b x0] assms by simp
  then show ?thesis
    using assms overwrite_snoc [of i "[x0]" b x1] overwrite_snoc [of i "[x0, x1]" b x2]
      overwrite_snoc [of i "[x0, x1, x2]" b x3] by simp
qed

text \<open>Inside the buffer, \<open>pack\<close> overwrites four cells and never reallocates.\<close>

lemma rawbyte_inside:
  "mbuf m = Some b \<Longrightarrow> length b = mcapa m \<Longrightarrow> mind m < mcapa m \<Longrightarrow>
     rawbyte x m = Inr (m\<lparr>mbuf := Some (b[mind m := Some x]), mind := Suc (mind m)\<rparr>)"
  by (simp add: rawbyte_def poke_def)

lemma pack_inside:
  assumes "mbuf m = Some b" "length b = mcapa m" "mind m + 4 \<le> mcapa m"
  shows "pack x m = Inr (m\<lparr>mbuf := Some (overwrite b (mind m) (map Some (enc_u32 x))),
     mind := mind m + 4\<rparr>)"
  using assms
  by (simp add: pack_def rawbyte_inside enc_u32_def byte_simps flip: overwrite4)

lemma pack_req_header_eq:
  assumes "mbuf m = Some b" "length b = mcapa m" "24 \<le> mcapa m"
  shows "pack_req_header h m = Inr (m\<lparr>mbuf := Some (overwrite b 4 (map Some (enc_req_header h)))\<rparr>)"
  using assms
  by (simp add: pack_req_header_def Let_def pack_inside overwrite_overwrite enc_req_header_def)

lemma pack_reply_header_eq:
  assumes "mbuf m = Some b" "length b = mcapa m" "24 \<le> mcapa m"
  shows "pack_reply_header h m =
     Inr (m\<lparr>mbuf := Some (overwrite b 4 (map Some (enc_reply_header h)))\<rparr>)"
  using assms
  by (simp add: pack_reply_header_def Let_def pack_inside overwrite_overwrite enc_reply_header_def)

text \<open>
  A buffer that holds header cells and a body: the body is what was appended behind the
  header since \<^term>\<open>marshall_new\<close>.
\<close>

definition body :: "marshall \<Rightarrow> u8 list \<Rightarrow> bool" where
  "body m bs \<longleftrightarrow> wf_marshall m \<and> drop RPC_HEADER_SZ (written m) = map Some bs"

lemma body_new: "body marshall_new []"
  by (simp add: body_def wf_marshall_new) (simp add: written_def marshall_new_def malloc_def)

lemma body_appended: "body m bs \<Longrightarrow> appended m cs m' \<Longrightarrow> body m' (bs @ cs)"
  by (auto simp: body_def appended_def length_written wf_marshall_def)

lemma body_mind: "body m bs \<Longrightarrow> mind m = RPC_HEADER_SZ + length bs"
proof -
  assume b: "body m bs"
  then have "length (drop 24 (written m)) = length bs" by (simp add: body_def)
  moreover have "length (written m) = mind m" "24 \<le> mind m"
    using b by (auto simp: body_def length_written wf_marshall_def)
  ultimately show ?thesis by simp
qed

lemma puts_body:
  assumes "puts f cs" "body m bs" "2 * (RPC_HEADER_SZ + length bs + length cs) \<le> int_max"
  shows "\<exists>m'. f m = Inr m' \<and> body m' (bs @ cs)"
proof -
  have "fits m (length cs)" using assms(3) body_mind [OF assms(2)] by (simp add: fits_def)
  with assms(1,2) obtain m' where "f m = Inr m'" "appended m cs m'"
    unfolding puts_def body_def by blast
  with assms(2) show ?thesis by (blast intro: body_appended)
qed

text \<open>\<open>sent m hdr bs\<close>: the header cells from offset 4 hold \<open>hdr\<close>, the body is \<open>bs\<close>.\<close>

definition sent :: "marshall \<Rightarrow> u8 list \<Rightarrow> u8 list \<Rightarrow> bool" where
  "sent m hdr bs \<longleftrightarrow> body m bs \<and>
     take (length hdr) (drop sizeof_rpc_sz_t (written m)) = map Some hdr"

lemma overwrite_header:
  assumes "body m bs" "length hdr \<le> 20" "mbuf m = Some b"
  shows "sent (m\<lparr>mbuf := Some (overwrite b 4 (map Some hdr))\<rparr>) hdr bs"
proof -
  from assms(1) have wf: "wf_marshall m" and "drop 24 (take (mind m) b) = map Some bs"
    using assms(3) by (simp_all add: body_def written_def)
  moreover from wf assms(3) have "24 \<le> mind m" "mind m \<le> length b"
    by (auto simp: wf_marshall_def)
  ultimately show ?thesis
    using assms(2,3)
    by (simp add: sent_def body_def written_def wf_marshall_def drop_take
        drop_overwrite_after drop_overwrite_at)
qed

lemma pack_req_header_sent:
  assumes "body m bs"
  shows "\<exists>m'. pack_req_header h m = Inr m' \<and> sent m' (enc_req_header h) bs \<and> mind m' = mind m"
proof -
  from assms obtain b where "mbuf m = Some b" "length b = mcapa m" "24 \<le> mcapa m"
    by (auto simp: body_def elim!: wf_marshall_bufE)
  with assms show ?thesis by (simp add: pack_req_header_eq overwrite_header)
qed

lemma pack_reply_header_sent:
  assumes "body m bs"
  shows "\<exists>m'. pack_reply_header h m = Inr m' \<and> sent m' (enc_reply_header h) bs \<and> mind m' = mind m"
proof -
  from assms obtain b where "mbuf m = Some b" "length b = mcapa m" "24 \<le> mcapa m"
    by (auto simp: body_def elim!: wf_marshall_bufE)
  with assms show ?thesis by (simp add: pack_reply_header_eq overwrite_header)
qed

section \<open>From the sender's buffer to the receiver's\<close>

lemma length_wire [simp]: "length (wire junk n b) = n"
  by (simp add: wire_def)

lemma wire_section:
  assumes "take k (drop i (take n b)) = map Some bs" "length bs = k" "i + k \<le> n" "n \<le> length b"
  shows "take k (drop i (wire junk n b)) = bs"
proof (rule nth_equalityI)
  show "length (take k (drop i (wire junk n b))) = length bs" using assms by simp
next
  fix j assume "j < length (take k (drop i (wire junk n b)))"
  then have j: "j < k" by simp
  have "b ! (i + j) = take k (drop i (take n b)) ! j" using j assms(3,4) by simp
  also have "\<dots> = Some (bs ! j)" using j assms(1,2) by simp
  finally show "take k (drop i (wire junk n b)) ! j = bs ! j"
    using j assms(3,4) by (simp add: wire_def)
qed

definition received :: "(nat \<Rightarrow> u8) \<Rightarrow> marshall \<Rightarrow> unmarshall" where
  "received junk m = unmarshall_of (wire junk (mind m) (case mbuf m of None \<Rightarrow> [] | Some b \<Rightarrow> b))"

lemma received_sections:
  assumes "sent m hdr bs" "length hdr \<le> 20"
  shows "take (length hdr) (drop 4 (ubuf (received junk m))) = hdr"
    and "drop 24 (ubuf (received junk m)) = bs"
    and "usz (received junk m) = 24 + length bs" and "uok (received junk m)"
proof -
  from assms(1) have b: "body m bs" and h: "take (length hdr) (drop 4 (written m)) = map Some hdr"
    by (simp_all add: sent_def)
  from b obtain c where c: "mbuf m = Some c" "mind m \<le> length c"
    by (auto simp: body_def elim!: wf_marshall_bufE)
  from b have mind: "mind m = 24 + length bs" by (simp add: body_mind)
  from h c assms(2) mind show "take (length hdr) (drop 4 (ubuf (received junk m))) = hdr"
    by (auto simp: received_def unmarshall_of_def written_def intro!: wire_section)
  have "take (length bs) (drop 24 (take (mind m) c)) = map Some bs"
    using b c by (simp add: body_def written_def)
  with c mind have "take (length bs) (drop 24 (wire junk (mind m) c)) = bs"
    by (intro wire_section) auto
  then show "drop 24 (ubuf (received junk m)) = bs"
    using c mind by (simp add: received_def unmarshall_of_def)
  show "usz (received junk m) = 24 + length bs" "uok (received junk m)"
    using mind by (simp_all add: received_def unmarshall_of_def)
qed

lemma unpack_hit:
  assumes "drop (uind u) (ubuf u) = enc_u32 x @ rest"
  shows "unpack u = (x, u\<lparr>uind := uind u + 4\<rparr>)"
proof -
  from assms have d: "drop (uind u) (ubuf u) = ucast (drop_bit 24 x) # ucast (drop_bit 16 x) #
      ucast (drop_bit 8 x) # ucast x # rest" by (simp add: enc_u32_def)
  show ?thesis by (simp add: unpack_def Let_def urawbyte_hit d drop4 [OF d] byte_simps)
qed

lemma unpack_req_header_hit:
  assumes "take 20 (drop 4 (ubuf u)) = enc_req_header h"
  shows "unpack_req_header u = (h, u\<lparr>uind := 24\<rparr>)"
proof -
  define rest where "rest = drop 20 (drop 4 (ubuf u))"
  have d0: "drop 4 (ubuf u) = enc_req_header h @ rest"
    using assms append_take_drop_id [of 20 "drop 4 (ubuf u)"] by (simp add: rest_def)
  have d1: "drop 8 (ubuf u) = drop 4 (enc_req_header h @ rest)"
    and d2: "drop 12 (ubuf u) = drop 8 (enc_req_header h @ rest)"
    and d3: "drop 16 (ubuf u) = drop 12 (enc_req_header h @ rest)"
    and d4: "drop 20 (ubuf u) = drop 16 (enc_req_header h @ rest)"
    by (simp_all flip: d0)
  show ?thesis
    using d0 d1 d2 d3 d4
    by (simp add: unpack_req_header_def Let_def unpack_hit enc_req_header_def)
qed

lemma unpack_reply_header_hit:
  assumes "take 8 (drop 4 (ubuf u)) = enc_reply_header h"
  shows "unpack_reply_header u = (h, u\<lparr>uind := 24\<rparr>)"
proof -
  define rest where "rest = drop 8 (drop 4 (ubuf u))"
  have d0: "drop 4 (ubuf u) = enc_reply_header h @ rest"
    using assms append_take_drop_id [of 8 "drop 4 (ubuf u)"] by (simp add: rest_def)
  have d1: "drop 8 (ubuf u) = drop 4 (enc_reply_header h @ rest)"
    by (simp flip: d0)
  show ?thesis
    using d0 d1 by (simp add: unpack_reply_header_def Let_def unpack_hit enc_reply_header_def)
qed

text \<open>
  The two ends together: a request (reply) whose header was packed and whose body was
  appended is read back with its header, and the body is all that is left to read.
\<close>

definition at_body :: "unmarshall \<Rightarrow> u8 list \<Rightarrow> bool" where
  "at_body u bs \<longleftrightarrow> uok u \<and> uind u = RPC_HEADER_SZ \<and> usz u = RPC_HEADER_SZ + length bs \<and>
     drop RPC_HEADER_SZ (ubuf u) = bs"

text \<open>The content of a buffer as a string, and an object made from it.\<close>

lemma content_roundtrip:
  assumes "body m bs" "RPC_HEADER_SZ + length bs \<le> int_max"
  shows "get_content m = Inr (map Some bs) \<and> (\<exists>u. unmarshall_str junk bs = Inr u \<and> at_body u bs)"
proof -
  from assms(1) obtain b where b: "mbuf m = Some b" and w: "drop RPC_HEADER_SZ (take (mind m) b) = map Some bs"
    by (auto simp: body_def wf_marshall_def written_def split: option.splits)
  from w have "take (mind m - RPC_HEADER_SZ) (drop RPC_HEADER_SZ b) = map Some bs" by (simp add: drop_take)
  with b have "get_content m = Inr (map Some bs)" by (simp add: get_content_def)
  moreover have "(length bs + RPC_HEADER_SZ) mod 2 ^ 32 = length bs + RPC_HEADER_SZ" using assms(2) by (intro mod_less) (simp add: int_max_def)
  ultimately show ?thesis using assms(2) by (simp add: unmarshall_str_def take_content_def at_body_def Let_def)
qed

lemma receive_request:
  assumes "sent m (enc_req_header h) bs"
  shows "\<exists>u. unpack_req_header (received junk m) = (h, u) \<and> at_body u bs"
  using received_sections [OF assms, of junk]
  by (simp add: unpack_req_header_hit at_body_def)

lemma receive_reply:
  assumes "sent m (enc_reply_header h) bs"
  shows "\<exists>u. unpack_reply_header (received junk m) = (h, u) \<and> at_body u bs"
  using received_sections [OF assms, of junk]
  by (simp add: unpack_reply_header_hit at_body_def)

lemma at_body_gets:
  assumes "at_body u bs" "gets g bs x" "RPC_HEADER_SZ + length bs \<le> int_max"
  shows "\<exists>u'. g u = Inr (x, u') \<and> okdone u'"
proof -
  from assms(1) have "uok u" "usz u = 24 + length bs" "uind u = 24" "drop (uind u) (ubuf u) = bs @ []"
    by (simp_all add: at_body_def)
  with assms(2,3) have "g u = Inr (x, u\<lparr>uind := uind u + length bs\<rparr>)"
    unfolding gets_def by (metis header_sizes(1))
  with \<open>uok u\<close> \<open>usz u = 24 + length bs\<close> \<open>uind u = 24\<close> show ?thesis
    by (simp add: okdone_def)
qed



lemma sent_appended:
  assumes "sent m hdr bs" "appended m cs m'" "length hdr \<le> 20"
  shows "sent m' hdr (bs @ cs)"
proof -
  from assms(1) have b: "body m bs" by (simp add: sent_def)
  then have "length (written m) = mind m" "24 \<le> mind m"
    by (auto simp: body_def length_written wf_marshall_def)
  with assms show ?thesis
    by (simp add: sent_def body_appended [OF b]) (simp add: appended_def)
qed

lemma puts_sent:
  assumes "puts f cs" "sent m hdr bs" "length hdr \<le> 20"
    "2 * (RPC_HEADER_SZ + length bs + length cs) \<le> int_max"
  shows "\<exists>m'. f m = Inr m' \<and> sent m' hdr (bs @ cs)"
proof -
  from assms(2) have b: "body m bs" by (simp add: sent_def)
  with assms(4) body_mind [OF b] have "wf_marshall m" "fits m (length cs)"
    by (simp_all add: fits_def body_def)
  with assms(1) obtain m' where "f m = Inr m'" "appended m cs m'"
    unfolding puts_def by blast
  with assms(2,3) show ?thesis by (blast intro: sent_appended)
qed

lemma sent_mind: "sent m hdr bs \<Longrightarrow> mind m = RPC_HEADER_SZ + length bs"
  by (auto simp: sent_def dest: body_mind)

section \<open>The marshalling self-test of rpctest\<close>

text \<open>
  \<open>testmarshall\<close> of \<open>rpc/rpctest.cc\<close>, with the literals it uses as parameters. Its
  assertions are the outcome \<^term>\<open>Assert_failed\<close>; running to the end is \<^term>\<open>Inr ()\<close>.
\<close>

definition testmarshall ::
    "(nat \<Rightarrow> u8) \<Rightarrow> req_header \<Rightarrow> i32 \<Rightarrow> u64 \<Rightarrow> u8 list \<Rightarrow> unit outcome" where
  "testmarshall junk rh i l s =
     andthen (pack_req_header rh marshall_new) (\<lambda>m.
     if mind m \<noteq> RPC_HEADER_SZ then Inl Assert_failed else
     andthen (put_int i m) (\<lambda>m.
     andthen (put_ull l m) (\<lambda>m.
     andthen (put_string s m) (\<lambda>m.
     let (b, sz, m) = take_buf m in
     if sz \<noteq> RPC_HEADER_SZ + 4 + 8 + length s + 4 then Inl Assert_failed else
     let un = unmarshall_of (wire junk sz (case b of None \<Rightarrow> [] | Some c \<Rightarrow> c));
         (rh1, un) = unpack_req_header un in
     if rh \<noteq> rh1 then Inl Assert_failed else
     andthen (get_int un) (\<lambda>(i1, un).
     andthen (get_ull un) (\<lambda>(l1, un).
     andthen (get_string [] un) (\<lambda>(s1, un).
     if \<not> okdone un then Inl Assert_failed else
     if \<not> (i1 = i \<and> l1 = l \<and> s1 = s) then Inl Assert_failed else Inr ())))))))"

lemma gets_triple:
  assumes "length s \<le> int_max"
  shows "gets (\<lambda>u. andthen (get_int u) (\<lambda>(i1, u). andthen (get_ull u) (\<lambda>(l1, u).
     andthen (get_string [] u) (\<lambda>(s1, u). Inr ((i1, l1, s1), u)))))
     (enc_u32 i @ enc_u64 l @ enc_string s @ []) (i, l, s)"
  by (rule gets_andthen gets_int gets_u64 gets_string assms gets_return)+

lemma gets_hit:
  assumes "gets g bs x" "uok u" "usz u \<le> int_max" "drop (uind u) (ubuf u) = bs @ rest"
  shows "g u = Inr (x, u\<lparr>uind := uind u + length bs\<rparr>)"
  using assms by (simp add: gets_def)

lemma testmarshall_ok:
  assumes "2 * (40 + length s) \<le> int_max"
  shows "testmarshall junk rh i l s = Inr ()"
proof -
  from pack_req_header_sent [OF body_new] obtain m0
    where m0: "pack_req_header rh marshall_new = Inr m0" "sent m0 (enc_req_header rh) []"
    by blast
  from puts_sent [OF puts_u32 m0(2), of i] assms obtain m1
    where m1: "put_uint i m0 = Inr m1" "sent m1 (enc_req_header rh) (enc_u32 i)" by auto
  from puts_sent [OF puts_u64 m1(2), of l] assms obtain m2
    where m2: "put_ull l m1 = Inr m2" "sent m2 (enc_req_header rh) (enc_u32 i @ enc_u64 l)" by auto
  from puts_sent [OF puts_string m2(2), of s] assms obtain m3
    where m3: "put_string s m2 = Inr m3"
      "sent m3 (enc_req_header rh) (enc_u32 i @ enc_u64 l @ enc_string s)" by auto
  from receive_request [OF m3(2), of junk] obtain u
    where u: "unpack_req_header (received junk m3) = (rh, u)"
      "at_body u (enc_u32 i @ enc_u64 l @ enc_string s)" by blast
  let ?u1 = "u\<lparr>uind := 28\<rparr>" and ?u2 = "u\<lparr>uind := 36\<rparr>" and ?u3 = "u\<lparr>uind := 40 + length s\<rparr>"
  from u(2) have u': "uok u" "uind u = 24" "usz u = 40 + length s"
    "drop 24 (ubuf u) = enc_u32 i @ enc_u64 l @ enc_string s" by (simp_all add: at_body_def)
  from assms have le: "usz u \<le> int_max" "length s \<le> int_max" using u'(3) by simp_all
  have g1: "get_int u = Inr (i, ?u1)" using u' le by (simp add: gets_hit [OF gets_int])
  have d1: "drop 28 (ubuf u) = enc_u64 l @ enc_string s"
    using drop_append_step [OF u'(4)] by simp
  then have g2: "get_ull ?u1 = Inr (l, ?u2)" using u' le by (simp add: gets_hit [OF gets_u64])
  have "drop 36 (ubuf u) = enc_string s @ []" using drop_append_step [OF d1] by simp
  then have g3: "get_string [] ?u2 = Inr (s, ?u3)"
    using gets_hit [OF gets_string [OF le(2)], of ?u2 "[]"] u' le by (simp add: add.commute)
  from m3(2) have mind: "mind m3 = 40 + length s" by (simp add: sent_mind)
  note rcv = u(1) [unfolded received_def mind]
  show ?thesis
    using m0 m1 m2 m3 rcv mind u' g1 g2 g3
    by (simp add: testmarshall_def put_int_def take_buf_def sent_mind okdone_def)
qed

text \<open>
  The marshalling self-test passes for every header, every integer, every 64-bit
  integer and every string that fits, whatever the unwritten header bytes hold: a request
  that is marshalled and sent is read back with its header and arguments unchanged, and
  nothing is left over.
\<close>

lemma testmarshall_passes:
  assumes "2 * (40 + length s) \<le> int_max"
  shows "testmarshall junk rh i l s = Inr ()"
  by (rule testmarshall_ok [OF assms])

lemma testmarshall_passes_witness:
  "testmarshall (\<lambda>_. 7) \<lparr>rq_xid = 1, rq_proc = 2, rq_clt_nonce = 3, rq_srv_nonce = 4, rq_xid_rep = 5\<rparr>
     12345 1223344455 [104, 97, 108, 108, 111, 46, 46, 46, 46] = Inr ()"
  by (rule testmarshall_passes) (simp add: int_max_def)

text \<open>
  appending a block never faults, writes exactly that block behind what was written
  before and keeps the capacity below twice what is used, as long as the total stays under
  half of the range of \<open>int\<close>.
\<close>

lemma rawbytes_appends:
  assumes "wf_marshall m" "2 * (mind m + length p) \<le> int_max"
  shows "\<exists>m'. rawbytes p m = Inr m' \<and> wf_marshall m' \<and> mind m' = mind m + length p \<and>
     written m' = written m @ map Some p \<and> mcapa m' \<le> max DEFAULT_RPC_SZ (2 * mind m')"
proof -
  from assms puts_rawbytes [of p] obtain m' where "rawbytes p m = Inr m'" "appended m p m'"
    unfolding puts_def fits_def by blast
  with appended_mind [OF assms(1)] show ?thesis
    by (auto simp: appended_def wf_marshall_def)
qed

lemma rawbytes_appends_witness:
  "\<exists>m'. rawbytes (replicate 2000 9) marshall_new = Inr m' \<and> wf_marshall m' \<and>
     mind m' = mind marshall_new + length (replicate 2000 (9 :: u8)) \<and>
     written m' = written marshall_new @ map Some (replicate 2000 9) \<and>
     mcapa m' \<le> max DEFAULT_RPC_SZ (2 * mind m')"
  by (rule rawbytes_appends [OF wf_marshall_new]) (simp add: marshall_new_def int_max_def)

lemma urawbyte_reader:
  "urawbyte u = (c, u') \<Longrightarrow> uind u \<le> usz u \<Longrightarrow>
     ubuf u' = ubuf u \<and> uind u \<le> uind u' \<and> uind u' \<le> usz u \<and> (uok u' \<longrightarrow> uok u)"
  by (auto simp: urawbyte_def split: if_splits)

lemma get_uint_reader:
  assumes "get_uint u = Inr (x, u')" "uind u \<le> usz u"
  shows "ubuf u' = ubuf u \<and> uind u \<le> uind u' \<and> uind u' \<le> usz u \<and> (uok u' \<longrightarrow> uok u)"
proof -
  obtain a u1 where 1: "urawbyte u = (a, u1)" by fastforce
  obtain b u2 where 2: "urawbyte u1 = (b, u2)" by fastforce
  obtain c u3 where 3: "urawbyte u2 = (c, u3)" by fastforce
  obtain d u4 where 4: "urawbyte u3 = (d, u4)" by fastforce
  from assms(1) 1 2 3 4 have "u' = u4" by (simp add: get_uint_def)
  with urawbyte_reader [OF 1 assms(2)] urawbyte_reader [OF 2] urawbyte_reader [OF 3]
    urawbyte_reader [OF 4]
  show ?thesis by auto
qed

text \<open>
  reading a string either copies bytes that lie inside the received buffer and moves
  past them, or leaves the string alone and clears \<open>_ok\<close> (which no read sets again); the
  buffer is never changed and the read position never passes its end.
\<close>

lemma get_string_reads_inside:
  assumes "uind u \<le> usz u" "get_string s u = Inr (s', u')"
  shows "ubuf u' = ubuf u \<and> uind u' \<le> usz u \<and> (uok u' \<longrightarrow> uok u) \<and>
     (if uok u' then \<exists>i. uind u \<le> i \<and> i + length s' = uind u' \<and> s' = take (length s') (drop i (ubuf u))
      else s' = s)"
proof -
  obtain n v where v: "get_uint u = Inr (n, v)"
    by (simp add: get_uint_def Let_def split_beta)
  note r = get_uint_reader [OF v assms(1)]
  show ?thesis
  proof (cases "uok v")
    case False
    with assms(2) v r show ?thesis by (auto simp: get_string_def)
  next
    case True
    with assms(2) v r show ?thesis
      by (auto simp: get_string_def urawbytes_def split: if_splits intro!: exI [of _ "uind v"])
  qed
qed

lemma get_string_reads_inside_witness:
  "ubuf (unmarshall_of [0, 0, 0, 2, 65, 66]) = [0, 0, 0, 2, 65, 66] \<and>
   (if uok (\<lparr>ubuf = [0, 0, 0, 2, 65, 66], uind = 6, uok = True\<rparr>) then
      \<exists>i. uind (unmarshall_of [0, 0, 0, 2, 65, 66]) \<le> i \<and> i + length [65 :: u8, 66] = 6 \<and>
        [65, 66] = take (length [65 :: u8, 66]) (drop i (ubuf (unmarshall_of [0, 0, 0, 2, 65, 66])))
    else [65 :: u8, 66] = [])"
proof -
  have g: "get_string [] (unmarshall_of [0, 0, 0, 2, 65, 66]) =
     Inr ([65, 66], \<lparr>ubuf = [0, 0, 0, 2, 65, 66], uind = 6, uok = True\<rparr>)"
    by code_simp
  show ?thesis
    using get_string_reads_inside [OF _ g] by (simp add: unmarshall_of_def)
qed

text \<open>
  The bound check of \<open>unmarshall::rawbytes\<close> wraps around. A string whose length field
  is \<open>2 ^ 32 - _ind\<close> passes the check whatever the size of the buffer, and the copy that
  follows reads outside of it.
\<close>

lemma get_string_length_wraps:
  assumes "uok u" "uind u + 4 \<le> usz u" "usz u \<le> int_max"
    and "take 4 (drop (uind u) (ubuf u)) = enc_u32 (- of_nat (uind u + 4))"
  shows "get_string s u = Inl Out_of_bounds"
proof -
  let ?n = "- of_nat (uind u + 4) :: u32"
  have "drop (uind u) (ubuf u) = enc_u32 ?n @ drop 4 (drop (uind u) (ubuf u))"
    using assms(4) by (metis append_take_drop_id)
  with assms(1,3) have g: "get_uint u = Inr (?n, u\<lparr>uind := uind u + 4\<rparr>)"
    using gets_hit [OF gets_u32] by fastforce
  have "unat ?n = 2 ^ 32 - (uind u + 4)"
    using assms(2,3) by (intro unat_neg_of_nat) (simp_all add: int_max_def)
  then have "usz u < uind u + 4 + unat ?n"
    using assms(2,3) by (simp add: int_max_def)
  with g assms(1) show ?thesis
    by (simp add: get_string_def urawbytes_def)
qed

lemma get_string_length_wraps_witness:
  "get_string [] (unmarshall_of [255, 255, 255, 252, 1]) = Inl Out_of_bounds"
  by (rule get_string_length_wraps)
    (simp_all add: unmarshall_of_def int_max_def enc_u32_def)

end
