(* ===== verification/Codec.thy ===== *)
theory Codec
  imports Marshall
begin

text \<open>
  The interface between a type's output and input operator, as a locale: what \<open>m << x\<close>
  appends, \<open>u >> x\<close> reads back. Every built-in type of \<open>rpc/marshall.h\<close> provides it, the
  templates for \<open>std::vector\<close> and \<open>std::map\<close> lift it from the element types, and the call
  and registration templates of \<open>rpc/rpc.h\<close> use it for the arguments and the result.
\<close>

section \<open>Vectors and maps\<close>

text \<open>
  A \<open>std::vector\<close> is a list. A \<open>std::map\<close> is the list of its entries in iteration
  order, which is the order \<open>lt\<close> of its keys.
\<close>

fun put_all :: "('a \<Rightarrow> marshall \<Rightarrow> marshall outcome) \<Rightarrow> 'a list \<Rightarrow> marshall \<Rightarrow> marshall outcome" where
  "put_all put [] m = Inr m"
| "put_all put (x # xs) m = andthen (put x m) (put_all put xs)"

definition put_vector ::
    "('a \<Rightarrow> marshall \<Rightarrow> marshall outcome) \<Rightarrow> 'a list \<Rightarrow> marshall \<Rightarrow> marshall outcome" where
  "put_vector put v m = andthen (put_uint (of_nat (length v)) m) (put_all put v)"

fun get_n ::
    "(unmarshall \<Rightarrow> ('a \<times> unmarshall) outcome) \<Rightarrow> nat \<Rightarrow> 'a list \<Rightarrow> unmarshall \<Rightarrow>
       ('a list \<times> unmarshall) outcome" where
  "get_n get 0 v u = Inr (v, u)"
| "get_n get (Suc n) v u = andthen (get u) (\<lambda>(z, u). get_n get n (v @ [z]) u)"

definition get_vector ::
    "(unmarshall \<Rightarrow> ('a \<times> unmarshall) outcome) \<Rightarrow> 'a list \<Rightarrow> unmarshall \<Rightarrow>
       ('a list \<times> unmarshall) outcome" where
  "get_vector get v u = andthen (get_uint u) (\<lambda>(n, u). get_n get (unat n) v u)"

definition put_entry ::
    "('k \<Rightarrow> marshall \<Rightarrow> marshall outcome) \<Rightarrow> ('v \<Rightarrow> marshall \<Rightarrow> marshall outcome) \<Rightarrow>
       'k \<times> 'v \<Rightarrow> marshall \<Rightarrow> marshall outcome" where
  "put_entry putk putv e m = andthen (putk (fst e) m) (putv (snd e))"

definition put_map ::
    "('k \<Rightarrow> marshall \<Rightarrow> marshall outcome) \<Rightarrow> ('v \<Rightarrow> marshall \<Rightarrow> marshall outcome) \<Rightarrow>
       ('k \<times> 'v) list \<Rightarrow> marshall \<Rightarrow> marshall outcome" where
  "put_map putk putv d m =
     andthen (put_uint (of_nat (length d)) m) (put_all (put_entry putk putv) d)"

text \<open>\<open>d[a] = b\<close> on a \<open>std::map\<close>.\<close>

fun map_assign :: "('k \<Rightarrow> 'k \<Rightarrow> bool) \<Rightarrow> 'k \<Rightarrow> 'v \<Rightarrow> ('k \<times> 'v) list \<Rightarrow> ('k \<times> 'v) list" where
  "map_assign lt a b [] = [(a, b)]"
| "map_assign lt a b ((k, v) # d) =
     (if lt a k then (a, b) # (k, v) # d
      else if lt k a then (k, v) # map_assign lt a b d
      else (k, b) # d)"

definition get_entry ::
    "(unmarshall \<Rightarrow> ('k \<times> unmarshall) outcome) \<Rightarrow> (unmarshall \<Rightarrow> ('v \<times> unmarshall) outcome) \<Rightarrow>
       unmarshall \<Rightarrow> (('k \<times> 'v) \<times> unmarshall) outcome" where
  "get_entry getk getv u =
     andthen (getk u) (\<lambda>(a, u). andthen (getv u) (\<lambda>(b, u). Inr ((a, b), u)))"

fun get_map_n ::
    "('k \<Rightarrow> 'k \<Rightarrow> bool) \<Rightarrow> (unmarshall \<Rightarrow> ('k \<times> unmarshall) outcome) \<Rightarrow>
       (unmarshall \<Rightarrow> ('v \<times> unmarshall) outcome) \<Rightarrow> nat \<Rightarrow> ('k \<times> 'v) list \<Rightarrow> unmarshall \<Rightarrow>
       (('k \<times> 'v) list \<times> unmarshall) outcome" where
  "get_map_n lt getk getv 0 d u = Inr (d, u)"
| "get_map_n lt getk getv (Suc n) d u =
     andthen (get_entry getk getv u) (\<lambda>(e, u).
       get_map_n lt getk getv n (map_assign lt (fst e) (snd e) d) u)"

definition get_map ::
    "('k \<Rightarrow> 'k \<Rightarrow> bool) \<Rightarrow> (unmarshall \<Rightarrow> ('k \<times> unmarshall) outcome) \<Rightarrow>
       (unmarshall \<Rightarrow> ('v \<times> unmarshall) outcome) \<Rightarrow> ('k \<times> 'v) list \<Rightarrow> unmarshall \<Rightarrow>
       (('k \<times> 'v) list \<times> unmarshall) outcome" where
  "get_map lt getk getv d u =
     andthen (get_uint u) (\<lambda>(n, u). get_map_n lt getk getv (unat n) [] u)"

definition enc_list :: "('a \<Rightarrow> u8 list) \<Rightarrow> 'a list \<Rightarrow> u8 list" where
  "enc_list enc xs = enc_u32 (of_nat (length xs)) @ concat (map enc xs)"

definition enc_entry :: "('k \<Rightarrow> u8 list) \<Rightarrow> ('v \<Rightarrow> u8 list) \<Rightarrow> 'k \<times> 'v \<Rightarrow> u8 list" where
  "enc_entry enck encv e = enck (fst e) @ encv (snd e)"

section \<open>The codec interface\<close>

locale codec =
  fixes put :: "'a \<Rightarrow> marshall \<Rightarrow> marshall outcome"
    and get :: "unmarshall \<Rightarrow> ('a \<times> unmarshall) outcome"
    and enc :: "'a \<Rightarrow> u8 list"
    and valid :: "'a \<Rightarrow> bool"
  assumes put_enc: "valid x \<Longrightarrow> puts (put x) (enc x)"
    and get_enc: "valid x \<Longrightarrow> gets get (enc x) x"
begin

lemma put_all_enc: "list_all valid xs \<Longrightarrow> puts (put_all put xs) (concat (map enc xs))"
proof (induction xs)
  case Nil
  have "put_all put [] = Inr" by (rule ext) simp
  then show ?case by simp
next
  case (Cons x xs)
  then have "puts (\<lambda>m. andthen (put x m) (put_all put xs)) (enc x @ concat (map enc xs))"
    by (intro puts_andthen put_enc) simp_all
  moreover have "put_all put (x # xs) = (\<lambda>m. andthen (put x m) (put_all put xs))"
    by (rule ext) simp
  ultimately show ?case by simp
qed

lemma get_n_enc:
  "list_all valid xs \<Longrightarrow> gets (get_n get (length xs) v) (concat (map enc xs)) (v @ xs)"
proof (induction xs arbitrary: v)
  case Nil
  have "get_n get 0 v = (\<lambda>u. Inr (v, u))" by (rule ext) simp
  then show ?case by simp
next
  case (Cons x xs)
  then have "gets (get_n get (length xs) (v @ [x])) (concat (map enc xs)) (v @ x # xs)"
    using Cons.IH [of "v @ [x]"] by simp
  moreover have "gets get (enc x) x" using Cons.prems by (simp add: get_enc)
  ultimately have "gets (\<lambda>u. andthen (get u) (\<lambda>(z, u). get_n get (length xs) (v @ [z]) u))
      (enc x @ concat (map enc xs)) (v @ x # xs)"
    by (intro gets_andthen)
  moreover have "get_n get (length (x # xs)) v =
      (\<lambda>u. andthen (get u) (\<lambda>(z, u). get_n get (length xs) (v @ [z]) u))"
    by (rule ext) simp
  ultimately show ?case by simp
qed

lemma vector_codec:
  "codec (put_vector put) (get_vector get []) (enc_list enc)
     (\<lambda>xs. list_all valid xs \<and> length xs < 2 ^ 32)"
proof
  fix xs assume v: "list_all valid xs \<and> length xs < 2 ^ 32"
  show "puts (put_vector put xs) (enc_list enc xs)"
    unfolding put_vector_def [abs_def] enc_list_def
    using v by (intro puts_andthen puts_u32 put_all_enc) simp
  have "unat (of_nat (length xs) :: u32) = length xs"
    using v by (simp add: unat_of_nat take_bit_nat_eq_self)
  with v show "gets (get_vector get []) (enc_list enc xs) xs"
    unfolding get_vector_def [abs_def] enc_list_def
    using get_n_enc [of xs "[]"] by (intro gets_andthen [OF gets_u32]) simp
qed

text \<open>The element alone as the whole body of a message, and of a reply that is sent.\<close>

lemma get_body:
  "valid x \<Longrightarrow> at_body u (enc x) \<Longrightarrow> RPC_HEADER_SZ + length (enc x) \<le> int_max \<Longrightarrow>
     \<exists>u'. get u = Inr (x, u') \<and> okdone u'"
  by (rule at_body_gets [OF _ get_enc])

lemma reply_roundtrip:
  assumes "valid x" "2 * (RPC_HEADER_SZ + length (enc x)) \<le> int_max"
  shows "\<exists>m m' u v. put x marshall_new = Inr m \<and> pack_reply_header h m = Inr m' \<and>
     unpack_reply_header (received junk m') = (h, u) \<and> get u = Inr (x, v) \<and> okdone v"
proof -
  from puts_body [OF put_enc [OF assms(1)] body_new] assms(2) obtain m
    where m: "put x marshall_new = Inr m" "body m (enc x)" by auto
  from pack_reply_header_sent [OF m(2)] obtain m'
    where m': "pack_reply_header h m = Inr m'" "sent m' (enc_reply_header h) (enc x)" by blast
  from receive_reply [OF m'(2)] obtain u
    where u: "unpack_reply_header (received junk m') = (h, u)" "at_body u (enc x)" by blast
  from get_body [OF assms(1) u(2)] assms(2) obtain v where "get u = Inr (x, v)" "okdone v"
    by auto
  with m(1) m'(1) u(1) show ?thesis by blast
qed

end

locale map_codec = key: codec putk getk enck validk + val: codec putv getv encv validv
  for putk :: "'k \<Rightarrow> marshall \<Rightarrow> marshall outcome" and getk enck validk
    and putv :: "'v \<Rightarrow> marshall \<Rightarrow> marshall outcome" and getv encv validv +
  fixes lt :: "'k \<Rightarrow> 'k \<Rightarrow> bool"
  assumes lt_asym: "lt a b \<Longrightarrow> \<not> lt b a"
begin

sublocale entry: codec "put_entry putk putv" "get_entry getk getv" "enc_entry enck encv"
  "\<lambda>e. validk (fst e) \<and> validv (snd e)"
proof
  fix e assume v: "validk (fst e) \<and> validv (snd e)"
  show "puts (put_entry putk putv e) (enc_entry enck encv e)"
    unfolding put_entry_def [abs_def] enc_entry_def
    using v by (intro puts_andthen key.put_enc val.put_enc) simp_all
  have "gets (get_entry getk getv) (enck (fst e) @ encv (snd e) @ []) (fst e, snd e)"
    unfolding get_entry_def [abs_def]
    by (rule gets_andthen [OF key.get_enc gets_andthen [OF val.get_enc gets_return]])
      (use v in simp_all)
  then show "gets (get_entry getk getv) (enc_entry enck encv e) e"
    by (simp add: enc_entry_def)
qed

lemma map_assign_last:
  "sorted_wrt (\<lambda>p q. lt (fst p) (fst q)) (d @ [e]) \<Longrightarrow> map_assign lt (fst e) (snd e) d = d @ [e]"
  by (induction d) (auto simp: lt_asym)

lemma get_map_n_enc:
  "list_all (\<lambda>e. validk (fst e) \<and> validv (snd e)) es \<Longrightarrow>
   sorted_wrt (\<lambda>p q. lt (fst p) (fst q)) (d @ es) \<Longrightarrow>
     gets (get_map_n lt getk getv (length es) d) (concat (map (enc_entry enck encv) es)) (d @ es)"
proof (induction es arbitrary: d)
  case Nil
  have "get_map_n lt getk getv 0 d = (\<lambda>u. Inr (d, u))" by (rule ext) simp
  then show ?case by simp
next
  case (Cons e es)
  then have "map_assign lt (fst e) (snd e) d = d @ [e]"
    by (intro map_assign_last) (simp add: sorted_wrt_append)
  with Cons have "gets (get_map_n lt getk getv (length es) (map_assign lt (fst e) (snd e) d))
      (concat (map (enc_entry enck encv) es)) (d @ e # es)"
    using Cons.IH [of "d @ [e]"] by simp
  moreover have "gets (get_entry getk getv) (enc_entry enck encv e) e"
    using Cons.prems by (simp add: entry.get_enc)
  ultimately have "gets (\<lambda>u. andthen (get_entry getk getv u)
      (\<lambda>(e, u). get_map_n lt getk getv (length es) (map_assign lt (fst e) (snd e) d) u))
      (enc_entry enck encv e @ concat (map (enc_entry enck encv) es)) (d @ e # es)"
    by (intro gets_andthen)
  moreover have "get_map_n lt getk getv (length (e # es)) d =
      (\<lambda>u. andthen (get_entry getk getv u)
        (\<lambda>(e, u). get_map_n lt getk getv (length es) (map_assign lt (fst e) (snd e) d) u))"
    by (rule ext) simp
  ultimately show ?case by simp
qed

lemma map_is_codec:
  "codec (put_map putk putv) (get_map lt getk getv d0) (enc_list (enc_entry enck encv))
     (\<lambda>d. list_all (\<lambda>e. validk (fst e) \<and> validv (snd e)) d \<and>
        sorted_wrt (\<lambda>p q. lt (fst p) (fst q)) d \<and> length d < 2 ^ 32)"
proof
  fix d assume v: "list_all (\<lambda>e. validk (fst e) \<and> validv (snd e)) d \<and>
      sorted_wrt (\<lambda>p q. lt (fst p) (fst q)) d \<and> length d < 2 ^ 32"
  show "puts (put_map putk putv d) (enc_list (enc_entry enck encv) d)"
    unfolding put_map_def [abs_def] enc_list_def
    using v by (intro puts_andthen puts_u32 entry.put_all_enc) simp
  have "unat (of_nat (length d) :: u32) = length d"
    using v by (simp add: unat_of_nat take_bit_nat_eq_self)
  with v show "gets (get_map lt getk getv d0) (enc_list (enc_entry enck encv) d) d"
    unfolding get_map_def [abs_def] enc_list_def
    using get_map_n_enc [of d "[]"] by (intro gets_andthen [OF gets_u32]) simp
qed

end

section \<open>The types of the library\<close>

interpretation bool_codec: codec put_bool get_bool "\<lambda>b. [if b then 1 else 0]" "\<lambda>_. True"
  by unfold_locales (auto simp: put_bool_def [abs_def] gets_byte)

interpretation uchar_codec: codec put_uchar get_uchar "\<lambda>x. [x]" "\<lambda>_. True"
  by unfold_locales (auto simp: put_uchar_def [abs_def] gets_byte)

interpretation char_codec: codec put_char get_char "\<lambda>x. [x]" "\<lambda>_. True"
  by unfold_locales (auto simp: put_char_def [abs_def] put_uchar_def gets_byte)

interpretation ushort_codec: codec put_ushort get_ushort enc_u16 "\<lambda>_. True"
  by unfold_locales (auto simp: puts_u16 gets_u16)

interpretation short_codec: codec put_short get_short enc_u16 "\<lambda>_. True"
  by unfold_locales (auto simp: put_short_def [abs_def] puts_u16 gets_u16 get_short_eq)

interpretation uint_codec: codec put_uint get_uint enc_u32 "\<lambda>_. True"
  by unfold_locales (auto simp: puts_u32 gets_u32)

interpretation int_codec: codec put_int get_int enc_u32 "\<lambda>_. True"
  by unfold_locales (auto simp: put_int_def [abs_def] puts_u32 gets_int)

interpretation ull_codec: codec put_ull get_ull enc_u64 "\<lambda>_. True"
  by unfold_locales (auto simp: puts_u64 gets_u64)

interpretation string_codec: codec put_string "get_string []" enc_string "\<lambda>s. length s \<le> int_max"
  by unfold_locales (auto simp: puts_string gets_string)

text \<open>A vector of strings, and a map from strings (in the order of \<open>std::string\<close>) to integers.\<close>

fun string_less :: "u8 list \<Rightarrow> u8 list \<Rightarrow> bool" where
  "string_less xs [] \<longleftrightarrow> False"
| "string_less [] (y # ys) \<longleftrightarrow> True"
| "string_less (x # xs) (y # ys) \<longleftrightarrow> x < y \<or> (x = y \<and> string_less xs ys)"

lemma string_less_asym: "string_less xs ys \<Longrightarrow> \<not> string_less ys xs"
  by (induction xs ys rule: string_less.induct) auto

interpretation string_vector: codec "put_vector put_string" "get_vector (get_string []) []"
  "enc_list enc_string" "\<lambda>xs. list_all (\<lambda>s. length s \<le> int_max) xs \<and> length xs < 2 ^ 32"
  by (rule string_codec.vector_codec)

interpretation string_int_map: map_codec put_string "get_string []" enc_string
  "\<lambda>s. length s \<le> int_max" put_int get_int enc_u32 "\<lambda>_. True" string_less
  by unfold_locales (rule string_less_asym)


text \<open>
  a vector of strings that is marshalled into a reply and sent is read back by the
  receiver as the same vector, with nothing left over.
\<close>

lemma string_vector_reply:
  assumes "list_all (\<lambda>s. length s \<le> int_max) xs" "length xs < 2 ^ 32"
    and "2 * (RPC_HEADER_SZ + length (enc_list enc_string xs)) \<le> int_max"
  shows "\<exists>m m' u v. put_vector put_string xs marshall_new = Inr m \<and>
     pack_reply_header h m = Inr m' \<and> unpack_reply_header (received junk m') = (h, u) \<and>
     get_vector (get_string []) [] u = Inr (xs, v) \<and> okdone v"
  using assms by (intro string_vector.reply_roundtrip) simp_all

lemma string_vector_reply_witness:
  "\<exists>m m' u v. put_vector put_string [[104, 105], []] marshall_new = Inr m \<and>
     pack_reply_header \<lparr>rp_xid = 1, rp_ret = 0\<rparr> m = Inr m' \<and>
     unpack_reply_header (received (\<lambda>_. 5) m') = (\<lparr>rp_xid = 1, rp_ret = 0\<rparr>, u) \<and>
     get_vector (get_string []) [] u = Inr ([[104, 105], []], v) \<and> okdone v"
  by (rule string_vector_reply) (simp_all add: int_max_def enc_list_def)

text \<open>
  a map whose entries are in key order is read back as the same map: the entries are
  inserted again in the order they were written, and none is lost or overwritten.
\<close>

lemma string_int_map_reply:
  assumes "list_all (\<lambda>e. length (fst e) \<le> int_max) d"
    and "sorted_wrt (\<lambda>p q. string_less (fst p) (fst q)) d" "length d < 2 ^ 32"
    and "2 * (RPC_HEADER_SZ + length (enc_list (enc_entry enc_string enc_u32) d)) \<le> int_max"
  shows "\<exists>m m' u v. put_map put_string put_int d marshall_new = Inr m \<and>
     pack_reply_header h m = Inr m' \<and> unpack_reply_header (received junk m') = (h, u) \<and>
     get_map string_less (get_string []) get_int d0 u = Inr (d, v) \<and> okdone v"
  using assms by (intro codec.reply_roundtrip [OF string_int_map.map_is_codec]) simp_all

lemma string_int_map_reply_witness:
  "\<exists>m m' u v. put_map put_string put_int [([97], 1), ([97, 98], 2)] marshall_new = Inr m \<and>
     pack_reply_header \<lparr>rp_xid = 1, rp_ret = 0\<rparr> m = Inr m' \<and>
     unpack_reply_header (received (\<lambda>_. 5) m') = (\<lparr>rp_xid = 1, rp_ret = 0\<rparr>, u) \<and>
     get_map string_less (get_string []) get_int [([99], 3)] u =
       Inr ([([97], 1), ([97, 98], 2)], v) \<and> okdone v"
  by (rule string_int_map_reply) (simp_all add: int_max_def enc_list_def enc_entry_def)

end
