(* ===== verification/Stubs.thy ===== *)
theory Stubs
  imports Codec
begin

text \<open>
  The templates of \<open>rpc/rpc.h\<close> that turn a typed call into a message and back: the client
  side \<open>rpcc::call\<close> for up to seven arguments and \<open>rpcc::call_m\<close>, the server side
  handler classes that \<open>rpcs::reg\<close> builds, and the handlers that \<open>rpc/rpctest.cc\<close> registers.
  A registered method takes its arguments and the state of the object it is a member of,
  and returns the new state, its \<open>int\<close> and its result \<open>r\<close>.
\<close>

section \<open>Error codes\<close>

definition timeout_failure :: i32 where "timeout_failure = - 1"

definition unmarshal_args_failure :: i32 where "unmarshal_args_failure = - 2"

definition unmarshal_reply_failure :: i32 where "unmarshal_reply_failure = - 3"

definition atmostonce_failure :: i32 where "atmostonce_failure = - 4"

definition oldsrv_failure :: i32 where "oldsrv_failure = - 5"

definition bind_failure :: i32 where "bind_failure = - 6"

definition cancel_failure :: i32 where "cancel_failure = - 7"

definition rpc_bind :: u32 where "rpc_bind = 1"

lemmas rpc_const_defs = timeout_failure_def unmarshal_args_failure_def unmarshal_reply_failure_def
  atmostonce_failure_def oldsrv_failure_def bind_failure_def cancel_failure_def rpc_bind_def

section \<open>Requests\<close>

type_synonym 'a putter = "'a \<Rightarrow> marshall \<Rightarrow> marshall outcome"
type_synonym 'a getter = "unmarshall \<Rightarrow> ('a \<times> unmarshall) outcome"

text \<open>
  The argument part of \<open>rpcc::call\<close>: a fresh \<open>marshall\<close> and one \<open>m << a\<close> per argument. The
  operators \<open>p1, p2, \<dots>\<close> are the ones overload resolution picks for the argument types.
\<close>

definition call_req0 :: "marshall outcome" where
  "call_req0 = Inr marshall_new"

definition call_req1 ::
    "'a putter \<Rightarrow> 'a \<Rightarrow> marshall outcome" where
  "call_req1 p1 a1 =
     p1 a1 marshall_new"

definition call_req2 ::
    "'a putter \<Rightarrow> 'b putter \<Rightarrow> 'a \<Rightarrow> 'b \<Rightarrow> marshall outcome" where
  "call_req2 p1 p2 a1 a2 =
     andthen (p1 a1 marshall_new) (p2 a2)"

definition call_req3 ::
    "'a putter \<Rightarrow> 'b putter \<Rightarrow> 'c putter \<Rightarrow> 'a \<Rightarrow> 'b \<Rightarrow> 'c \<Rightarrow> marshall outcome" where
  "call_req3 p1 p2 p3 a1 a2 a3 =
     andthen (andthen (p1 a1 marshall_new) (p2 a2)) (p3 a3)"

definition call_req4 ::
    "'a putter \<Rightarrow> 'b putter \<Rightarrow> 'c putter \<Rightarrow> 'd putter \<Rightarrow> 'a \<Rightarrow> 'b \<Rightarrow> 'c \<Rightarrow> 'd \<Rightarrow> marshall outcome" where
  "call_req4 p1 p2 p3 p4 a1 a2 a3 a4 =
     andthen (andthen (andthen (p1 a1 marshall_new) (p2 a2)) (p3 a3)) (p4 a4)"

definition call_req5 ::
    "'a putter \<Rightarrow> 'b putter \<Rightarrow> 'c putter \<Rightarrow> 'd putter \<Rightarrow> 'e putter \<Rightarrow> 'a \<Rightarrow> 'b \<Rightarrow> 'c \<Rightarrow> 'd \<Rightarrow> 'e \<Rightarrow> marshall outcome" where
  "call_req5 p1 p2 p3 p4 p5 a1 a2 a3 a4 a5 =
     andthen (andthen (andthen (andthen (p1 a1 marshall_new) (p2 a2)) (p3 a3)) (p4 a4)) (p5 a5)"

definition call_req6 ::
    "'a putter \<Rightarrow> 'b putter \<Rightarrow> 'c putter \<Rightarrow> 'd putter \<Rightarrow> 'e putter \<Rightarrow> 'f putter \<Rightarrow> 'a \<Rightarrow> 'b \<Rightarrow> 'c \<Rightarrow> 'd \<Rightarrow> 'e \<Rightarrow> 'f \<Rightarrow> marshall outcome" where
  "call_req6 p1 p2 p3 p4 p5 p6 a1 a2 a3 a4 a5 a6 =
     andthen (andthen (andthen (andthen (andthen (p1 a1 marshall_new) (p2 a2)) (p3 a3)) (p4 a4)) (p5 a5)) (p6 a6)"

definition call_req7 ::
    "'a putter \<Rightarrow> 'b putter \<Rightarrow> 'c putter \<Rightarrow> 'd putter \<Rightarrow> 'e putter \<Rightarrow> 'f putter \<Rightarrow> 'g putter \<Rightarrow> 'a \<Rightarrow> 'b \<Rightarrow> 'c \<Rightarrow> 'd \<Rightarrow> 'e \<Rightarrow> 'f \<Rightarrow> 'g \<Rightarrow> marshall outcome" where
  "call_req7 p1 p2 p3 p4 p5 p6 p7 a1 a2 a3 a4 a5 a6 a7 =
     andthen (andthen (andthen (andthen (andthen (andthen (p1 a1 marshall_new) (p2 a2)) (p3 a3)) (p4 a4)) (p5 a5)) (p6 a6)) (p7 a7)"

section \<open>Handlers\<close>

text \<open>
  What \<open>handler::fn\<close> of every \<open>h1\<close> class does after its \<open>args >> a1; \<dots>\<close>: check that the
  arguments were there and that nothing is left, call the method, marshall the result.
\<close>

type_synonym ('s, 'r) meth_result = "('s \<times> i32 \<times> 'r) outcome"
type_synonym 's fn_result = "('s \<times> i32 \<times> marshall) outcome"

definition h1_run ::
    "'a getter \<Rightarrow> 'r putter \<Rightarrow> ('a \<Rightarrow> 's \<Rightarrow> ('s, 'r) meth_result) \<Rightarrow> 's \<Rightarrow> unmarshall \<Rightarrow> marshall \<Rightarrow>
       's fn_result" where
  "h1_run g pr meth s args ret =
     andthen (g args) (\<lambda>(a, args).
     if \<not> okdone args then Inr (s, unmarshal_args_failure, ret)
     else andthen (meth a s) (\<lambda>(s, b, r).
          andthen (pr r ret) (\<lambda>ret. Inr (s, b, ret))))"

definition args2 ::
    "'a getter \<Rightarrow> 'b getter \<Rightarrow> ('a \<times> 'b) getter" where
  "args2 g1 g2 u =
     andthen (g1 u) (\<lambda>(a1, u).
     andthen (g2 u) (\<lambda>(a2, u).
     Inr ((a1, a2), u)))"

definition args3 ::
    "'a getter \<Rightarrow> 'b getter \<Rightarrow> 'c getter \<Rightarrow> ('a \<times> 'b \<times> 'c) getter" where
  "args3 g1 g2 g3 u =
     andthen (g1 u) (\<lambda>(a1, u).
     andthen (g2 u) (\<lambda>(a2, u).
     andthen (g3 u) (\<lambda>(a3, u).
     Inr ((a1, a2, a3), u))))"

definition args4 ::
    "'a getter \<Rightarrow> 'b getter \<Rightarrow> 'c getter \<Rightarrow> 'd getter \<Rightarrow> ('a \<times> 'b \<times> 'c \<times> 'd) getter" where
  "args4 g1 g2 g3 g4 u =
     andthen (g1 u) (\<lambda>(a1, u).
     andthen (g2 u) (\<lambda>(a2, u).
     andthen (g3 u) (\<lambda>(a3, u).
     andthen (g4 u) (\<lambda>(a4, u).
     Inr ((a1, a2, a3, a4), u)))))"

definition args5 ::
    "'a getter \<Rightarrow> 'b getter \<Rightarrow> 'c getter \<Rightarrow> 'd getter \<Rightarrow> 'e getter \<Rightarrow> ('a \<times> 'b \<times> 'c \<times> 'd \<times> 'e) getter" where
  "args5 g1 g2 g3 g4 g5 u =
     andthen (g1 u) (\<lambda>(a1, u).
     andthen (g2 u) (\<lambda>(a2, u).
     andthen (g3 u) (\<lambda>(a3, u).
     andthen (g4 u) (\<lambda>(a4, u).
     andthen (g5 u) (\<lambda>(a5, u).
     Inr ((a1, a2, a3, a4, a5), u))))))"

definition args6 ::
    "'a getter \<Rightarrow> 'b getter \<Rightarrow> 'c getter \<Rightarrow> 'd getter \<Rightarrow> 'e getter \<Rightarrow> 'f getter \<Rightarrow> ('a \<times> 'b \<times> 'c \<times> 'd \<times> 'e \<times> 'f) getter" where
  "args6 g1 g2 g3 g4 g5 g6 u =
     andthen (g1 u) (\<lambda>(a1, u).
     andthen (g2 u) (\<lambda>(a2, u).
     andthen (g3 u) (\<lambda>(a3, u).
     andthen (g4 u) (\<lambda>(a4, u).
     andthen (g5 u) (\<lambda>(a5, u).
     andthen (g6 u) (\<lambda>(a6, u).
     Inr ((a1, a2, a3, a4, a5, a6), u)))))))"

definition args7 ::
    "'a getter \<Rightarrow> 'b getter \<Rightarrow> 'c getter \<Rightarrow> 'd getter \<Rightarrow> 'e getter \<Rightarrow> 'f getter \<Rightarrow> 'g getter \<Rightarrow> ('a \<times> 'b \<times> 'c \<times> 'd \<times> 'e \<times> 'f \<times> 'g) getter" where
  "args7 g1 g2 g3 g4 g5 g6 g7 u =
     andthen (g1 u) (\<lambda>(a1, u).
     andthen (g2 u) (\<lambda>(a2, u).
     andthen (g3 u) (\<lambda>(a3, u).
     andthen (g4 u) (\<lambda>(a4, u).
     andthen (g5 u) (\<lambda>(a5, u).
     andthen (g6 u) (\<lambda>(a6, u).
     andthen (g7 u) (\<lambda>(a7, u).
     Inr ((a1, a2, a3, a4, a5, a6, a7), u))))))))"

definition h1_fn1 ::
    "'a getter \<Rightarrow> 'r putter \<Rightarrow> ('a \<Rightarrow> 's \<Rightarrow> ('s, 'r) meth_result) \<Rightarrow> 's \<Rightarrow> unmarshall \<Rightarrow> marshall \<Rightarrow>
       's fn_result" where
  "h1_fn1 g1 pr meth = h1_run g1 pr meth"

definition h1_fn2 ::
    "'a getter \<Rightarrow> 'b getter \<Rightarrow> 'r putter \<Rightarrow> ('a \<Rightarrow> 'b \<Rightarrow> 's \<Rightarrow> ('s, 'r) meth_result) \<Rightarrow> 's \<Rightarrow> unmarshall \<Rightarrow> marshall \<Rightarrow> 's fn_result" where
  "h1_fn2 g1 g2 pr meth = h1_run (args2 g1 g2) pr (\<lambda>(a1, a2). meth a1 a2)"

definition h1_fn3 ::
    "'a getter \<Rightarrow> 'b getter \<Rightarrow> 'c getter \<Rightarrow> 'r putter \<Rightarrow> ('a \<Rightarrow> 'b \<Rightarrow> 'c \<Rightarrow> 's \<Rightarrow> ('s, 'r) meth_result) \<Rightarrow> 's \<Rightarrow> unmarshall \<Rightarrow> marshall \<Rightarrow> 's fn_result" where
  "h1_fn3 g1 g2 g3 pr meth = h1_run (args3 g1 g2 g3) pr (\<lambda>(a1, a2, a3). meth a1 a2 a3)"

definition h1_fn4 ::
    "'a getter \<Rightarrow> 'b getter \<Rightarrow> 'c getter \<Rightarrow> 'd getter \<Rightarrow> 'r putter \<Rightarrow> ('a \<Rightarrow> 'b \<Rightarrow> 'c \<Rightarrow> 'd \<Rightarrow> 's \<Rightarrow> ('s, 'r) meth_result) \<Rightarrow> 's \<Rightarrow> unmarshall \<Rightarrow> marshall \<Rightarrow> 's fn_result" where
  "h1_fn4 g1 g2 g3 g4 pr meth = h1_run (args4 g1 g2 g3 g4) pr (\<lambda>(a1, a2, a3, a4). meth a1 a2 a3 a4)"

definition h1_fn5 ::
    "'a getter \<Rightarrow> 'b getter \<Rightarrow> 'c getter \<Rightarrow> 'd getter \<Rightarrow> 'e getter \<Rightarrow> 'r putter \<Rightarrow> ('a \<Rightarrow> 'b \<Rightarrow> 'c \<Rightarrow> 'd \<Rightarrow> 'e \<Rightarrow> 's \<Rightarrow> ('s, 'r) meth_result) \<Rightarrow> 's \<Rightarrow> unmarshall \<Rightarrow> marshall \<Rightarrow> 's fn_result" where
  "h1_fn5 g1 g2 g3 g4 g5 pr meth = h1_run (args5 g1 g2 g3 g4 g5) pr (\<lambda>(a1, a2, a3, a4, a5). meth a1 a2 a3 a4 a5)"

definition h1_fn6 ::
    "'a getter \<Rightarrow> 'b getter \<Rightarrow> 'c getter \<Rightarrow> 'd getter \<Rightarrow> 'e getter \<Rightarrow> 'f getter \<Rightarrow> 'r putter \<Rightarrow> ('a \<Rightarrow> 'b \<Rightarrow> 'c \<Rightarrow> 'd \<Rightarrow> 'e \<Rightarrow> 'f \<Rightarrow> 's \<Rightarrow> ('s, 'r) meth_result) \<Rightarrow> 's \<Rightarrow> unmarshall \<Rightarrow> marshall \<Rightarrow> 's fn_result" where
  "h1_fn6 g1 g2 g3 g4 g5 g6 pr meth = h1_run (args6 g1 g2 g3 g4 g5 g6) pr (\<lambda>(a1, a2, a3, a4, a5, a6). meth a1 a2 a3 a4 a5 a6)"

definition h1_fn7 ::
    "'a getter \<Rightarrow> 'b getter \<Rightarrow> 'c getter \<Rightarrow> 'd getter \<Rightarrow> 'e getter \<Rightarrow> 'f getter \<Rightarrow> 'g getter \<Rightarrow> 'r putter \<Rightarrow> ('a \<Rightarrow> 'b \<Rightarrow> 'c \<Rightarrow> 'd \<Rightarrow> 'e \<Rightarrow> 'f \<Rightarrow> 'g \<Rightarrow> 's \<Rightarrow> ('s, 'r) meth_result) \<Rightarrow> 's \<Rightarrow> unmarshall \<Rightarrow> marshall \<Rightarrow> 's fn_result" where
  "h1_fn7 g1 g2 g3 g4 g5 g6 g7 pr meth = h1_run (args7 g1 g2 g3 g4 g5 g6 g7) pr (\<lambda>(a1, a2, a3, a4, a5, a6, a7). meth a1 a2 a3 a4 a5 a6 a7)"

section \<open>Replies\<close>

text \<open>The end of \<open>rpcc::call_m\<close>: what the caller gets for \<open>call1\<close>'s result and reply.\<close>

definition call_m :: "'r getter \<Rightarrow> i32 \<Rightarrow> unmarshall \<Rightarrow> 'r \<Rightarrow> (i32 \<times> 'r) outcome" where
  "call_m g intret u r0 =
     (if intret <s 0 then Inr (intret, r0)
      else andthen (g u) (\<lambda>(r, u).
        if okdone u \<noteq> True then Inr (unmarshal_reply_failure, r) else Inr (intret, r)))"

section \<open>The handlers of rpctest\<close>

text \<open>
  The signed additions are undefined when they leave the range of \<open>int\<close>, and
  \<open>std::string(len, 'x')\<close> throws for a negative length. The random delay of
  \<open>handle_slow\<close> is left out.
\<close>

definition handle_22 :: "u8 list \<Rightarrow> u8 list \<Rightarrow> 's \<Rightarrow> ('s, u8 list) meth_result" where
  "handle_22 a b s = Inr (s, 0, a @ b)"

definition handle_fast :: "i32 \<Rightarrow> 's \<Rightarrow> ('s, i32) meth_result" where
  "handle_fast a s =
     (if int int_max < sint a + 1 then Inl Int_overflow else Inr (s, 0, a + 1))"

definition handle_slow :: "i32 \<Rightarrow> 's \<Rightarrow> ('s, i32) meth_result" where
  "handle_slow a s =
     (if int int_max < sint a + 2 then Inl Int_overflow else Inr (s, 0, a + 2))"

definition handle_bigrep :: "i32 \<Rightarrow> 's \<Rightarrow> ('s, u8 list) meth_result" where
  "handle_bigrep len s =
     (if len <s 0 then Inl Uncaught_exception else Inr (s, 0, replicate (unat len) 120))"

section \<open>From a call to its handler and back\<close>

lemma puts_new:
  assumes "puts f bs" "2 * (RPC_HEADER_SZ + length bs) \<le> int_max"
  shows "\<exists>m. f marshall_new = Inr m \<and> body m bs"
  using puts_body [OF assms(1) body_new] assms(2) by simp

lemma request_delivered:
  assumes "puts f bs" "2 * (RPC_HEADER_SZ + length bs) \<le> int_max"
  shows "\<exists>m m' u. f marshall_new = Inr m \<and> pack_req_header h m = Inr m' \<and>
     unpack_req_header (received junk m') = (h, u) \<and> at_body u bs"
proof -
  from puts_new [OF assms] obtain m where m: "f marshall_new = Inr m" "body m bs" by blast
  from pack_req_header_sent [OF m(2)] obtain m'
    where m': "pack_req_header h m = Inr m'" "sent m' (enc_req_header h) bs" by blast
  from receive_request [OF m'(2)] m(1) m'(1) show ?thesis by blast
qed

lemma h1_run_hit:
  assumes "at_body u bs" "gets g bs x" "RPC_HEADER_SZ + length bs \<le> int_max"
  shows "h1_run g pr meth s u ret =
     andthen (meth x s) (\<lambda>(s, b, r). andthen (pr r ret) (\<lambda>ret. Inr (s, b, ret)))"
proof -
  from at_body_gets [OF assms] obtain u' where "g u = Inr (x, u')" "okdone u'" by blast
  then show ?thesis by (simp add: h1_run_def)
qed

text \<open>A read of the leading arguments, with \<open>rest\<close> left.\<close>

lemma at_body_prefix:
  assumes "at_body u (bs @ rest)" "gets g bs x" "RPC_HEADER_SZ + length (bs @ rest) \<le> int_max"
  shows "g u = Inr (x, u\<lparr>uind := RPC_HEADER_SZ + length bs\<rparr>)"
  using assms gets_hit [OF assms(2), of u rest] by (simp add: at_body_def)

lemma h1_run_not_done:
  "g u = Inr (x, u') \<Longrightarrow> \<not> okdone u' \<Longrightarrow>
     h1_run g pr meth s u ret = Inr (s, unmarshal_args_failure, ret)"
  by (simp add: h1_run_def)

text \<open>Reading an \<open>int\<close> or a string where nothing is left clears \<open>_ok\<close>.\<close>

lemma get_uint_starved:
  "uind u = usz u \<Longrightarrow> get_uint u = Inr (0, u\<lparr>uok := False\<rparr>)"
  by (simp add: get_uint_def urawbyte_def)

lemma get_string_starved:
  "uind u = usz u \<Longrightarrow> get_string s u = Inr (s, u\<lparr>uok := False\<rparr>)"
  by (simp add: get_string_def get_uint_starved)

text \<open>
  the two-argument call, the form the lock service uses. The request that
  \<open>rpcc::call\<close> marshalls and \<open>call1\<close> puts a header on is unmarshalled at the server with
  that header, and the handler object built by \<open>rpcs::reg\<close> runs the method on exactly the
  arguments of the caller and marshalls its result.
\<close>

lemma call2_reaches_handler:
  assumes "codec p1 g1 e1 v1" "codec p2 g2 e2 v2" "v1 a1" "v2 a2"
    and "2 * (RPC_HEADER_SZ + (length (e1 a1) + length (e2 a2))) \<le> int_max"
  shows "\<exists>m m' u. call_req2 p1 p2 a1 a2 = Inr m \<and> pack_req_header h m = Inr m' \<and>
     unpack_req_header (received junk m') = (h, u) \<and>
     h1_fn2 g1 g2 pr meth s u ret =
       andthen (meth a1 a2 s) (\<lambda>(s, b, r). andthen (pr r ret) (\<lambda>ret. Inr (s, b, ret)))"
proof -
  have "puts (\<lambda>m. andthen (p1 a1 m) (p2 a2)) (e1 a1 @ e2 a2)"
    by (rule puts_andthen codec.put_enc assms)+
  from request_delivered [OF this, of h junk] assms(5) obtain m m' u
    where m: "call_req2 p1 p2 a1 a2 = Inr m" "pack_req_header h m = Inr m'"
      "unpack_req_header (received junk m') = (h, u)" "at_body u (e1 a1 @ e2 a2)"
    unfolding call_req2_def by auto
  have "gets (args2 g1 g2) (e1 a1 @ e2 a2 @ []) (a1, a2)"
    unfolding args2_def [abs_def]
    by (rule gets_andthen [OF codec.get_enc] gets_return assms)+
  with m(4) assms(5) have "h1_fn2 g1 g2 pr meth s u ret =
      andthen (meth a1 a2 s) (\<lambda>(s, b, r). andthen (pr r ret) (\<lambda>ret. Inr (s, b, ret)))"
    by (simp add: h1_fn2_def h1_run_hit [of u "e1 a1 @ e2 a2" _ "(a1, a2)"])
  with m show ?thesis by blast
qed

lemma call2_reaches_handler_witness:
  "\<exists>m m' u. call_req2 put_uint put_ull 77 5 = Inr m \<and>
     pack_req_header \<lparr>rq_xid = 1, rq_proc = 2, rq_clt_nonce = 3, rq_srv_nonce = 4, rq_xid_rep = 0\<rparr> m
       = Inr m' \<and>
     unpack_req_header (received (\<lambda>_. 9) m') =
       (\<lparr>rq_xid = 1, rq_proc = 2, rq_clt_nonce = 3, rq_srv_nonce = 4, rq_xid_rep = 0\<rparr>, u) \<and>
     h1_fn2 get_uint get_ull put_int (\<lambda>a b s. Inr (s + unat a, 0, a)) (1 :: nat) u marshall_new =
       andthen (Inr (78, 0, 77)) (\<lambda>(s, b, r). andthen (put_int r marshall_new) (\<lambda>ret. Inr (s, b, ret)))"
  using call2_reaches_handler [OF uint_codec.codec_axioms ull_codec.codec_axioms, of 77 5,
      where pr = put_int and meth = "\<lambda>a b s. Inr (s + unat a, 0, a)" and s = "1 :: nat"]
  by (simp add: int_max_def)

text \<open>
  the same for the largest call and registration templates, with seven arguments.
\<close>

lemma call7_reaches_handler:
  assumes "codec p1 g1 e1 v1" "codec p2 g2 e2 v2" "codec p3 g3 e3 v3" "codec p4 g4 e4 v4"
    "codec p5 g5 e5 v5" "codec p6 g6 e6 v6" "codec p7 g7 e7 v7"
    and "v1 a1" "v2 a2" "v3 a3" "v4 a4" "v5 a5" "v6 a6" "v7 a7"
    and "2 * (RPC_HEADER_SZ + (length (e1 a1) + length (e2 a2) + length (e3 a3) + length (e4 a4) +
      length (e5 a5) + length (e6 a6) + length (e7 a7))) \<le> int_max"
  shows "\<exists>m m' u. call_req7 p1 p2 p3 p4 p5 p6 p7 a1 a2 a3 a4 a5 a6 a7 = Inr m \<and>
     pack_req_header h m = Inr m' \<and> unpack_req_header (received junk m') = (h, u) \<and>
     h1_fn7 g1 g2 g3 g4 g5 g6 g7 pr meth s u ret =
       andthen (meth a1 a2 a3 a4 a5 a6 a7 s)
         (\<lambda>(s, b, r). andthen (pr r ret) (\<lambda>ret. Inr (s, b, ret)))"
proof -
  let ?bs = "e1 a1 @ e2 a2 @ e3 a3 @ e4 a4 @ e5 a5 @ e6 a6 @ e7 a7"
  have "puts (\<lambda>m. andthen (andthen (andthen (andthen (andthen (andthen (p1 a1 m) (p2 a2)) (p3 a3))
      (p4 a4)) (p5 a5)) (p6 a6)) (p7 a7))
      ((((((e1 a1 @ e2 a2) @ e3 a3) @ e4 a4) @ e5 a5) @ e6 a6) @ e7 a7)"
    by (rule puts_andthen codec.put_enc assms)+
  from request_delivered [OF this, of h junk] assms(15) obtain m m' u
    where m: "call_req7 p1 p2 p3 p4 p5 p6 p7 a1 a2 a3 a4 a5 a6 a7 = Inr m"
      "pack_req_header h m = Inr m'" "unpack_req_header (received junk m') = (h, u)" "at_body u ?bs"
    unfolding call_req7_def by auto
  have "gets (args7 g1 g2 g3 g4 g5 g6 g7)
      (e1 a1 @ e2 a2 @ e3 a3 @ e4 a4 @ e5 a5 @ e6 a6 @ e7 a7 @ []) (a1, a2, a3, a4, a5, a6, a7)"
    unfolding args7_def [abs_def]
    by (rule gets_andthen [OF codec.get_enc] gets_return assms)+
  with m(4) assms(15) have "h1_fn7 g1 g2 g3 g4 g5 g6 g7 pr meth s u ret =
      andthen (meth a1 a2 a3 a4 a5 a6 a7 s)
        (\<lambda>(s, b, r). andthen (pr r ret) (\<lambda>ret. Inr (s, b, ret)))"
    by (simp add: h1_fn7_def h1_run_hit [of u ?bs _ "(a1, a2, a3, a4, a5, a6, a7)"])
  with m show ?thesis by blast
qed

lemma call7_reaches_handler_witness:
  "\<exists>m m' u. call_req7 put_int put_int put_bool put_char put_ull put_short put_uint
       1 2 True 4 5 6 7 = Inr m \<and>
     pack_req_header \<lparr>rq_xid = 1, rq_proc = 2, rq_clt_nonce = 3, rq_srv_nonce = 4, rq_xid_rep = 0\<rparr> m
       = Inr m' \<and>
     unpack_req_header (received (\<lambda>_. 9) m') =
       (\<lparr>rq_xid = 1, rq_proc = 2, rq_clt_nonce = 3, rq_srv_nonce = 4, rq_xid_rep = 0\<rparr>, u) \<and>
     h1_fn7 get_int get_int get_bool get_char get_ull get_short get_uint put_int
       (\<lambda>a b c d e f g s. Inr (s, a, b)) () u marshall_new =
       andthen (Inr ((), 1, 2)) (\<lambda>(s, b, r). andthen (put_int r marshall_new) (\<lambda>ret. Inr (s, b, ret)))"
  using call7_reaches_handler [OF int_codec.codec_axioms int_codec.codec_axioms
      bool_codec.codec_axioms char_codec.codec_axioms ull_codec.codec_axioms
      short_codec.codec_axioms uint_codec.codec_axioms, of 1 2 True 4 5 6 7,
      where pr = put_int and meth = "\<lambda>a b c d e f g s. Inr (s, a, b)" and s = "()"]
  by (simp add: int_max_def)

text \<open>
  The argument checks of rpctest. A request with one string is refused by a handler
  that wants two, and a request with two integers by a handler that wants one: the handler
  object answers \<open>unmarshal_args_failure\<close>, and the method is not run.
\<close>

lemma wrong_arguments_refused:
  assumes "at_body u (enc_string a)" "RPC_HEADER_SZ + length (enc_string a) \<le> int_max"
    and "at_body v (enc_u32 x @ enc_u32 y)"
  shows "h1_fn2 (get_string []) (get_string []) put_string handle_22 s u ret =
       Inr (s, unmarshal_args_failure, ret) \<and>
     h1_fn1 get_int put_int handle_fast s v ret = Inr (s, unmarshal_args_failure, ret)"
proof
  let ?u = "u\<lparr>uind := RPC_HEADER_SZ + length (enc_string a)\<rparr>"
  have "get_string [] u = Inr (a, ?u)"
    using at_body_prefix [of u "enc_string a" "[]" "get_string []" a] assms(1,2)
    by (simp add: gets_string)
  moreover have "get_string [] ?u = Inr ([], ?u\<lparr>uok := False\<rparr>)"
    using assms(1) by (intro get_string_starved) (simp add: at_body_def)
  ultimately have "args2 (get_string []) (get_string []) u = Inr ((a, []), ?u\<lparr>uok := False\<rparr>)"
    by (simp add: args2_def)
  then show "h1_fn2 (get_string []) (get_string []) put_string handle_22 s u ret =
      Inr (s, unmarshal_args_failure, ret)"
    by (simp add: h1_fn2_def h1_run_not_done okdone_def)
next
  have "get_int v = Inr (x, v\<lparr>uind := RPC_HEADER_SZ + 4\<rparr>)"
    using at_body_prefix [OF assms(3) gets_int] by (simp add: int_max_def)
  then show "h1_fn1 get_int put_int handle_fast s v ret = Inr (s, unmarshal_args_failure, ret)"
    using assms(3) by (simp add: h1_fn1_def h1_run_not_done okdone_def at_body_def)
qed

lemma wrong_arguments_refused_witness:
  "h1_fn2 (get_string []) (get_string []) put_string handle_22 ()
       \<lparr>ubuf = replicate 24 0 @ [0, 0, 0, 1, 65], uind = 24, uok = True\<rparr> marshall_new =
       Inr ((), unmarshal_args_failure, marshall_new) \<and>
   h1_fn1 get_int put_int handle_fast ()
       \<lparr>ubuf = replicate 24 0 @ [0, 0, 3, 233, 0, 0, 3, 234], uind = 24, uok = True\<rparr> marshall_new =
       Inr ((), unmarshal_args_failure, marshall_new)"
  by (rule wrong_arguments_refused [where a = "[65]" and x = 1001 and y = 1002])
    (simp_all add: at_body_def enc_string_def enc_u32_def int_max_def)

lemma take_in_at_body:
  "at_body u bs \<Longrightarrow> at_body (fst (take_in v u)) bs"
  by (simp add: at_body_def take_in_def utake_buf_def)

text \<open>
  a reply with a non-negative return value reaches the caller. What the handler
  marshalled and \<open>dispatch\<close> put a header on is moved into the caller's \<open>unmarshall\<close> by
  \<open>got_pdu\<close>, and \<open>call_m\<close> returns the handler's \<open>int\<close> and result.
\<close>

lemma reply_reaches_caller:
  assumes "codec pr gr er vr" "vr r" "0 \<le>s b" "2 * (RPC_HEADER_SZ + length (er r)) \<le> int_max"
  shows "\<exists>ret m rep. pr r marshall_new = Inr ret \<and>
     pack_reply_header \<lparr>rp_xid = xid, rp_ret = b\<rparr> ret = Inr m \<and>
     unpack_reply_header (received junk m) = (\<lparr>rp_xid = xid, rp_ret = b\<rparr>, rep) \<and>
     call_m gr b (fst (take_in unmarshall_empty rep)) r0 = Inr (b, r)"
proof -
  from puts_new [OF codec.put_enc [OF assms(1,2)] assms(4)] obtain ret
    where ret: "pr r marshall_new = Inr ret" "body ret (er r)" by blast
  let ?h = "\<lparr>rp_xid = xid, rp_ret = b\<rparr>"
  from pack_reply_header_sent [OF ret(2), of ?h] obtain m
    where m: "pack_reply_header ?h ret = Inr m" "sent m (enc_reply_header ?h) (er r)" by blast
  from receive_reply [OF m(2), of junk] obtain rep
    where rep: "unpack_reply_header (received junk m) = (?h, rep)" "at_body rep (er r)" by blast
  have "RPC_HEADER_SZ + length (er r) \<le> int_max" using assms(4) by simp
  from at_body_gets [OF take_in_at_body [OF rep(2)] codec.get_enc [OF assms(1,2)] this] obtain u
    where "gr (fst (take_in unmarshall_empty rep)) = Inr (r, u)" "okdone u" by blast
  with assms(3) have "call_m gr b (fst (take_in unmarshall_empty rep)) r0 = Inr (b, r)"
    by (simp add: call_m_def word_sle_eq word_sless_alt)
  with ret(1) m(1) rep(1) show ?thesis by blast
qed

lemma reply_reaches_caller_witness:
  "\<exists>ret m rep. put_string [104, 105] marshall_new = Inr ret \<and>
     pack_reply_header \<lparr>rp_xid = 4, rp_ret = 0\<rparr> ret = Inr m \<and>
     unpack_reply_header (received (\<lambda>_. 1) m) = (\<lparr>rp_xid = 4, rp_ret = 0\<rparr>, rep) \<and>
     call_m (get_string []) 0 (fst (take_in unmarshall_empty rep)) [] = Inr (0, [104, 105])"
  by (rule reply_reaches_caller [OF string_codec.codec_axioms]) (simp_all add: int_max_def)

end
