(* ===== verification/XidWindow.thy ===== *)
theory XidWindow
  imports Prelude
begin

text \<open>
  \<open>rpcc::update_xid_rep\<close> of \<open>rpc/rpc.cc\<close>: the client's window of acknowledged request
  numbers, whose front it sends with every request as \<open>xid_rep\<close>. The list is
  \<open>xid_rep_window_\<close>; the iterator of the compression loop is the split of the list into
  what it has passed and what is ahead of it.
\<close>

section \<open>The code\<close>

fun xid_rep_insert :: "u32 \<Rightarrow> u32 list \<Rightarrow> u32 list" where
  "xid_rep_insert xid [] = [xid]"
| "xid_rep_insert xid (y # ys) = (if xid < y then xid # y # ys else y # xid_rep_insert xid ys)"

text \<open>
  \<open>while (front() + 1 == *it) pop_front()\<close>. Once everything before \<open>it\<close> is gone the front
  is \<open>*it\<close> itself, and the loop stops since \<open>*it + 1\<close> is not \<open>*it\<close>.
\<close>

fun xid_rep_pop :: "u32 list \<Rightarrow> u32 \<Rightarrow> u32 list" where
  "xid_rep_pop [] y = []"
| "xid_rep_pop (p # ps) y = (if p + 1 = y then xid_rep_pop ps y else p # ps)"

fun xid_rep_compress :: "u32 list \<Rightarrow> u32 list \<Rightarrow> u32 list" where
  "xid_rep_compress passed [] = passed"
| "xid_rep_compress passed (y # ys) = xid_rep_compress (xid_rep_pop passed y @ [y]) ys"

text \<open>\<open>front()\<close> of an empty list is undefined; the constructor of \<open>rpcc\<close> pushes 0 first.\<close>

fun update_xid_rep :: "u32 \<Rightarrow> u32 list \<Rightarrow> u32 list outcome" where
  "update_xid_rep xid [] = Inl Out_of_bounds"
| "update_xid_rep xid (f # w) =
     (if xid \<le> f then Inr (f # w)
      else case xid_rep_insert xid (f # w) of
        [] \<Rightarrow> Inl Out_of_bounds
      | x # xs \<Rightarrow> Inr (xid_rep_compress [x] xs))"

definition xid_rep_window_init :: "u32 list" where
  "xid_rep_window_init = [0]"

fun update_all :: "u32 list \<Rightarrow> u32 list \<Rightarrow> u32 list outcome" where
  "update_all [] w = Inr w"
| "update_all (x # xs) w = andthen (update_xid_rep x w) (update_all xs)"

section \<open>What the window stands for\<close>

text \<open>
  The set of acknowledged numbers: everything up to the front, and the elements. The
  window is well formed when it is sorted (repetitions allowed) and compressed.
\<close>

definition acked :: "u32 list \<Rightarrow> u32 set" where
  "acked w = {x. x \<le> hd w} \<union> set w"

definition window_ok :: "u32 list \<Rightarrow> bool" where
  "window_ok w \<longleftrightarrow> w \<noteq> [] \<and> sorted w \<and> hd w + 1 \<notin> set w"

lemma word_between_succ:
  "p \<le> z \<Longrightarrow> z \<le> p + 1 \<Longrightarrow> p \<le> p + 1 \<Longrightarrow> z = p \<or> z = (p + 1 :: u32)"
  by uint_arith

lemma le_succ_cases: "x \<le> p + 1 \<Longrightarrow> p \<le> p + 1 \<Longrightarrow> x \<le> p \<or> x = (p + 1 :: u32)"
  by uint_arith

lemma set_xid_rep_insert [simp]: "set (xid_rep_insert x w) = insert x (set w)"
  by (induction w) auto

lemma sorted_xid_rep_insert [simp]: "sorted w \<Longrightarrow> sorted (xid_rep_insert x w)"
  by (induction w) auto

lemma hd_xid_rep_insert: "w \<noteq> [] \<Longrightarrow> hd w < x \<Longrightarrow> hd (xid_rep_insert x w) = hd w"
  by (cases w) auto

text \<open>In a compressed prefix the inner loop drops nothing, or everything.\<close>

lemma xid_rep_pop_other: "w \<noteq> [] \<Longrightarrow> hd w + 1 \<noteq> y \<Longrightarrow> xid_rep_pop w y = w"
  by (cases w) auto

lemma xid_rep_pop_all: "\<forall>z \<in> set w. z + 1 = y \<Longrightarrow> xid_rep_pop w y = []"
  by (induction w) auto

lemma compressed_step:
  assumes "window_ok w" "sorted (w @ y # ys)"
  shows "window_ok (xid_rep_pop w y @ [y]) \<and> sorted (xid_rep_pop w y @ y # ys) \<and>
     acked (xid_rep_pop w y @ y # ys) = acked (w @ y # ys)"
proof (cases "hd w + 1 = y")
  case False
  with assms show ?thesis
    by (auto simp: window_ok_def xid_rep_pop_other sorted_append)
next
  case True
  have hd_le: "hd w \<le> z" if "z \<in> set w" for z
    using assms(1) that by (cases w) (auto simp: window_ok_def)
  have hd_y: "hd w \<le> y" using assms by (cases w) (auto simp: window_ok_def)
  have all: "z = hd w" if z: "z \<in> set w" for z
  proof -
    from z assms(2) have "z \<le> y" by (auto simp: sorted_append)
    with True hd_le [OF z] hd_y have "z = hd w \<or> z = y" using word_between_succ by blast
    with assms(1) z True show ?thesis by (auto simp: window_ok_def)
  qed
  with True have pop: "xid_rep_pop w y = []" by (intro xid_rep_pop_all) auto
  have "y + 1 \<noteq> y" by simp
  moreover have "acked (y # ys) = acked (w @ y # ys)"
    using True all hd_y assms(1)
    by (auto simp: acked_def window_ok_def dest: le_succ_cases)
  ultimately show ?thesis
    using pop assms(2) by (simp add: window_ok_def sorted_append)
qed

lemma xid_rep_compress_ok:
  "window_ok w \<Longrightarrow> sorted (w @ ys) \<Longrightarrow>
     window_ok (xid_rep_compress w ys) \<and> acked (xid_rep_compress w ys) = acked (w @ ys)"
proof (induction w ys rule: xid_rep_compress.induct)
  case (1 w)
  then show ?case by simp
next
  case (2 w y ys)
  from compressed_step [OF "2.prems"] "2.IH" show ?case by simp
qed

text \<open>One update adds one number to the set, whatever its position and also when it is there already.\<close>

lemma update_xid_rep_ok:
  assumes "window_ok w"
  shows "\<exists>w'. update_xid_rep x w = Inr w' \<and> window_ok w' \<and> acked w' = insert x (acked w)"
proof (cases w)
  case Nil
  with assms show ?thesis by (simp add: window_ok_def)
next
  case (Cons f v)
  show ?thesis
  proof (cases "x \<le> f")
    case True
    with Cons assms show ?thesis by (auto simp: acked_def)
  next
    case False
    define v' where "v' = xid_rep_insert x v"
    from False have "\<not> x < f" by (auto dest: less_imp_le)
    then have v': "xid_rep_insert x (f # v) = f # v'" by (simp add: v'_def)
    from assms Cons have "sorted (f # v)" by (simp add: window_ok_def)
    then have "sorted (f # v')"
      unfolding v' [symmetric] by (rule sorted_xid_rep_insert)
    have "set (f # v') = insert x (set (f # v))"
      unfolding v' [symmetric] by (rule set_xid_rep_insert)
    have "window_ok [f]" by (simp add: window_ok_def)
    with \<open>sorted (f # v')\<close> have "window_ok (xid_rep_compress [f] v')"
      "acked (xid_rep_compress [f] v') = acked (f # v')"
      using xid_rep_compress_ok [of "[f]" v'] by simp_all
    moreover have "acked (f # v') = insert x (acked (f # v))"
      using \<open>set (f # v') = insert x (set (f # v))\<close> by (auto simp: acked_def)
    ultimately show ?thesis using Cons False v' by simp
  qed
qed

lemma window_ok_init: "window_ok xid_rep_window_init" "acked xid_rep_window_init = {0}"
  by (auto simp: xid_rep_window_init_def window_ok_def acked_def)

lemma update_all_ok:
  "window_ok w \<Longrightarrow>
     \<exists>w'. update_all xs w = Inr w' \<and> window_ok w' \<and> acked w' = acked w \<union> set xs"
proof (induction xs arbitrary: w)
  case Nil
  then show ?case by simp
next
  case (Cons x xs)
  from update_xid_rep_ok [OF Cons.prems, of x] obtain v
    where v: "update_xid_rep x w = Inr v" "window_ok v" "acked v = insert x (acked w)" by blast
  with Cons.IH [OF v(2)] show ?case by auto
qed

text \<open>The front is determined by the set.\<close>

lemma window_front:
  assumes "window_ok w"
  shows "n \<le> hd w \<longleftrightarrow> (\<forall>k \<le> n. k \<in> acked w)"
proof
  assume "n \<le> hd w"
  then show "\<forall>k \<le> n. k \<in> acked w" by (auto simp: acked_def)
next
  assume all: "\<forall>k \<le> n. k \<in> acked w"
  show "n \<le> hd w"
  proof (rule ccontr)
    assume "\<not> n \<le> hd w"
    then have "hd w + 1 \<le> n" "\<not> hd w + 1 \<le> hd w" by uint_arith+
    with all have "hd w + 1 \<in> set w" by (auto simp: acked_def)
    with assms show False by (simp add: window_ok_def)
  qed
qed

section \<open>Properties\<close>

text \<open>
  C30: the front of the window is the cumulative acknowledgement. After any sequence of
  updates, in any order and with repetitions, \<open>n\<close> is at most the front exactly when every
  number from 1 to \<open>n\<close> is among the updates, and the updates never fail.
\<close>

theorem xid_rep_front_is_cumulative:
  "\<exists>w. update_all xs xid_rep_window_init = Inr w \<and> w \<noteq> [] \<and>
     (\<forall>n. n \<le> hd w \<longleftrightarrow> {1..n} \<subseteq> set xs)"
proof -
  have pos: "(1 :: u32) \<le> k \<longleftrightarrow> k \<noteq> 0" for k by uint_arith
  from update_all_ok [OF window_ok_init(1), of xs] obtain w
    where w: "update_all xs xid_rep_window_init = Inr w" "window_ok w" "acked w = {0} \<union> set xs"
    by (auto simp: window_ok_init)
  with window_front [OF w(2)] show ?thesis by (auto simp: window_ok_def pos subset_iff)
qed

text \<open>
  a request that was not answered yet is above the number the client acknowledges: the
  \<open>xid_rep\<close> of a call in progress is smaller than its \<open>xid\<close>, which is what the server
  relies on when it trims its reply window.
\<close>

lemma xid_rep_below_outstanding:
  assumes "update_all xs xid_rep_window_init = Inr w" "xid \<notin> set xs" "xid \<noteq> 0"
  shows "hd w < xid"
proof -
  from update_all_ok [OF window_ok_init(1), of xs] assms(1) have "window_ok w"
    "acked w = {0} \<union> set xs" by (auto simp: window_ok_init)
  with window_front [of w xid] assms(2,3) show ?thesis by force
qed

lemma xid_rep_below_outstanding_witness: "hd [2, 4 :: u32] < 3"
proof -
  have "update_all [1, 4, 2, 4] xid_rep_window_init = Inr [2, 4, 4]" by code_simp
  from xid_rep_below_outstanding [OF this, of 3] show ?thesis by simp
qed

end
