(* ===== verification/ReplyWindow.thy ===== *)
theory ReplyWindow
  imports Prelude "HOL-Library.Multiset"
begin

text \<open>
  The at-most-once logic of the server (\<open>rpcs\<close> in \<open>rpc/rpc.cc\<close>): the reply window of
  every client, \<open>checkduplicate_and_update\<close>, \<open>add_reply\<close> and \<open>free_reply_window\<close>. A
  reply buffer is an address in a heap; \<open>free\<close> of an address that is not live is the fault
  \<^term>\<open>Use_after_free\<close>. Every operation holds \<open>reply_window_m_\<close> from start to end, so it
  is one atomic function on the state.
\<close>

section \<open>State\<close>

type_synonym addr = nat

record reply_t =
  rt_xid :: u32
  rt_cb_present :: bool
  rt_buf :: "addr option"
  rt_sz :: nat

definition reply_t_new :: "u32 \<Rightarrow> reply_t" where
  "reply_t_new x = \<lparr>rt_xid = x, rt_cb_present = False, rt_buf = None, rt_sz = 0\<rparr>"

datatype rpcstate_t =
    NEW
  | INPROGRESS
  | DONE
  | FORGOTTEN

record reply_state =
  reply_window :: "u32 \<Rightarrow> reply_t list option"
  live :: "addr \<Rightarrow> bool"

text \<open>\<open>reply_window_[clt_nonce]\<close>: the operator creates an empty list for a new key.\<close>

definition window_of :: "reply_state \<Rightarrow> u32 \<Rightarrow> reply_t list" where
  "window_of st clt = (case reply_window st clt of None \<Rightarrow> [] | Some w \<Rightarrow> w)"

definition set_window :: "u32 \<Rightarrow> reply_t list \<Rightarrow> reply_state \<Rightarrow> reply_state" where
  "set_window clt w st = st\<lparr>reply_window := (reply_window st)(clt := Some w)\<rparr>"

text \<open>\<open>free(p)\<close>: a null pointer is ignored.\<close>

definition free_buf :: "addr option \<Rightarrow> (addr \<Rightarrow> bool) \<Rightarrow> (addr \<Rightarrow> bool) outcome" where
  "free_buf p lv =
     (case p of
        None \<Rightarrow> Inr lv
      | Some a \<Rightarrow> if lv a then Inr (lv(a := False)) else Inl Use_after_free)"

section \<open>checkduplicate_and_update\<close>

text \<open>
  The first loop. The list is split at the iterator: \<open>passed\<close> holds the entries kept so
  far, so the front of the list is the head of \<open>passed @ e # es\<close>. The result is the list
  as the loop leaves it, the heap, and the answer if the loop returned one.
\<close>

type_synonym answer = "rpcstate_t \<times> (addr option \<times> nat) option"

fun check_loop ::
    "u32 \<Rightarrow> u32 \<Rightarrow> reply_t list \<Rightarrow> reply_t list \<Rightarrow> (addr \<Rightarrow> bool) \<Rightarrow>
       (reply_t list \<times> (addr \<Rightarrow> bool) \<times> answer option) outcome" where
  "check_loop xid xid_rep passed [] lv = Inr (passed, lv, None)"
| "check_loop xid xid_rep passed (e # es) lv =
     (if rt_xid e < xid_rep
      then andthen (free_buf (rt_buf e) lv) (check_loop xid xid_rep passed es)
      else if rt_xid e = xid
      then Inr (passed @ e # es, lv,
             Some (if rt_cb_present e then (DONE, Some (rt_buf e, rt_sz e)) else (INPROGRESS, None)))
      else if xid < rt_xid (hd (passed @ e # es))
      then Inr (passed @ e # es, lv, Some (FORGOTTEN, None))
      else check_loop xid xid_rep (passed @ [e]) es lv)"

text \<open>The second loop and the \<open>push_back\<close> after it.\<close>

fun insert_reply :: "reply_t \<Rightarrow> reply_t list \<Rightarrow> reply_t list" where
  "insert_reply n [] = [n]"
| "insert_reply n (e # es) = (if rt_xid n < rt_xid e then n # e # es else e # insert_reply n es)"

definition checkduplicate_and_update ::
    "u32 \<Rightarrow> u32 \<Rightarrow> u32 \<Rightarrow> reply_state \<Rightarrow> (answer \<times> reply_state) outcome" where
  "checkduplicate_and_update clt xid xid_rep st =
     andthen (check_loop xid xid_rep [] (window_of st clt) (live st)) (\<lambda>(w, lv, r).
     let st = st\<lparr>live := lv\<rparr> in
     case r of
       Some a \<Rightarrow> Inr (a, set_window clt w st)
     | None \<Rightarrow> Inr ((NEW, None), set_window clt (insert_reply (reply_t_new xid) w) st))"

section \<open>add_reply and free_reply_window\<close>

fun store_reply :: "u32 \<Rightarrow> addr option \<Rightarrow> nat \<Rightarrow> reply_t list \<Rightarrow> reply_t list" where
  "store_reply xid b sz [] = []"
| "store_reply xid b sz (e # es) =
     (if rt_xid e = xid then e\<lparr>rt_buf := b, rt_sz := sz, rt_cb_present := True\<rparr> # es
      else e # store_reply xid b sz es)"

definition add_reply :: "u32 \<Rightarrow> u32 \<Rightarrow> addr option \<Rightarrow> nat \<Rightarrow> reply_state \<Rightarrow> reply_state" where
  "add_reply clt xid b sz st = set_window clt (store_reply xid b sz (window_of st clt)) st"

fun free_list :: "reply_t list \<Rightarrow> (addr \<Rightarrow> bool) \<Rightarrow> (addr \<Rightarrow> bool) outcome" where
  "free_list [] lv = Inr lv"
| "free_list (e # es) lv = andthen (free_buf (rt_buf e) lv) (free_list es)"

text \<open>The clients are visited in the iteration order of the map, given as the list of its keys.\<close>

fun free_windows :: "u32 list \<Rightarrow> reply_state \<Rightarrow> (addr \<Rightarrow> bool) \<Rightarrow> (addr \<Rightarrow> bool) outcome" where
  "free_windows [] st lv = Inr lv"
| "free_windows (c # cs) st lv = andthen (free_list (window_of st c) lv) (free_windows cs st)"

definition free_reply_window :: "u32 list \<Rightarrow> reply_state \<Rightarrow> reply_state outcome" where
  "free_reply_window keys st =
     andthen (free_windows keys st (live st)) (\<lambda>lv.
     Inr (st\<lparr>reply_window := (\<lambda>_. None), live := lv\<rparr>))"

definition reply_state_init :: reply_state where
  "reply_state_init = \<lparr>reply_window = (\<lambda>_. None), live = (\<lambda>_. False)\<rparr>"

section \<open>Sorted windows\<close>

definition xids :: "reply_t list \<Rightarrow> u32 list" where
  "xids w = map rt_xid w"

lemma xids_simps [simp]:
  "xids [] = []" "xids (e # es) = rt_xid e # xids es" "xids (v @ w) = xids v @ xids w"
  "set (xids w) = rt_xid ` set w" "rt_xid (reply_t_new x) = x" "rt_buf (reply_t_new x) = None"
  by (simp_all add: xids_def reply_t_new_def)

lemma window_of_set [simp]:
  "window_of (set_window c w st) d = (if d = c then w else window_of st d)"
  "live (set_window c w st) = live st"
  "window_of (st\<lparr>live := lv\<rparr>) d = window_of st d"
  by (auto simp: window_of_def set_window_def)

abbreviation sorted_win :: "reply_t list \<Rightarrow> bool" where
  "sorted_win w \<equiv> sorted_wrt (<) (xids w)"

lemma insert_reply_mset: "mset (insert_reply n w) = add_mset n (mset w)"
  by (induction w) auto

lemma insert_reply_set [simp]: "set (insert_reply n w) = insert n (set w)"
  by (induction w) auto

lemma insert_reply_sorted:
  "sorted_win w \<Longrightarrow> rt_xid n \<notin> rt_xid ` set w \<Longrightarrow> sorted_win (insert_reply n w)"
  by (induction w) (auto simp: not_less_iff_gr_or_eq image_iff)

lemma insert_reply_hd:
  "w \<noteq> [] \<Longrightarrow> rt_xid (hd w) \<le> rt_xid n \<Longrightarrow> hd (insert_reply n w) = hd w"
  by (cases w) auto

lemma store_reply_xids [simp]: "xids (store_reply x b s w) = xids w"
  by (induction w) auto

section \<open>A reference for checkduplicate_and_update\<close>

text \<open>
  On a sorted window, and for a client that never acknowledges the request it sends
  (\<open>xid_rep < xid\<close>), the loop is: drop every entry below \<open>xid_rep\<close>, look the request up,
  refuse it when it is older than what is left, insert it otherwise.
\<close>

definition kept :: "u32 \<Rightarrow> reply_t list \<Rightarrow> reply_t list" where
  "kept xid_rep w = filter (\<lambda>e. xid_rep \<le> rt_xid e) w"

definition lookup_reply :: "u32 \<Rightarrow> reply_t list \<Rightarrow> reply_t option" where
  "lookup_reply xid w = List.find (\<lambda>e. rt_xid e = xid) w"

definition answer_ref :: "u32 \<Rightarrow> reply_t list \<Rightarrow> answer" where
  "answer_ref xid k =
     (case lookup_reply xid k of
        Some e \<Rightarrow> if rt_cb_present e then (DONE, Some (rt_buf e, rt_sz e)) else (INPROGRESS, None)
      | None \<Rightarrow> if k \<noteq> [] \<and> xid < rt_xid (hd k) then (FORGOTTEN, None) else (NEW, None))"

definition window_ref :: "u32 \<Rightarrow> reply_t list \<Rightarrow> reply_t list" where
  "window_ref xid k = (if fst (answer_ref xid k) = NEW then insert_reply (reply_t_new xid) k else k)"

lemma free_list_append:
  "free_list (v @ w) lv = andthen (free_list v lv) (free_list w)"
  by (induction v arbitrary: lv) (simp_all add: andthen_def split: sum.split)

text \<open>Once an entry was passed, nothing more is trimmed.\<close>

lemma check_loop_passed:
  assumes "passed \<noteq> []" "rt_xid (hd passed) \<le> xid" "xid_rep \<le> rt_xid (hd passed)"
    "sorted_win (passed @ es)"
  shows "check_loop xid xid_rep passed es lv =
     Inr (passed @ es, lv,
       map_option (\<lambda>e. if rt_cb_present e then (DONE, Some (rt_buf e, rt_sz e)) else (INPROGRESS, None))
         (lookup_reply xid es))"
  using assms
proof (induction es arbitrary: passed)
  case Nil
  then show ?case by (simp add: lookup_reply_def)
next
  case (Cons e es)
  then have "rt_xid (hd passed) < rt_xid e" by (cases passed) auto
  with Cons.prems Cons.IH [of "passed @ [e]"] show ?case
    by (auto simp: lookup_reply_def)
qed

lemma check_loop_ref:
  assumes "sorted_win w" "xid_rep < xid"
  shows "check_loop xid xid_rep [] w lv =
     andthen (free_list (filter (\<lambda>e. rt_xid e < xid_rep) w) lv) (\<lambda>lv.
       Inr (kept xid_rep w, lv,
         if fst (answer_ref xid (kept xid_rep w)) = NEW then None
         else Some (answer_ref xid (kept xid_rep w))))"
  using assms
proof (induction w arbitrary: lv)
  case Nil
  then show ?case by (simp add: kept_def answer_ref_def lookup_reply_def)
next
  case (Cons e es)
  show ?case
  proof (cases "rt_xid e < xid_rep")
    case True
    then have "kept xid_rep (e # es) = kept xid_rep es"
      "filter (\<lambda>e. rt_xid e < xid_rep) (e # es) = e # filter (\<lambda>e. rt_xid e < xid_rep) es"
      by (simp_all add: kept_def not_le)
    moreover have "sorted_win es" using Cons.prems(1) by simp
    ultimately show ?thesis
      using True Cons.IH [OF _ Cons.prems(2)] by (simp add: andthen_def split: sum.split)
  next
    case False
    with Cons.prems have above: "\<forall>x \<in> set es. xid_rep < rt_xid x" by auto
    then have "filter (\<lambda>e. rt_xid e < xid_rep) (e # es) = []" "kept xid_rep (e # es) = e # es"
      using False by (auto simp: kept_def filter_empty_conv filter_id_conv)
    moreover have "rt_xid e \<noteq> xid \<Longrightarrow> \<not> xid < rt_xid e \<Longrightarrow> check_loop xid xid_rep [e] es lv =
      Inr (e # es, lv,
        map_option (\<lambda>e. if rt_cb_present e then (DONE, Some (rt_buf e, rt_sz e)) else (INPROGRESS, None))
          (lookup_reply xid es))"
      using check_loop_passed [of "[e]" xid xid_rep es lv] False Cons.prems by simp
    moreover have "xid < rt_xid e \<Longrightarrow> lookup_reply xid es = None"
      using Cons.prems by (auto simp: lookup_reply_def find_None_iff)
    ultimately show ?thesis
      using False by (auto simp: answer_ref_def lookup_reply_def split: option.split)
  qed
qed

text \<open>The reference with the heap and the state around it.\<close>

lemma check_ref:
  assumes "sorted_win (window_of st clt)" "xid_rep < xid"
  shows "checkduplicate_and_update clt xid xid_rep st =
     andthen (free_list (filter (\<lambda>e. rt_xid e < xid_rep) (window_of st clt)) (live st)) (\<lambda>lv.
       let k = kept xid_rep (window_of st clt) in
       Inr (answer_ref xid k, set_window clt (window_ref xid k) (st\<lparr>live := lv\<rparr>)))"
  unfolding checkduplicate_and_update_def check_loop_ref [OF assms] andthen_assoc
  by (auto simp: window_ref_def answer_ref_def Let_def andthen_def split: sum.splits option.splits)

section \<open>Invariants\<close>

text \<open>
  Windows are sorted, every buffer they hold is live and held once, and exactly the
  answered entries have one.
\<close>

definition entry_ok :: "reply_t \<Rightarrow> bool" where
  "entry_ok e \<longleftrightarrow> rt_cb_present e = (rt_buf e \<noteq> None)"

definition reply_inv :: "reply_state \<Rightarrow> bool" where
  "reply_inv st \<longleftrightarrow>
     (\<forall>c. sorted_win (window_of st c) \<and> (\<forall>e \<in> set (window_of st c). entry_ok e)) \<and>
     (\<forall>c e a. e \<in> set (window_of st c) \<longrightarrow> rt_buf e = Some a \<longrightarrow> live st a) \<and>
     (\<forall>c d e f a. e \<in> set (window_of st c) \<longrightarrow> f \<in> set (window_of st d) \<longrightarrow>
        rt_buf e = Some a \<longrightarrow> rt_buf f = Some a \<longrightarrow> c = d \<and> rt_xid e = rt_xid f)"

lemma reply_invD:
  assumes "reply_inv st"
  shows "sorted_win (window_of st c)"
    and "e \<in> set (window_of st c) \<Longrightarrow> entry_ok e"
    and "e \<in> set (window_of st c) \<Longrightarrow> rt_buf e = Some a \<Longrightarrow> live st a"
    and "e \<in> set (window_of st c) \<Longrightarrow> f \<in> set (window_of st d) \<Longrightarrow> rt_buf e = Some a \<Longrightarrow>
      rt_buf f = Some a \<Longrightarrow> c = d \<and> rt_xid e = rt_xid f"
  using assms unfolding reply_inv_def by blast+

lemma reply_invI:
  assumes "\<And>c. sorted_win (window_of st c)"
    and "\<And>c e. e \<in> set (window_of st c) \<Longrightarrow> entry_ok e"
    and "\<And>c e a. e \<in> set (window_of st c) \<Longrightarrow> rt_buf e = Some a \<Longrightarrow> live st a"
    and "\<And>c d e f a. e \<in> set (window_of st c) \<Longrightarrow> f \<in> set (window_of st d) \<Longrightarrow>
      rt_buf e = Some a \<Longrightarrow> rt_buf f = Some a \<Longrightarrow> c = d \<and> rt_xid e = rt_xid f"
  shows "reply_inv st"
  unfolding reply_inv_def using assms by metis

definition bufset :: "reply_t list \<Rightarrow> addr set" where
  "bufset w = {a. \<exists>e \<in> set w. rt_buf e = Some a}"

lemma free_list_ok:
  assumes "sorted_win w" "\<And>e a. e \<in> set w \<Longrightarrow> rt_buf e = Some a \<Longrightarrow> lv a"
    and "\<And>e f a. e \<in> set w \<Longrightarrow> f \<in> set w \<Longrightarrow> rt_buf e = Some a \<Longrightarrow> rt_buf f = Some a \<Longrightarrow>
      rt_xid e = rt_xid f"
  shows "free_list w lv = Inr (\<lambda>a. lv a \<and> a \<notin> bufset w)"
  using assms
proof (induction w arbitrary: lv)
  case Nil
  then show ?case by (simp add: bufset_def)
next
  case (Cons e es)
  have s: "sorted_win es" "\<forall>f \<in> set es. rt_xid e < rt_xid f" using Cons.prems(1) by auto
  show ?case
  proof (cases "rt_buf e")
    case None
    then have "bufset (e # es) = bufset es" by (auto simp: bufset_def)
    moreover have "free_list es lv = Inr (\<lambda>a. lv a \<and> a \<notin> bufset es)"
    proof (rule Cons.IH [OF s(1)])
      show "lv a" if "f \<in> set es" "rt_buf f = Some a" for f a
        using that Cons.prems(2) [of f a] by simp
      show "rt_xid f = rt_xid g"
        if "f \<in> set es" "g \<in> set es" "rt_buf f = Some a" "rt_buf g = Some a" for f g a
        using that Cons.prems(3) [of f g a] by simp
    qed
    ultimately show ?thesis using None by (simp add: free_buf_def)
  next
    case (Some b)
    have other: "rt_buf f \<noteq> Some b" if f: "f \<in> set es" for f
    proof
      assume "rt_buf f = Some b"
      with f Some Cons.prems(3) [of e f b] have "rt_xid e = rt_xid f" by simp
      with f s(2) show False by auto
    qed
    have "free_list es (lv(b := False)) = Inr (\<lambda>a. (lv(b := False)) a \<and> a \<notin> bufset es)"
    proof (rule Cons.IH [OF s(1)])
      show "(lv(b := False)) a" if "f \<in> set es" "rt_buf f = Some a" for f a
        using that other [of f] Cons.prems(2) [of f a] by auto
      show "rt_xid f = rt_xid g"
        if "f \<in> set es" "g \<in> set es" "rt_buf f = Some a" "rt_buf g = Some a" for f g a
        using that Cons.prems(3) [of f g a] by simp
    qed
    moreover have "(\<lambda>a. (lv(b := False)) a \<and> a \<notin> bufset es) = (\<lambda>a. lv a \<and> a \<notin> bufset (e # es))"
      using Some by (auto simp: bufset_def fun_eq_iff)
    moreover have "lv b" using Cons.prems(2) Some by auto
    ultimately show ?thesis using Some by (simp add: free_buf_def)
  qed
qed

lemma sorted_win_filter: "sorted_win w \<Longrightarrow> sorted_win (filter P w)"
  by (induction w) auto

lemma kept_simps:
  "set (kept r w) = {e \<in> set w. r \<le> rt_xid e}" "sorted_win w \<Longrightarrow> sorted_win (kept r w)"
  by (auto simp: kept_def sorted_win_filter)

text \<open>In a reachable state the check never faults, and acts as the reference.\<close>

definition trimmed_live :: "u32 \<Rightarrow> reply_t list \<Rightarrow> (addr \<Rightarrow> bool) \<Rightarrow> addr \<Rightarrow> bool" where
  "trimmed_live r w lv = (\<lambda>a. lv a \<and> a \<notin> bufset (filter (\<lambda>e. rt_xid e < r) w))"

lemma check_ok:
  assumes "reply_inv st" "r < x"
  shows "checkduplicate_and_update c x r st =
     Inr (answer_ref x (kept r (window_of st c)),
       set_window c (window_ref x (kept r (window_of st c)))
         (st\<lparr>live := trimmed_live r (window_of st c) (live st)\<rparr>))"
proof -
  note inv = reply_invD [OF assms(1)]
  have "free_list (filter (\<lambda>e. rt_xid e < r) (window_of st c)) (live st) =
      Inr (trimmed_live r (window_of st c) (live st))"
    unfolding trimmed_live_def
  proof (rule free_list_ok)
    show "sorted_win (filter (\<lambda>e. rt_xid e < r) (window_of st c))"
      by (rule sorted_win_filter) (rule inv(1))
  next
    fix e a assume "e \<in> set (filter (\<lambda>e. rt_xid e < r) (window_of st c))" "rt_buf e = Some a"
    then show "live st a" using inv(3) [of e c a] by simp
  next
    fix e f a
    assume "e \<in> set (filter (\<lambda>e. rt_xid e < r) (window_of st c))"
      "f \<in> set (filter (\<lambda>e. rt_xid e < r) (window_of st c))" "rt_buf e = Some a" "rt_buf f = Some a"
    then show "rt_xid e = rt_xid f" using inv(4) [of e c f c a] by simp
  qed
  with check_ref [of st c r x] inv(1) assms(2) show ?thesis by (simp add: Let_def)
qed

lemma lookup_reply_iff:
  "lookup_reply x w = None \<longleftrightarrow> x \<notin> rt_xid ` set w"
  "lookup_reply x w = Some e \<Longrightarrow> e \<in> set w \<and> rt_xid e = x"
  by (auto simp: lookup_reply_def find_None_iff image_iff dest: find_Some_iff [THEN iffD1])

lemma answer_NEW_iff:
  "fst (answer_ref x w) = NEW \<longleftrightarrow> x \<notin> rt_xid ` set w \<and> (w = [] \<or> rt_xid (hd w) < x)"
proof (cases "lookup_reply x w")
  case None
  then have "x \<notin> rt_xid ` set w" by (simp add: lookup_reply_iff)
  moreover from this have "w \<noteq> [] \<Longrightarrow> rt_xid (hd w) \<noteq> x" by (cases w) auto
  ultimately show ?thesis using None by (auto simp: answer_ref_def)
next
  case (Some e)
  with lookup_reply_iff(2) [OF Some] show ?thesis by (auto simp: answer_ref_def)
qed

lemma window_ref_set:
  "set (window_ref x w) =
     (if fst (answer_ref x w) = NEW then insert (reply_t_new x) (set w) else set w)"
  by (simp add: window_ref_def)

lemma window_ref_sorted: "sorted_win w \<Longrightarrow> sorted_win (window_ref x w)"
  by (auto simp: window_ref_def answer_NEW_iff insert_reply_sorted)

lemma window_ref_hd: "w \<noteq> [] \<Longrightarrow> hd (window_ref x w) = hd w"
  by (auto simp: window_ref_def answer_NEW_iff intro!: insert_reply_hd)

lemma reply_inv_init: "reply_inv reply_state_init"
  by (simp add: reply_inv_def reply_state_init_def window_of_def)

lemma check_inv:
  assumes inv: "reply_inv st" and "r < x" and c: "checkduplicate_and_update c x r st = Inr (a, st')"
  shows "reply_inv st'"
proof -
  let ?w = "window_of st c"
  note i = reply_invD [OF inv]
  from c check_ok [OF inv \<open>r < x\<close>] have st': "st' = set_window c (window_ref x (kept r ?w))
      (st\<lparr>live := trimmed_live r ?w (live st)\<rparr>)" by simp
  have new: "e \<in> set (window_of st d) \<and> (d = c \<longrightarrow> r \<le> rt_xid e)"
    if "e \<in> set (window_of st' d)" "rt_buf e = Some b" for e d b
    using that by (auto simp: st' window_ref_set kept_simps split: if_splits)
  have lv: "live st' b" if e: "e \<in> set (window_of st' d)" "rt_buf e = Some b" for e d b
  proof -
    from new [OF e] have e': "e \<in> set (window_of st d)" "d = c \<Longrightarrow> r \<le> rt_xid e" by simp_all
    have "b \<notin> bufset (filter (\<lambda>e. rt_xid e < r) ?w)"
    proof
      assume "b \<in> bufset (filter (\<lambda>e. rt_xid e < r) ?w)"
      then obtain f where f: "f \<in> set ?w" "rt_xid f < r" "rt_buf f = Some b"
        by (auto simp: bufset_def)
      from i(4) [OF e'(1) f(1) e(2) f(3)] e'(2) f(2) show False by auto
    qed
    with i(3) [OF e'(1) e(2)] show ?thesis by (simp add: st' trimmed_live_def)
  qed
  show ?thesis
  proof (rule reply_invI)
    show "sorted_win (window_of st' d)" for d
      using i(1) by (simp add: st' window_ref_sorted kept_simps)
    show "entry_ok e" if "e \<in> set (window_of st' d)" for e d
      using that i(2)
      by (auto simp: st' window_ref_set kept_simps entry_ok_def reply_t_new_def split: if_splits)
    show "live st' a" if "e \<in> set (window_of st' d)" "rt_buf e = Some a" for e d a
      using that by (rule lv)
    show "d = d' \<and> rt_xid e = rt_xid f"
      if "e \<in> set (window_of st' d)" "f \<in> set (window_of st' d')" "rt_buf e = Some a" "rt_buf f = Some a"
      for e f d d' a
      using new [OF that(1,3)] new [OF that(2,4)] i(4) [of e d f d' a] that(3,4) by simp
  qed
qed

lemma store_reply_set:
  "e \<in> set (store_reply x b s w) \<Longrightarrow>
     e \<in> set w \<or> (\<exists>f \<in> set w. rt_xid f = x \<and> e = f\<lparr>rt_buf := b, rt_sz := s, rt_cb_present := True\<rparr>)"
  by (induction w) (auto split: if_splits)

lemma record_inv:
  assumes inv: "reply_inv st" and "\<not> live st b"
  shows "reply_inv (add_reply c x (Some b) s (st\<lparr>live := (live st)(b := True)\<rparr>))" (is "reply_inv ?st'")
proof -
  note i = reply_invD [OF inv]
  have win: "window_of ?st' d = (if d = c then store_reply x (Some b) s (window_of st c) else window_of st d)"
    for d by (simp add: add_reply_def)
  have lv: "live ?st' = (live st)(b := True)" by (simp add: add_reply_def)
  have old: "(e \<in> set (window_of st d) \<and> b \<noteq> a) \<or>
      (d = c \<and> rt_xid e = x \<and> a = b \<and> x \<in> rt_xid ` set (window_of st c))"
    if "e \<in> set (window_of ?st' d)" "rt_buf e = Some a" for e d a
    using that i(3) [of e d a] assms(2)
    by (auto simp: win split: if_splits dest!: store_reply_set)
  show ?thesis
  proof (rule reply_invI)
    show "sorted_win (window_of ?st' d)" for d
      using i(1) [of d] i(1) [of c] by (simp add: win)
    show "entry_ok e" if "e \<in> set (window_of ?st' d)" for e d
      using that i(2) by (auto simp: win entry_ok_def split: if_splits dest!: store_reply_set)
    show "live ?st' a" if "e \<in> set (window_of ?st' d)" "rt_buf e = Some a" for e d a
      using old [OF that] i(3) that(2) by (auto simp: lv)
    show "d = d' \<and> rt_xid e = rt_xid f"
      if "e \<in> set (window_of ?st' d)" "f \<in> set (window_of ?st' d')" "rt_buf e = Some a" "rt_buf f = Some a"
      for e f d d' a
      using old [OF that(1,3)] old [OF that(2,4)] i(4) [of e d f d' a] that(3,4) by auto
  qed
qed

section \<open>Histories\<close>

text \<open>
  A history is a sequence of operations on the window in the order they take the lock, for
  any number of clients and server threads: a request that is looked up, and a reply that
  is recorded in a buffer that was just allocated. A client never acknowledges the request
  it sends (see \<open>xid_rep_below_outstanding\<close>).
\<close>

datatype rw_event =
    Checked u32 u32 u32 answer
  | Recorded u32 u32 addr nat

inductive rw_step :: "reply_state \<Rightarrow> rw_event \<Rightarrow> reply_state \<Rightarrow> bool" where
  looked_up: "r < x \<Longrightarrow> checkduplicate_and_update c x r st = Inr (a, st') \<Longrightarrow>
     rw_step st (Checked c x r a) st'"
| recorded: "\<not> live st b \<Longrightarrow>
     rw_step st (Recorded c x b s) (add_reply c x (Some b) s (st\<lparr>live := (live st)(b := True)\<rparr>))"

inductive_cases rw_stepE: "rw_step st e st'"

inductive rw_run :: "reply_state \<Rightarrow> rw_event list \<Rightarrow> reply_state \<Rightarrow> bool" where
  start: "rw_run st [] st"
| next_op: "rw_run st es st' \<Longrightarrow> rw_step st' e st'' \<Longrightarrow> rw_run st (es @ [e]) st''"

lemma rw_step_inv: "rw_step st e st' \<Longrightarrow> reply_inv st \<Longrightarrow> reply_inv st'"
  by (erule rw_stepE) (simp_all add: check_inv record_inv)

lemma rw_run_inv: "rw_run st es st' \<Longrightarrow> reply_inv st \<Longrightarrow> reply_inv st'"
  by (induction rule: rw_run.induct) (auto intro: rw_step_inv)

lemma rw_run_snocE:
  assumes "rw_run st (es @ [e]) st''"
  obtains st' where "rw_run st es st'" "rw_step st' e st''"
  using assms by (auto elim: rw_run.cases)

lemma rw_run_split:
  "rw_run st (es @ fs) st'' \<Longrightarrow> \<exists>st'. rw_run st es st' \<and> rw_run st' fs st''"
proof (induction fs arbitrary: st'' rule: rev_induct)
  case Nil
  then show ?case by (auto intro: rw_run.start)
next
  case (snoc f fs)
  then obtain t where t: "rw_run st (es @ fs) t" "rw_step t f st''"
    by (auto elim: rw_run_snocE simp flip: append_assoc)
  with snoc.IH [OF t(1)] show ?case by (blast intro: rw_run.next_op)
qed

lemma step_window:
  assumes "reply_inv st" "rw_step st e st'"
  shows "case e of
      Checked c x r a \<Rightarrow> r < x \<and> a = answer_ref x (kept r (window_of st c)) \<and>
        window_of st' c = window_ref x (kept r (window_of st c)) \<and>
        (\<forall>d. d \<noteq> c \<longrightarrow> window_of st' d = window_of st d)
    | Recorded c x b s \<Rightarrow>
        window_of st' c = store_reply x (Some b) s (window_of st c) \<and>
        (\<forall>d. d \<noteq> c \<longrightarrow> window_of st' d = window_of st d)"
  using assms(2)
  by (cases rule: rw_step.cases) (auto simp: check_ok [OF assms(1)] add_reply_def)

section \<open>At most once\<close>

text \<open>A request that was accepted stays in the window or below its front.\<close>

definition accounted :: "reply_t list \<Rightarrow> u32 \<Rightarrow> bool" where
  "accounted w x \<longleftrightarrow> x \<in> set (xids w) \<or> (xids w \<noteq> [] \<and> x < hd (xids w))"

lemma xids_eq_Nil [simp]: "xids w = [] \<longleftrightarrow> w = []"
  by (simp add: xids_def)

lemma hd_xids: "w \<noteq> [] \<Longrightarrow> hd (xids w) = rt_xid (hd w)"
  by (cases w) auto

lemma accountedE:
  assumes "accounted w x"
  obtains e where "e \<in> set w" "x = rt_xid e" | "w \<noteq> []" "x < rt_xid (hd w)"
  using assms by (cases w) (auto simp: accounted_def)

lemma sorted_win_hd: "sorted_win w \<Longrightarrow> e \<in> set w \<Longrightarrow> rt_xid (hd w) \<le> rt_xid e"
  by (cases w) auto

lemma window_ref_hd_gt:
  assumes "\<forall>e \<in> set k. x < rt_xid e" "k = [] \<Longrightarrow> x < y"
  shows "window_ref y k \<noteq> [] \<and> x < rt_xid (hd (window_ref y k))"
proof (cases "k = []")
  case True
  with assms(2) [OF True] show ?thesis by (simp add: window_ref_def answer_ref_def lookup_reply_def)
next
  case False
  then have "hd (window_ref y k) = hd k" "window_ref y k \<noteq> []"
    using window_ref_hd [OF False] window_ref_set [of y k] by (auto simp flip: set_empty)
  with False assms(1) show ?thesis by simp
qed

lemma accounted_window_ref:
  assumes "sorted_win w" "r < y" "accounted w x"
  shows "accounted (window_ref y (kept r w)) x"
proof (cases "x \<in> rt_xid ` set (kept r w)")
  case True
  then show ?thesis by (auto simp: accounted_def window_ref_set)
next
  case False
  from assms(3) consider e where "e \<in> set w" "x = rt_xid e" | "w \<noteq> []" "x < rt_xid (hd w)"
    by (rule accountedE)
  then have below: "x < r \<or> (w \<noteq> [] \<and> (\<forall>e \<in> set w. x < rt_xid e))"
    by cases (use False sorted_win_hd [OF assms(1)] in \<open>force simp: kept_simps\<close>)+
  then have "\<forall>e \<in> set (kept r w). x < rt_xid e"
    by (auto simp: kept_simps)
  moreover have "x < y" if "kept r w = []"
  proof (cases "x < r")
    case True
    with assms(2) show ?thesis by simp
  next
    case False
    with below have "hd w \<in> set w" "x < rt_xid (hd w)" by auto
    with that kept_simps(1) [of r w] have "rt_xid (hd w) < r" by auto
    with \<open>x < rt_xid (hd w)\<close> assms(2) show ?thesis by simp
  qed
  ultimately show ?thesis
    using window_ref_hd_gt [of "kept r w" x y] by (auto simp: accounted_def hd_xids)
qed

lemma accounted_new: "fst (answer_ref x k) = NEW \<Longrightarrow> accounted (window_ref x k) x"
  by (simp add: accounted_def window_ref_set)

lemma accounted_not_new:
  assumes "sorted_win w" "r < x" "accounted w x"
  shows "fst (answer_ref x (kept r w)) \<noteq> NEW"
proof
  assume new: "fst (answer_ref x (kept r w)) = NEW"
  from assms(3) consider e where "e \<in> set w" "x = rt_xid e" | "w \<noteq> []" "x < rt_xid (hd w)"
    by (rule accountedE)
  then show False
  proof cases
    case 1
    with new assms(2) show False by (auto simp: answer_NEW_iff kept_simps)
  next
    case 2
    have "\<forall>e \<in> set w. r \<le> rt_xid e"
      using 2 assms(2) sorted_win_hd [OF assms(1)] by force
    then have "kept r w = w" by (simp add: kept_def filter_id_conv)
    with new 2 show False by (auto simp: answer_NEW_iff)
  qed
qed

definition is_new :: "u32 \<Rightarrow> u32 \<Rightarrow> rw_event \<Rightarrow> bool" where
  "is_new c x e = (case e of Checked d y r a \<Rightarrow> d = c \<and> y = x \<and> fst a = NEW | _ \<Rightarrow> False)"

lemma accounted_step:
  assumes "reply_inv st" "rw_step st e st'" "accounted (window_of st c) x"
  shows "accounted (window_of st' c) x \<and> \<not> is_new c x e"
proof (cases e)
  case (Checked d y r a)
  note s = step_window [OF assms(1,2), unfolded Checked, simplified]
  show ?thesis
  proof (cases "d = c")
    case True
    with s assms(3) accounted_window_ref [of "window_of st c" r y x] reply_invD(1) [OF assms(1)]
      accounted_not_new [of "window_of st c" r x]
    show ?thesis by (auto simp: is_new_def Checked)
  next
    case False
    with s assms(3) show ?thesis by (simp add: is_new_def Checked)
  qed
next
  case (Recorded d y b n)
  note s = step_window [OF assms(1,2), unfolded Recorded, simplified]
  with assms(3) show ?thesis
    by (cases "d = c") (simp_all add: is_new_def Recorded accounted_def)
qed

lemma new_accounted:
  assumes "reply_inv st" "rw_step st e st'" "is_new c x e"
  shows "accounted (window_of st' c) x"
proof (cases e)
  case (Checked d y r a)
  from step_window [OF assms(1,2), unfolded Checked, simplified] assms(3)
    accounted_new [of x "kept r (window_of st c)"]
  show ?thesis by (auto simp: is_new_def Checked)
qed (use assms(3) in \<open>simp add: is_new_def\<close>)

lemma at_most_once_run:
  "rw_run st es st' \<Longrightarrow> reply_inv st \<Longrightarrow>
     length (filter (is_new c x) es) \<le> 1 \<and>
     (filter (is_new c x) es \<noteq> [] \<longrightarrow> accounted (window_of st' c) x)"
proof (induction rule: rw_run.induct)
  case (start st)
  then show ?case by simp
next
  case (next_op st es st' e st'')
  from rw_run_inv [OF next_op.hyps(1) next_op.prems] have inv: "reply_inv st'" .
  show ?case
  proof (cases "is_new c x e")
    case True
    with accounted_step [OF inv next_op.hyps(2), of c x] next_op.IH [OF next_op.prems]
    have "filter (is_new c x) es = []" by blast
    with True new_accounted [OF inv next_op.hyps(2) True] show ?thesis by simp
  next
    case False
    with accounted_step [OF inv next_op.hyps(2), of c x] next_op.IH [OF next_op.prems]
    show ?thesis by auto
  qed
qed

text \<open>
  C7: at most once. In every history that starts with empty windows, whatever the number
  of clients and however requests are delayed, duplicated and reordered, a request
  \<open>(clt_nonce, xid)\<close> gets the answer \<^term>\<open>NEW\<close>, which makes \<open>dispatch\<close> run its
  handler, at most once.
\<close>

theorem at_most_once:
  assumes "rw_run reply_state_init es st"
  shows "length (filter (is_new c x) es) \<le> 1"
  using at_most_once_run [OF assms reply_inv_init] by blast

section \<open>What the answers mean\<close>

text \<open>The reply last recorded for a request.\<close>

fun last_recorded :: "u32 \<Rightarrow> u32 \<Rightarrow> rw_event list \<Rightarrow> (addr \<times> nat) option" where
  "last_recorded c x [] = None"
| "last_recorded c x (e # es) =
     (case last_recorded c x es of
        Some r \<Rightarrow> Some r
      | None \<Rightarrow> (case e of Recorded d y b s \<Rightarrow> if d = c \<and> y = x then Some (b, s) else None
                 | _ \<Rightarrow> None))"

lemma last_recorded_snoc:
  "last_recorded c x (es @ [e]) =
     (case e of Recorded d y b s \<Rightarrow> if d = c \<and> y = x then Some (b, s) else last_recorded c x es
      | _ \<Rightarrow> last_recorded c x es)"
  by (induction es) (auto split: rw_event.splits option.splits)

lemma store_reply_set_sorted:
  assumes "sorted_win w" "e \<in> set (store_reply x b s w)"
  shows "(e \<in> set w \<and> rt_xid e \<noteq> x) \<or> (rt_xid e = x \<and> rt_buf e = b \<and> rt_sz e = s)"
  using assms by (induction w) (auto split: if_splits)

definition entries_recorded :: "rw_event list \<Rightarrow> reply_state \<Rightarrow> bool" where
  "entries_recorded es st \<longleftrightarrow>
     (\<forall>c e. e \<in> set (window_of st c) \<longrightarrow> rt_cb_present e \<longrightarrow>
        (\<exists>b. rt_buf e = Some b \<and> last_recorded c (rt_xid e) es = Some (b, rt_sz e)))"

lemma entries_recorded_run:
  "rw_run st es st' \<Longrightarrow> st = reply_state_init \<Longrightarrow> entries_recorded es st'"
proof (induction rule: rw_run.induct)
  case (start st)
  then show ?case by (simp add: entries_recorded_def reply_state_init_def window_of_def)
next
  case (next_op st es st' ev st'')
  then have inv: "reply_inv st'" and inv': "reply_inv st''"
    using rw_run_inv reply_inv_init rw_step_inv by blast+
  have IH: "\<exists>b. rt_buf e = Some b \<and> last_recorded c (rt_xid e) es = Some (b, rt_sz e)"
    if "e \<in> set (window_of st' c)" "rt_cb_present e" for e c
    using next_op.IH [OF next_op.prems] that unfolding entries_recorded_def by blast
  show ?case
    unfolding entries_recorded_def
  proof (intro allI impI)
    fix c e
    assume e: "e \<in> set (window_of st'' c)" "rt_cb_present e"
    show "\<exists>b. rt_buf e = Some b \<and> last_recorded c (rt_xid e) (es @ [ev]) = Some (b, rt_sz e)"
    proof (cases ev)
      case (Checked d x r a)
      note s = step_window [OF inv next_op.hyps(2), unfolded Checked, simplified]
      from e s have "e \<in> set (window_of st' c)"
        by (cases "c = d")
          (auto simp: window_ref_set kept_simps reply_t_new_def split: if_splits)
      with IH e(2) show ?thesis by (simp add: last_recorded_snoc Checked)
    next
      case (Recorded d x b n)
      note s = step_window [OF inv next_op.hyps(2), unfolded Recorded, simplified]
      show ?thesis
      proof (cases "c = d")
        case True
        with e(1) s store_reply_set_sorted [of "window_of st' d" e x "Some b" n] reply_invD(1) [OF inv]
        show ?thesis using IH [of e c] e(2) by (auto simp: last_recorded_snoc Recorded)
      next
        case False
        with e s IH show ?thesis by (auto simp: last_recorded_snoc Recorded)
      qed
    qed
  qed
qed

text \<open>A request that was accepted stays in the window while it is not acknowledged.\<close>

definition rep_at_most :: "u32 \<Rightarrow> u32 \<Rightarrow> rw_event \<Rightarrow> bool" where
  "rep_at_most c x e = (case e of Checked d y r a \<Rightarrow> d = c \<longrightarrow> r \<le> x | _ \<Rightarrow> True)"

lemma kept_run:
  "rw_run st es st' \<Longrightarrow> reply_inv st \<Longrightarrow> list_all (rep_at_most c x) es \<Longrightarrow>
     x \<in> rt_xid ` set (window_of st c) \<Longrightarrow> x \<in> rt_xid ` set (window_of st' c)"
proof (induction rule: rw_run.induct)
  case (start st)
  then show ?case by simp
next
  case (next_op st es st' e st'')
  from rw_run_inv [OF next_op.hyps(1) next_op.prems(1)] have inv: "reply_inv st'" .
  have x: "x \<in> rt_xid ` set (window_of st' c)" using next_op by simp
  show ?case
  proof (cases e)
    case (Checked d y r a)
    note s = step_window [OF inv next_op.hyps(2), unfolded Checked, simplified]
    with x next_op.prems(2) show ?thesis
      by (cases "d = c") (auto simp: Checked rep_at_most_def window_ref_set kept_simps)
  next
    case (Recorded d y b n)
    note s = step_window [OF inv next_op.hyps(2), unfolded Recorded, simplified]
    have "rt_xid ` set (store_reply y (Some b) n w) = rt_xid ` set w" for w
      by (metis store_reply_xids xids_simps(4))
    with x s show ?thesis by (cases "d = c") auto
  qed
qed

lemma free_windows_ok:
  assumes "reply_inv st" "distinct cs"
    and "\<And>a c e. c \<in> set cs \<Longrightarrow> e \<in> set (window_of st c) \<Longrightarrow> rt_buf e = Some a \<Longrightarrow> lv a"
  shows "free_windows cs st lv = Inr (\<lambda>a. lv a \<and> (\<forall>c \<in> set cs. a \<notin> bufset (window_of st c)))"
  using assms(2,3)
proof (induction cs arbitrary: lv)
  case Nil
  then show ?case by simp
next
  case (Cons c cs)
  note i = reply_invD [OF assms(1)]
  let ?lv = "\<lambda>a. lv a \<and> a \<notin> bufset (window_of st c)"
  have "free_list (window_of st c) lv = Inr ?lv"
  proof (rule free_list_ok)
    show "sorted_win (window_of st c)" by (rule i(1))
    show "lv a" if "e \<in> set (window_of st c)" "rt_buf e = Some a" for e a
      using that Cons.prems(2) [of c e a] by simp
    show "rt_xid e = rt_xid f"
      if "e \<in> set (window_of st c)" "f \<in> set (window_of st c)" "rt_buf e = Some a" "rt_buf f = Some a"
      for e f a
      using i(4) [OF that] by simp
  qed
  moreover have "free_windows cs st ?lv =
      Inr (\<lambda>a. ?lv a \<and> (\<forall>c \<in> set cs. a \<notin> bufset (window_of st c)))"
  proof (rule Cons.IH)
    fix a d e assume e: "d \<in> set cs" "e \<in> set (window_of st d)" "rt_buf e = Some a"
    then have "lv a" using Cons.prems(2) [of d e a] by simp
    moreover have "a \<notin> bufset (window_of st c)"
      using e i(4) [of e d _ c a] Cons.prems(1) by (auto simp: bufset_def)
    ultimately show "?lv a" by simp
  qed (use Cons.prems(1) in simp)
  ultimately show ?case by (simp add: conj_assoc)
qed

text \<open>
  C15: in every reachable state the code's loop over the list, with its deletions and early
  returns, does what the reference says and never frees a buffer twice: it forgets exactly
  the entries below \<open>xid_rep\<close> and frees their buffers, answers from the entry of the
  request if there is one, refuses a request older than all that is left, and otherwise
  inserts it in order.
\<close>

theorem checkduplicate_reference:
  assumes "rw_run reply_state_init es st" "r < x"
  shows "checkduplicate_and_update c x r st =
     (let k = kept r (window_of st c) in
      Inr (answer_ref x k, set_window c (window_ref x k)
         (st\<lparr>live := trimmed_live r (window_of st c) (live st)\<rparr>)))"
  using check_ok [OF rw_run_inv [OF assms(1) reply_inv_init] assms(2)] by (simp add: Let_def)

text \<open>
  a duplicate that is answered \<^term>\<open>DONE\<close> gets the reply that was last recorded for
  this very request, and its buffer is live when the lock is released.
\<close>

lemma done_returns_recorded_reply:
  assumes "rw_run reply_state_init es st" "r < x"
    and "checkduplicate_and_update c x r st = Inr ((DONE, out), st')"
  shows "\<exists>b s. out = Some (Some b, s) \<and> last_recorded c x es = Some (b, s) \<and> live st' b"
proof -
  let ?k = "kept r (window_of st c)"
  note inv = rw_run_inv [OF assms(1) reply_inv_init]
  from check_ok [OF inv assms(2)] assms(3) have a: "answer_ref x ?k = (DONE, out)"
    and st': "st' = set_window c (window_ref x ?k)
       (st\<lparr>live := trimmed_live r (window_of st c) (live st)\<rparr>)" by simp_all
  from a obtain e where e: "lookup_reply x ?k = Some e" "rt_cb_present e" "out = Some (rt_buf e, rt_sz e)"
    by (auto simp: answer_ref_def split: option.splits if_splits)
  from lookup_reply_iff(2) [OF e(1)] have w: "rt_xid e = x" "e \<in> set ?k" by simp_all
  then have "e \<in> set (window_of st c)" by (simp add: kept_simps)
  with entries_recorded_run [OF assms(1)] e(2) w(1) obtain b
    where b: "rt_buf e = Some b" "last_recorded c x es = Some (b, rt_sz e)"
    unfolding entries_recorded_def by blast
  have "reply_inv st'" using check_inv [OF inv assms(2,3)] .
  moreover have "e \<in> set (window_of st' c)" using w(2) by (simp add: st' window_ref_set)
  ultimately have "live st' b" using b(1) reply_invD(3) by blast
  with b e(3) show ?thesis by blast
qed

text \<open>
  The reply of a request is kept until the client acknowledges it. After a request was
  accepted, and while no request of the same client carries an \<open>xid_rep\<close> above it, a
  retransmission is answered \<^term>\<open>INPROGRESS\<close> or \<^term>\<open>DONE\<close>: it is neither run again
  nor refused as forgotten.
\<close>

lemma unacknowledged_reply_kept:
  assumes "rw_run reply_state_init (es @ Checked c x r (NEW, out) # fs) st"
    and "list_all (rep_at_most c x) fs" "r' < x"
  shows "\<exists>a st'. checkduplicate_and_update c x r' st = Inr (a, st') \<and> fst a \<in> {INPROGRESS, DONE}"
proof -
  from rw_run_split [of reply_state_init "es @ [Checked c x r (NEW, out)]" fs st] assms(1)
  obtain s2 where s2: "rw_run reply_state_init (es @ [Checked c x r (NEW, out)]) s2" "rw_run s2 fs st"
    by auto
  from rw_run_snocE [OF s2(1)] obtain s1
    where s1: "rw_run reply_state_init es s1" "rw_step s1 (Checked c x r (NEW, out)) s2" by blast
  note inv1 = rw_run_inv [OF s1(1) reply_inv_init]
  note inv2 = rw_run_inv [OF s2(1) reply_inv_init]
  from step_window [OF inv1 s1(2)] have "x \<in> rt_xid ` set (window_of s2 c)"
    by (auto simp: window_ref_set dest: sym)
  with kept_run [OF s2(2) inv2 assms(2)] have "x \<in> rt_xid ` set (window_of st c)" by simp
  then have "x \<in> rt_xid ` set (kept r' (window_of st c))"
    using assms(3) by (auto simp: kept_simps)
  then obtain e where "lookup_reply x (kept r' (window_of st c)) = Some e"
    using lookup_reply_iff(1) by fastforce
  then have "fst (answer_ref x (kept r' (window_of st c))) \<in> {INPROGRESS, DONE}"
    by (simp add: answer_ref_def)
  with check_ok [OF rw_run_inv [OF s2(2) inv2] assms(3)] show ?thesis by simp
qed

text \<open>
  tearing the server down frees every buffer the windows hold, each exactly once, and
  empties the windows.
\<close>

lemma free_reply_window_frees_all:
  assumes "rw_run reply_state_init es st" "distinct keys"
    and "\<And>c. reply_window st c \<noteq> None \<Longrightarrow> c \<in> set keys"
  shows "\<exists>st'. free_reply_window keys st = Inr st' \<and> (\<forall>c. window_of st' c = []) \<and>
     (\<forall>a. live st' a \<longleftrightarrow> live st a \<and> (\<forall>c. \<forall>e \<in> set (window_of st c). rt_buf e \<noteq> Some a))"
proof -
  note inv = rw_run_inv [OF assms(1) reply_inv_init]
  have "free_windows keys st (live st) =
      Inr (\<lambda>a. live st a \<and> (\<forall>c \<in> set keys. a \<notin> bufset (window_of st c)))"
    using reply_invD(3) [OF inv] by (intro free_windows_ok [OF inv assms(2)]) blast
  moreover have keys: "c \<in> set keys" if "e \<in> set (window_of st c)" for c e
    using that assms(3) [of c] by (cases "reply_window st c") (simp_all add: window_of_def)
  moreover have "(\<forall>c \<in> set keys. a \<notin> bufset (window_of st c)) \<longleftrightarrow>
      (\<forall>c. \<forall>e \<in> set (window_of st c). rt_buf e \<noteq> Some a)" for a
    unfolding bufset_def using keys by blast
  moreover have "window_of (st\<lparr>reply_window := (\<lambda>_. None), live := lv\<rparr>) c = []" for lv c
    by (simp add: window_of_def)
  ultimately show ?thesis by (simp add: free_reply_window_def)
qed

text \<open>
  the answer \<^term>\<open>FORGOTTEN\<close> is also given to a request that was never seen. When two
  requests of one client reach an empty window in the wrong order, the older one is refused.
\<close>

lemma unseen_request_forgotten:
  "\<exists>st. rw_run reply_state_init
     [Checked 7 4 2 (NEW, None), Checked 7 3 2 (FORGOTTEN, None)] st"
proof -
  let ?s = "set_window 7 [reply_t_new 4] reply_state_init"
  have 1: "checkduplicate_and_update 7 4 2 reply_state_init = Inr ((NEW, None), ?s)"
    by (simp add: checkduplicate_and_update_def reply_state_init_def window_of_def)
  have 2: "checkduplicate_and_update 7 3 2 ?s = Inr ((FORGOTTEN, None), ?s)"
    by (simp add: checkduplicate_and_update_def) (simp add: set_window_def)
  have "rw_run reply_state_init ([] @ [Checked 7 4 2 (NEW, None)]) ?s"
    by (rule rw_run.next_op [OF rw_run.start rw_step.looked_up [OF _ 1]]) simp
  from rw_run.next_op [OF this rw_step.looked_up [OF _ 2]] show ?thesis by auto
qed

section \<open>A concrete history\<close>

text \<open>
  A client with nonce 7 sends request 1, its reply is recorded, a duplicate is answered, and
  request 2 acknowledges it.
\<close>

definition sample_events :: "rw_event list" where
  "sample_events =
     [Checked 7 1 0 (NEW, None), Recorded 7 1 11 32, Checked 7 1 0 (DONE, Some (Some 11, 32)),
      Checked 7 2 1 (NEW, None)]"

definition sample_state :: reply_state where
  "sample_state =
     \<lparr>reply_window = (\<lambda>_. None)(7 \<mapsto> [\<lparr>rt_xid = 1, rt_cb_present = True, rt_buf = Some 11, rt_sz = 32\<rparr>,
        reply_t_new 2]),
      live = (\<lambda>_. False)(11 := True)\<rparr>"

lemma sample_run: "rw_run reply_state_init sample_events sample_state"
proof -
  let ?e = "\<lparr>rt_xid = 1, rt_cb_present = True, rt_buf = Some 11, rt_sz = 32\<rparr>"
  let ?s1 = "\<lparr>reply_window = (\<lambda>_. None)(7 \<mapsto> [reply_t_new 1]), live = (\<lambda>_. False)\<rparr>"
  let ?s2 = "\<lparr>reply_window = (\<lambda>_. None)(7 \<mapsto> [?e]), live = (\<lambda>_. False)(11 := True)\<rparr>"
  note eval = checkduplicate_and_update_def window_of_def set_window_def reply_state_init_def
    add_reply_def reply_t_new_def sample_state_def
  have 1: "rw_step reply_state_init (Checked 7 1 0 (NEW, None)) ?s1"
    by (rule rw_step.looked_up) (simp_all add: eval)
  have 2: "rw_step ?s1 (Recorded 7 1 11 32) ?s2"
    using rw_step.recorded [of ?s1 11 7 1 32] by (simp add: eval)
  have 3: "rw_step ?s2 (Checked 7 1 0 (DONE, Some (Some 11, 32))) ?s2"
    by (rule rw_step.looked_up) (simp_all add: eval)
  have 4: "rw_step ?s2 (Checked 7 2 1 (NEW, None)) sample_state"
    by (rule rw_step.looked_up) (simp_all add: eval)
  from rw_run.start 1 have "rw_run reply_state_init ([] @ [Checked 7 1 0 (NEW, None)]) ?s1"
    by (rule rw_run.next_op)
  note rw_run.next_op [OF rw_run.next_op [OF rw_run.next_op [OF this 2] 3] 4]
  then show ?thesis by (simp add: sample_events_def)
qed

theorem at_most_once_witness: "length (filter (is_new 7 1) sample_events) \<le> 1"
  by (rule at_most_once [OF sample_run])

theorem checkduplicate_reference_witness:
  "checkduplicate_and_update 7 3 2 sample_state =
     (let k = kept 2 (window_of sample_state 7) in
      Inr (answer_ref 3 k, set_window 7 (window_ref 3 k)
         (sample_state\<lparr>live := trimmed_live 2 (window_of sample_state 7) (live sample_state)\<rparr>)))"
  by (rule checkduplicate_reference [OF sample_run]) simp

lemma done_returns_recorded_reply_witness:
  "\<exists>b s. Some (Some 11, 32) = Some (Some b, s) \<and> last_recorded 7 1 sample_events = Some (b, s) \<and>
     live sample_state b"
proof -
  have "checkduplicate_and_update 7 1 0 sample_state = Inr ((DONE, Some (Some 11, 32)), sample_state)"
    by (simp add: checkduplicate_and_update_def window_of_def set_window_def sample_state_def)
  from done_returns_recorded_reply [OF sample_run _ this] show ?thesis by simp
qed

lemma unacknowledged_reply_kept_witness:
  "\<exists>a st'. checkduplicate_and_update 7 1 0 sample_state = Inr (a, st') \<and> fst a \<in> {INPROGRESS, DONE}"
proof -
  have "rw_run reply_state_init ([] @ Checked 7 1 0 (NEW, None) # tl sample_events) sample_state"
    using sample_run by (simp add: sample_events_def)
  from unacknowledged_reply_kept [OF this] show ?thesis
    by (simp add: sample_events_def rep_at_most_def)
qed

lemma free_reply_window_frees_all_witness:
  "\<exists>st'. free_reply_window [7] sample_state = Inr st' \<and> (\<forall>c. window_of st' c = []) \<and>
     (\<forall>a. live st' a \<longleftrightarrow> live sample_state a \<and>
        (\<forall>c. \<forall>e \<in> set (window_of sample_state c). rt_buf e \<noteq> Some a))"
  by (rule free_reply_window_frees_all [OF sample_run])
    (auto simp: sample_state_def split: if_splits)


end
