(* ===== verification/LockServer.thy ===== *)
theory LockServer
  imports Stubs
begin

text \<open>
  The lock server (\<open>lock_protocol.h\<close>, \<open>lock_server.h\<close>, \<open>lock_server.cc\<close>): the
  \<open>lock\<close> class, the three handlers, and the monitor they form. A handler runs under
  \<open>mutex\<close> from \<open>pthread_mutex_lock\<close> to \<open>pthread_cond_wait\<close> or
  \<open>pthread_mutex_unlock\<close>; each such section is one function on the table of locks, and a
  history is a sequence of sections of any number of threads. Condition variables are the
  ones of POSIX: a signal wakes one waiter if there is one, a waiter may also wake up
  without a signal, and a woken thread competes for the mutex with everybody else.
\<close>

section \<open>lock_protocol\<close>

definition lock_OK :: i32 where "lock_OK = 0"

definition proc_acquire :: u32 where "proc_acquire = 0x7001"

definition proc_release :: u32 where "proc_release = 0x7002"

definition proc_subscribe :: u32 where "proc_subscribe = 0x7003"

definition proc_stat :: u32 where "proc_stat = 0x7004"

section \<open>The class lock\<close>

datatype st = locked | free

record lock =
  lk_lid :: u64
  lk_clt :: i32
  lk_state :: st

definition lock_new :: "u64 \<Rightarrow> lock" where
  "lock_new lid = \<lparr>lk_lid = lid, lk_clt = 0, lk_state = free\<rparr>"

definition Is_Locked :: "lock \<Rightarrow> bool" where
  "Is_Locked l = (if lk_state l = locked then True else False)"

definition Get_Owner :: "lock \<Rightarrow> i32" where
  "Get_Owner l = lk_clt l"

definition Set_Locked :: "i32 \<Rightarrow> lock \<Rightarrow> bool \<times> lock" where
  "Set_Locked c l =
     (if lk_state l = free then (True, l\<lparr>lk_state := locked, lk_clt := c\<rparr>) else (False, l))"

definition Set_Free :: "lock \<Rightarrow> lock" where
  "Set_Free l = l\<lparr>lk_state := free, lk_clt := 0\<rparr>"

section \<open>The handlers\<close>

text \<open>
  \<open>mapLocks\<close> never holds a null pointer that survives: \<open>mapLocks[lid]\<close> of an unknown
  \<open>lid\<close> inserts one, but the call that follows dereferences it.
\<close>

record lock_server =
  nacquire :: i32
  mapLocks :: "u64 \<Rightarrow> lock option"

definition lock_server_new :: lock_server where
  "lock_server_new = \<lparr>nacquire = 0, mapLocks = (\<lambda>_. None)\<rparr>"

definition put_lock :: "u64 \<Rightarrow> lock \<Rightarrow> lock_server \<Rightarrow> lock_server" where
  "put_lock lid l ls = ls\<lparr>mapLocks := (mapLocks ls)(lid \<mapsto> l)\<rparr>"

text \<open>\<open>stat\<close> returns its status and, through \<open>r\<close>, \<open>nacquire\<close>.\<close>

definition lock_stat :: "i32 \<Rightarrow> u64 \<Rightarrow> lock_server \<Rightarrow> (lock_server, i32) meth_result" where
  "lock_stat clt lid ls = Inr (ls, lock_OK, nacquire ls)"

text \<open>
  \<open>grant\<close>: the test of the while loop, where \<^term>\<open>None\<close> is the call of
  \<open>pthread_cond_wait\<close>, and the section from the entry of the handler.
\<close>

definition grant_test :: "i32 \<Rightarrow> u64 \<Rightarrow> lock_server \<Rightarrow> lock_server option outcome" where
  "grant_test clt lid ls =
     (case mapLocks ls lid of
        None \<Rightarrow> Inl Null_deref
      | Some l \<Rightarrow>
          if Is_Locked l then Inr None
          else Inr (Some (put_lock lid (snd (Set_Locked clt l)) ls)))"

definition grant_enter :: "i32 \<Rightarrow> u64 \<Rightarrow> lock_server \<Rightarrow> lock_server option outcome" where
  "grant_enter clt lid ls =
     (if mapLocks ls lid \<noteq> None then grant_test clt lid ls
      else Inr (Some (put_lock lid (snd (Set_Locked clt (lock_new lid))) ls)))"

text \<open>What \<open>grant\<close> and \<open>release\<close> return after the mutex is unlocked.\<close>

definition lock_reply :: "lock_server \<Rightarrow> i32 \<times> i32" where
  "lock_reply ls = (lock_OK, nacquire ls)"

text \<open>\<open>release\<close>: the flag says whether \<open>cond_lock\<close> was signalled.\<close>

definition release_section :: "i32 \<Rightarrow> u64 \<Rightarrow> lock_server \<Rightarrow> (lock_server \<times> bool) outcome" where
  "release_section clt lid ls =
     (case mapLocks ls lid of
        None \<Rightarrow> Inl Null_deref
      | Some l \<Rightarrow>
          if Is_Locked l then
            if clt = Get_Owner l then Inr (put_lock lid (Set_Free l) ls, True)
            else Inr (ls, False)
          else Inr (ls, False))"

section \<open>The contract of a lock table\<close>

text \<open>
  What the users of the table rely on: who owns which lock, that a free lock is granted
  and a held one is not, and that only the owner frees it.
\<close>

locale lock_table =
  fixes owner :: "'s \<Rightarrow> 'l \<Rightarrow> 'c option"
    and enter :: "'c \<Rightarrow> 'l \<Rightarrow> 's \<Rightarrow> 's option outcome"
    and retest :: "'c \<Rightarrow> 'l \<Rightarrow> 's \<Rightarrow> 's option outcome"
    and rel :: "'c \<Rightarrow> 'l \<Rightarrow> 's \<Rightarrow> ('s \<times> bool) outcome"
    and known :: "'s \<Rightarrow> 'l \<Rightarrow> bool"
  assumes enter_free: "owner s l = None \<Longrightarrow> \<exists>s'. enter c l s = Inr (Some s') \<and>
      owner s' = (owner s)(l \<mapsto> c) \<and> (\<forall>k. known s' k \<longleftrightarrow> known s k \<or> k = l)"
    and enter_held: "owner s l = Some d \<Longrightarrow> enter c l s = Inr None"
    and retest_enter: "known s l \<Longrightarrow> retest c l s = enter c l s"
    and rel_owner: "owner s l = Some c \<Longrightarrow> \<exists>s'. rel c l s = Inr (s', True) \<and>
      owner s' = (owner s)(l := None) \<and> known s' = known s"
    and rel_other: "owner s l \<noteq> Some c \<Longrightarrow> known s l \<Longrightarrow> rel c l s = Inr (s, False)"
    and rel_unknown: "\<not> known s l \<Longrightarrow> rel c l s = Inl Null_deref"
    and owned_known: "owner s l \<noteq> None \<Longrightarrow> known s l"
begin

lemma enter_cases:
  assumes "enter c l s = Inr r"
  shows "case r of
      None \<Rightarrow> owner s l \<noteq> None
    | Some s' \<Rightarrow> owner s l = None \<and> owner s' = (owner s)(l \<mapsto> c) \<and>
        (\<forall>k. known s' k \<longleftrightarrow> known s k \<or> k = l)"
  using assms enter_free [of s l c] enter_held [of s l _ c]
  by (cases "owner s l") (auto split: option.split)

lemma enter_total: "\<exists>r. enter c l s = Inr r"
  using enter_free [of s l c] enter_held [of s l _ c] by (cases "owner s l") auto

lemma retest_cases:
  assumes "retest c l s = Inr r" "known s l"
  shows "case r of
      None \<Rightarrow> owner s l \<noteq> None
    | Some s' \<Rightarrow> owner s l = None \<and> owner s' = (owner s)(l \<mapsto> c) \<and> known s' = known s"
  using assms enter_cases [of c l s r] by (auto simp: retest_enter split: option.splits)

lemma rel_cases:
  assumes "rel c l s = Inr (s', sig)"
  shows "known s l \<and> known s' = known s \<and>
    (if sig then owner s l = Some c \<and> owner s' = (owner s)(l := None)
     else owner s l \<noteq> Some c \<and> s' = s)"
  using assms rel_owner [of s l c] rel_other [of s l c] rel_unknown [of s l c] owned_known [of s l]
  by (cases "owner s l = Some c"; cases "known s l") auto

lemma rel_then_enter:
  assumes "owner s l = Some c"
  shows "\<exists>s' s''. rel c l s = Inr (s', True) \<and> enter d l s' = Inr (Some s'') \<and>
    owner s'' = (owner s)(l \<mapsto> d)"
proof -
  from rel_owner [OF assms] obtain s'
    where s': "rel c l s = Inr (s', True)" "owner s' = (owner s)(l := None)" by blast
  then have "owner s' l = None" by simp
  from enter_free [OF this] s' show ?thesis by fastforce
qed

end

text \<open>The owner of a lock in the table, and the table as an instance of the contract.\<close>

definition owner_of :: "lock_server \<Rightarrow> u64 \<Rightarrow> i32 option" where
  "owner_of ls lid =
     (case mapLocks ls lid of
        None \<Rightarrow> None
      | Some l \<Rightarrow> if Is_Locked l then Some (Get_Owner l) else None)"

definition known_lock :: "lock_server \<Rightarrow> u64 \<Rightarrow> bool" where
  "known_lock ls lid \<longleftrightarrow> mapLocks ls lid \<noteq> None"

lemmas lock_defs = owner_of_def known_lock_def grant_enter_def grant_test_def release_section_def
  put_lock_def Is_Locked_def Get_Owner_def Set_Locked_def Set_Free_def lock_new_def

lemma st_not_locked [simp]: "s \<noteq> locked \<longleftrightarrow> s = free"
  by (cases s) auto

interpretation table: lock_table owner_of grant_enter grant_test release_section known_lock
proof
  fix s l c
  assume "owner_of s l = None"
  then show "\<exists>s'. grant_enter c l s = Inr (Some s') \<and> owner_of s' = (owner_of s)(l \<mapsto> c) \<and>
      (\<forall>k. known_lock s' k \<longleftrightarrow> known_lock s k \<or> k = l)"
    by (cases "mapLocks s l") (auto simp: lock_defs fun_eq_iff split: if_splits)
next
  fix s l c
  assume "owner_of s l = Some c"
  then show "\<exists>s'. release_section c l s = Inr (s', True) \<and> owner_of s' = (owner_of s)(l := None) \<and>
      known_lock s' = known_lock s"
    by (cases "mapLocks s l") (auto simp: lock_defs fun_eq_iff split: if_splits)
qed (auto simp: lock_defs split: option.splits if_splits)

section \<open>The monitor\<close>

text \<open>
  A thread that is inside \<open>pthread_cond_wait\<close> is parked with its client, the lock whose
  condition variable it waits on, and whether it was woken and now waits for the mutex.
\<close>

record monitor =
  locks :: lock_server
  parked :: "nat \<Rightarrow> (i32 \<times> u64 \<times> bool) option"

definition monitor_init :: monitor where
  "monitor_init = \<lparr>locks = lock_server_new, parked = (\<lambda>_. None)\<rparr>"

datatype lock_event =
    Granted nat i32 u64
  | Blocked nat i32 u64
  | Released nat i32 u64
  | Refused nat i32 u64
  | Spurious nat

definition grants :: "u64 \<Rightarrow> lock_event \<Rightarrow> bool" where
  "grants l e = (case e of Granted t c k \<Rightarrow> k = l | _ \<Rightarrow> False)"

definition sleeps :: "monitor \<Rightarrow> u64 \<Rightarrow> nat \<Rightarrow> bool" where
  "sleeps m l t \<longleftrightarrow> (\<exists>c. parked m t = Some (c, l, False))"

definition wake :: "nat \<Rightarrow> monitor \<Rightarrow> monitor" where
  "wake t m = m\<lparr>parked := (parked m)(t := map_option (\<lambda>(c, l, w). (c, l, True)) (parked m t))\<rparr>"

inductive monitor_step :: "monitor \<Rightarrow> lock_event \<Rightarrow> monitor \<Rightarrow> bool" where
  enter_granted: "parked m t = None \<Longrightarrow> grant_enter c l (locks m) = Inr (Some ls) \<Longrightarrow>
     monitor_step m (Granted t c l) (m\<lparr>locks := ls\<rparr>)"
| enter_blocked: "parked m t = None \<Longrightarrow> grant_enter c l (locks m) = Inr None \<Longrightarrow>
     monitor_step m (Blocked t c l) (m\<lparr>parked := (parked m)(t \<mapsto> (c, l, False))\<rparr>)"
| retest_granted: "parked m t = Some (c, l, True) \<Longrightarrow> grant_test c l (locks m) = Inr (Some ls) \<Longrightarrow>
     monitor_step m (Granted t c l) (m\<lparr>locks := ls, parked := (parked m)(t := None)\<rparr>)"
| retest_blocked: "parked m t = Some (c, l, True) \<Longrightarrow> grant_test c l (locks m) = Inr None \<Longrightarrow>
     monitor_step m (Blocked t c l) (m\<lparr>parked := (parked m)(t \<mapsto> (c, l, False))\<rparr>)"
| release_refused: "parked m t = None \<Longrightarrow> release_section c l (locks m) = Inr (ls, False) \<Longrightarrow>
     monitor_step m (Refused t c l) (m\<lparr>locks := ls\<rparr>)"
| release_wakes: "parked m t = None \<Longrightarrow> release_section c l (locks m) = Inr (ls, True) \<Longrightarrow>
     sleeps m l w \<Longrightarrow> monitor_step m (Released t c l) (wake w (m\<lparr>locks := ls\<rparr>))"
| release_idle: "parked m t = None \<Longrightarrow> release_section c l (locks m) = Inr (ls, True) \<Longrightarrow>
     (\<forall>w. \<not> sleeps m l w) \<Longrightarrow> monitor_step m (Released t c l) (m\<lparr>locks := ls\<rparr>)"
| spurious: "sleeps m l t \<Longrightarrow> monitor_step m (Spurious t) (wake t m)"

inductive_cases monitor_stepE: "monitor_step m e m'"

inductive monitor_run :: "monitor \<Rightarrow> lock_event list \<Rightarrow> monitor \<Rightarrow> bool" where
  no_event: "monitor_run m [] m"
| next_event: "monitor_run m es m' \<Longrightarrow> monitor_step m' e m'' \<Longrightarrow> monitor_run m (es @ [e]) m''"

abbreviation owner :: "monitor \<Rightarrow> u64 \<Rightarrow> i32 option" where
  "owner m \<equiv> owner_of (locks m)"

lemma wake_thread_simps [simp]:
  "locks (wake t m) = locks m"
  "parked (wake t m) u =
     (if u = t then map_option (\<lambda>(c, l, w). (c, l, True)) (parked m t) else parked m u)"
  by (simp_all add: wake_def)

text \<open>
  The invariant: a parked thread waits on a lock that exists, and if the lock is free then
  some thread waiting on it was woken.
\<close>

definition monitor_inv :: "monitor \<Rightarrow> bool" where
  "monitor_inv m \<longleftrightarrow>
     (\<forall>t c l w. parked m t = Some (c, l, w) \<longrightarrow> known_lock (locks m) l \<and>
        (owner m l = None \<longrightarrow> (\<exists>u d. parked m u = Some (d, l, True))))"

lemma monitor_invD:
  assumes "monitor_inv m" "parked m t = Some (c, l, w)"
  shows "known_lock (locks m) l" and "owner m l = None \<Longrightarrow> \<exists>u d. parked m u = Some (d, l, True)"
  using assms unfolding monitor_inv_def by blast+

lemma monitor_inv_init: "monitor_inv monitor_init"
  by (simp add: monitor_inv_def monitor_init_def)

lemma owner_init: "owner monitor_init l = None"
  by (simp add: monitor_init_def lock_server_new_def owner_of_def)

text \<open>What a step does to the owners.\<close>

lemma step_owner:
  assumes "monitor_inv m" "monitor_step m e m'"
  shows "case e of
      Granted t c l \<Rightarrow> owner m l = None \<and> owner m' = (owner m)(l \<mapsto> c)
    | Blocked t c l \<Rightarrow> owner m l \<noteq> None \<and> owner m' = owner m
    | Released t c l \<Rightarrow> owner m l = Some c \<and> owner m' = (owner m)(l := None)
    | Refused t c l \<Rightarrow> owner m l \<noteq> Some c \<and> owner m' = owner m
    | Spurious t \<Rightarrow> owner m' = owner m"
  using assms(2)
proof (cases rule: monitor_step.cases)
  case (enter_granted t c l ls)
  with table.enter_cases [OF enter_granted(4)] show ?thesis by simp
next
  case (enter_blocked t c l)
  with table.enter_cases [OF enter_blocked(4)] show ?thesis by simp
next
  case (retest_granted t c l ls)
  with table.retest_cases [OF retest_granted(4)] monitor_invD(1) [OF assms(1) retest_granted(3)]
  show ?thesis by simp
next
  case (retest_blocked t c l)
  with table.retest_cases [OF retest_blocked(4)] monitor_invD(1) [OF assms(1) retest_blocked(3)]
  show ?thesis by simp
next
  case (release_refused t c l ls)
  with table.rel_cases [OF release_refused(4)] show ?thesis by simp
next
  case (release_wakes t c l ls w)
  with table.rel_cases [OF release_wakes(4)] show ?thesis by simp
next
  case (release_idle t c l ls)
  with table.rel_cases [OF release_idle(4)] show ?thesis by simp
qed simp

lemma step_known:
  assumes "monitor_inv m" "monitor_step m e m'" "known_lock (locks m) l"
  shows "known_lock (locks m') l"
  using assms(2)
proof (cases rule: monitor_step.cases)
  case (enter_granted t c l ls)
  with table.enter_cases [OF enter_granted(4)] assms(3) show ?thesis by simp
next
  case (retest_granted t c l ls)
  with table.retest_cases [OF retest_granted(4)] monitor_invD(1) [OF assms(1) retest_granted(3)]
    assms(3)
  show ?thesis by simp
next
  case (release_refused t c l ls)
  with table.rel_cases [OF release_refused(4)] assms(3) show ?thesis by simp
next
  case (release_wakes t c l ls w)
  with table.rel_cases [OF release_wakes(4)] assms(3) show ?thesis by simp
next
  case (release_idle t c l ls)
  with table.rel_cases [OF release_idle(4)] assms(3) show ?thesis by simp
qed (use assms(3) in simp_all)

text \<open>
  Every step keeps the invariant. Only a release makes a lock free, and then it wakes a
  sleeper if there is one; a woken thread goes back to sleep only on a held lock.
\<close>

lemma step_inv:
  assumes inv: "monitor_inv m" and step: "monitor_step m e m'"
  shows "monitor_inv m'"
  unfolding monitor_inv_def
proof (intro allI impI conjI)
  note own = step_owner [OF inv step]
  fix t c l w
  assume p: "parked m' t = Some (c, l, w)"
  show "known_lock (locks m') l"
    using step
  proof (cases rule: monitor_step.cases)
    case (enter_blocked u d k)
    from table.enter_cases [OF enter_blocked(4)] have "owner m k \<noteq> None" by simp
    then have "known_lock (locks m) k" by (rule table.owned_known)
    with enter_blocked p monitor_invD(1) [OF inv] show ?thesis by (auto split: if_splits)
  qed (use p monitor_invD(1) [OF inv] step_known [OF inv step] in
      \<open>auto simp: sleeps_def split: if_splits\<close>)
  assume free: "owner m' l = None"
  show "\<exists>u d. parked m' u = Some (d, l, True)"
    using step
  proof (cases rule: monitor_step.cases)
    case (release_wakes u d k ls v)
    show ?thesis
    proof (cases "k = l")
      case True
      with release_wakes obtain d' where "parked m v = Some (d', l, False)" by (auto simp: sleeps_def)
      with release_wakes have "parked m' v = Some (d', l, True)" by simp
      then show ?thesis by blast
    next
      case False
      with release_wakes own free have "owner m l = None" by simp
      moreover obtain w' where "parked m t = Some (c, l, w')"
        using p release_wakes by (auto split: if_splits)
      ultimately obtain x d' where "parked m x = Some (d', l, True)"
        using monitor_invD(2) [OF inv] by blast
      then have "parked m' x = Some (d', l, True)" using release_wakes by auto
      then show ?thesis by blast
    qed
  next
    case (release_idle u d k ls)
    show ?thesis
    proof (cases "k = l")
      case True
      with release_idle p have "w" by (cases w) (auto simp: sleeps_def)
      with p show ?thesis by auto
    next
      case False
      with release_idle own free have "owner m l = None" by simp
      with p release_idle monitor_invD(2) [OF inv, of t c l w] show ?thesis by simp
    qed
  next
    case (retest_granted u d k ls)
    with own free have "k \<noteq> l" "owner m l = None" by (auto split: if_splits)
    with p retest_granted monitor_invD(2) [OF inv, of t c l w] obtain x d'
      where "parked m x = Some (d', l, True)" by (auto split: if_splits)
    with \<open>k \<noteq> l\<close> retest_granted have "parked m' x = Some (d', l, True)" by auto
    then show ?thesis by blast
  next
    case (spurious k u)
    obtain w' where "parked m t = Some (c, l, w')"
      using p spurious by (auto split: if_splits)
    moreover have "owner m l = None" using own free spurious by simp
    ultimately obtain x d' where "parked m x = Some (d', l, True)"
      using monitor_invD(2) [OF inv] by blast
    then have "parked m' x = Some (d', l, True)" using spurious by auto
    then show ?thesis by blast
  next
    case (retest_blocked u d k)
    with own free have k: "k \<noteq> l" "owner m l = None" by auto
    with p retest_blocked monitor_invD(2) [OF inv, of t c l w] obtain x d'
      where "parked m x = Some (d', l, True)" by (auto split: if_splits)
    with k retest_blocked have "parked m' x = Some (d', l, True)" by auto
    then show ?thesis by blast
  next
    case (enter_blocked u d k)
    with own free have k: "k \<noteq> l" "owner m l = None" by auto
    with p enter_blocked monitor_invD(2) [OF inv, of t c l w] obtain x d'
      where "parked m x = Some (d', l, True)" by (auto split: if_splits)
    with k enter_blocked have "parked m' x = Some (d', l, True)" by auto
    then show ?thesis by blast
  next
    case (enter_granted u d k ls)
    with own free have "owner m l = None" by (auto split: if_splits)
    with p enter_granted monitor_invD(2) [OF inv, of t c l w] show ?thesis by simp
  next
    case (release_refused u d k ls)
    with own free have "owner m l = None" by simp
    with p release_refused monitor_invD(2) [OF inv, of t c l w] show ?thesis by simp
  qed
qed

lemma run_inv: "monitor_run m es m' \<Longrightarrow> monitor_inv m \<Longrightarrow> monitor_inv m'"
  by (induction rule: monitor_run.induct) (auto intro: step_inv)

lemma monitor_run_split:
  "monitor_run m (es @ fs) m'' \<Longrightarrow> \<exists>m'. monitor_run m es m' \<and> monitor_run m' fs m''"
proof (induction fs arbitrary: m'' rule: rev_induct)
  case Nil
  then show ?case by (auto intro: monitor_run.no_event)
next
  case (snoc e fs)
  then have "monitor_run m ((es @ fs) @ [e]) m''" by simp
  then obtain m' where m': "monitor_run m (es @ fs) m'" "monitor_step m' e m''"
    by (auto elim: monitor_run.cases)
  with snoc.IH [OF m'(1)] show ?case by (blast intro: monitor_run.next_event)
qed

lemma monitor_run_last:
  assumes "monitor_run m (es @ [e]) m''"
  obtains m' where "monitor_run m es m'" "monitor_step m' e m''"
  using assms by (auto elim: monitor_run.cases)

lemma owner_kept:
  "monitor_run m es m' \<Longrightarrow> monitor_inv m \<Longrightarrow> owner m l = Some c \<Longrightarrow>
     (\<forall>t. Released t c l \<notin> set es) \<Longrightarrow> owner m' l = Some c"
proof (induction rule: monitor_run.induct)
  case (next_event m es m' e m'')
  then have "owner m' l = Some c" by simp
  moreover from step_owner [OF run_inv [OF next_event.hyps(1) next_event.prems(1)] next_event.hyps(2)]
  have "case e of
      Granted t d k \<Rightarrow> owner m' k = None \<and> owner m'' = (owner m')(k \<mapsto> d)
    | Released t d k \<Rightarrow> owner m' k = Some d \<and> owner m'' = (owner m')(k := None)
    | _ \<Rightarrow> owner m'' = owner m'" by (cases e) auto
  ultimately show ?case using next_event.prems(3) by (cases e) auto
qed

section \<open>Properties\<close>

text \<open>
  C6: mutual exclusion. In every history of the server, whatever the threads do and however
  they are interleaved and woken, between two grants of a lock there is a release of that
  lock by the client it was granted to.
\<close>

theorem grants_are_separated:
  assumes "monitor_run monitor_init (es @ Granted t c l # fs @ [Granted u d l]) m"
  shows "\<exists>v. Released v c l \<in> set fs"
proof (rule ccontr)
  assume no: "\<not> ?thesis"
  from monitor_run_split [of monitor_init "es @ [Granted t c l]" "fs @ [Granted u d l]" m] assms
  obtain m2 where m2: "monitor_run monitor_init (es @ [Granted t c l]) m2"
    "monitor_run m2 (fs @ [Granted u d l]) m" by auto
  from m2(1) obtain m1 where m1: "monitor_run monitor_init es m1" "monitor_step m1 (Granted t c l) m2"
    by (rule monitor_run_last)
  from m2(2) obtain m3 where m3: "monitor_run m2 fs m3" "monitor_step m3 (Granted u d l) m"
    by (rule monitor_run_last)
  note inv1 = run_inv [OF m1(1) monitor_inv_init]
  note inv2 = run_inv [OF m2(1) monitor_inv_init]
  from step_owner [OF inv1 m1(2)] have "owner m2 l = Some c" by simp
  from owner_kept [OF m3(1) inv2 this] no have "owner m3 l = Some c" by blast
  with step_owner [OF run_inv [OF m3(1) inv2] m3(2)] show False by simp
qed

text \<open>
  C28: no lost wakeup. When a lock is free and some thread waits for it inside \<open>grant\<close>, then
  a thread waiting for it was already woken, and it gets the lock as soon as it runs.
\<close>

theorem free_lock_wakes_a_waiter:
  assumes "monitor_run monitor_init es m" "parked m t = Some (c, l, w)" "owner m l = None"
  shows "\<exists>u d m'. parked m u = Some (d, l, True) \<and> monitor_step m (Granted u d l) m'"
proof -
  note inv = run_inv [OF assms(1) monitor_inv_init]
  from monitor_invD(2) [OF inv assms(2,3)] obtain u d where u: "parked m u = Some (d, l, True)" by blast
  from table.enter_free [OF assms(3), of d] table.retest_enter [OF monitor_invD(1) [OF inv u], of d]
  obtain ls where "grant_test d l (locks m) = Inr (Some ls)" by auto
  with u show ?thesis using monitor_step.retest_granted [OF u] by blast
qed

text \<open>
  a waiter is served after the release. If the owner releases a lock that a thread
  sleeps on, the release wakes one sleeper of this lock, and that thread may take the lock
  next: its \<open>grant\<close> succeeds in the state the release leaves.
\<close>

lemma release_hands_over:
  assumes "monitor_run monitor_init es m" "sleeps m l w" "owner m l = Some c" "parked m t = None"
  shows "\<exists>m' m'' d. monitor_step m (Released t c l) m' \<and> monitor_step m' (Granted w d l) m'' \<and>
     parked m w = Some (d, l, False) \<and> parked m'' w = None \<and> owner m'' l = Some d"
proof -
  note inv = run_inv [OF assms(1) monitor_inv_init]
  from assms(2) obtain d where d: "parked m w = Some (d, l, False)" by (auto simp: sleeps_def)
  from table.rel_then_enter [OF assms(3), of d] obtain s' s''
    where s: "release_section c l (locks m) = Inr (s', True)" "grant_enter d l s' = Inr (Some s'')"
      "owner_of s'' = (owner m)(l \<mapsto> d)" by blast
  let ?m' = "wake w (m\<lparr>locks := s'\<rparr>)"
  have 1: "monitor_step m (Released t c l) ?m'"
    by (rule monitor_step.release_wakes [OF assms(4) s(1) assms(2)])
  have "known_lock s' l"
    using table.rel_cases [OF s(1)] by simp
  then have "grant_test d l (locks ?m') = Inr (Some s'')"
    using s(2) table.retest_enter [of s' l d] by simp
  moreover have "parked ?m' w = Some (d, l, True)" using d by simp
  ultimately have "monitor_step ?m' (Granted w d l)
      (?m'\<lparr>locks := s'', parked := (parked ?m')(w := None)\<rparr>)"
    by (intro monitor_step.retest_granted) simp_all
  with 1 d s(3) show ?thesis by fastforce
qed

text \<open>
  Every branch of \<open>release\<close>. The owner frees the lock and signals; anybody else, and
  anybody on a free lock, changes nothing; a lock number the server never granted makes it
  call a method of a null pointer.
\<close>

lemma release_branches:
  "release_section c l ls =
     (if mapLocks ls l = None then Inl Null_deref
      else if owner_of ls l = Some c then
        Inr (ls\<lparr>mapLocks := (mapLocks ls)(l := map_option Set_Free (mapLocks ls l))\<rparr>, True)
      else Inr (ls, False))"
  by (auto simp: lock_defs split: option.splits if_splits)

text \<open>
  One request stops the server. A client that releases a lock that was never acquired
  makes \<open>release\<close> dereference the null pointer that \<open>mapLocks[lid]\<close> just inserted.
\<close>

lemma release_of_unknown_lock_crashes:
  assumes "monitor_run monitor_init es m" "\<And>e. e \<in> set es \<Longrightarrow> \<not> grants l e"
  shows "release_section c l (locks m) = Inl Null_deref"
proof -
  have "\<not> known_lock (locks m) l"
    using assms
  proof (induction es arbitrary: m rule: rev_induct)
    case Nil
    then have "m = monitor_init" by (auto elim: monitor_run.cases)
    then show ?case by (simp add: monitor_init_def lock_server_new_def known_lock_def)
  next
    case (snoc e es)
    from snoc.prems(1) obtain m1 where m1: "monitor_run monitor_init es m1" "monitor_step m1 e m"
      by (rule monitor_run_last)
    note inv = run_inv [OF m1(1) monitor_inv_init]
    have IH: "\<not> known_lock (locks m1) l" using snoc.IH [OF m1(1)] snoc.prems(2) by simp
    have e: "\<not> grants l e" using snoc.prems(2) by simp
    show ?case
      using m1(2)
    proof (cases rule: monitor_step.cases)
      case (enter_granted t d k ls)
      with table.enter_cases [OF enter_granted(4)] IH e show ?thesis by (auto simp: grants_def)
    next
      case (retest_granted t d k ls)
      with table.retest_cases [OF retest_granted(4)] monitor_invD(1) [OF inv retest_granted(3)] IH
      show ?thesis by simp
    next
      case (release_refused t d k ls)
      with table.rel_cases [OF release_refused(4)] IH show ?thesis by simp
    next
      case (release_wakes t d k ls v)
      with table.rel_cases [OF release_wakes(4)] IH show ?thesis by simp
    next
      case (release_idle t d k ls)
      with table.rel_cases [OF release_idle(4)] IH show ?thesis by simp
    qed (use IH in simp_all)
  qed
  then show ?thesis by (rule table.rel_unknown)
qed

lemma step_nacquire: "monitor_step m e m' \<Longrightarrow> nacquire (locks m') = nacquire (locks m)"
  by (erule monitor_stepE)
    (auto simp: grant_enter_def grant_test_def release_section_def put_lock_def
      split: if_splits option.splits)

text \<open>
  \<open>nacquire\<close> is never written. After any history \<open>stat\<close> reports 0 for every lock, and
  so do the results of \<open>grant\<close> and \<open>release\<close>.
\<close>

lemma stat_reports_zero:
  assumes "monitor_run monitor_init es m"
  shows "lock_stat clt lid (locks m) = Inr (locks m, lock_OK, 0) \<and> lock_reply (locks m) = (lock_OK, 0)"
proof -
  have "nacquire (locks m) = 0"
    using assms
  proof (induction es arbitrary: m rule: rev_induct)
    case Nil
    then have "m = monitor_init" by (auto elim: monitor_run.cases)
    then show ?case by (simp add: monitor_init_def lock_server_new_def)
  next
    case (snoc e es)
    from snoc.prems obtain m1 where "monitor_run monitor_init es m1" "monitor_step m1 e m"
      by (rule monitor_run_last)
    with snoc.IH show ?case by (simp add: step_nacquire)
  qed
  then show ?thesis by (simp add: lock_stat_def lock_reply_def)
qed

section \<open>A concrete history\<close>

text \<open>Thread 0 takes lock 1 for client 5, thread 1 blocks for client 6, is woken and takes it.\<close>

definition held_lock :: "i32 \<Rightarrow> lock" where
  "held_lock c = \<lparr>lk_lid = 1, lk_clt = c, lk_state = locked\<rparr>"

definition waiting_monitor :: monitor where
  "waiting_monitor = \<lparr>locks = \<lparr>nacquire = 0, mapLocks = (\<lambda>_. None)(1 \<mapsto> held_lock 5)\<rparr>,
     parked = (\<lambda>_. None)(1 \<mapsto> (6, 1, False))\<rparr>"

definition woken_monitor :: monitor where
  "woken_monitor = \<lparr>locks = \<lparr>nacquire = 0,
       mapLocks = (\<lambda>_. None)(1 \<mapsto> \<lparr>lk_lid = 1, lk_clt = 0, lk_state = free\<rparr>)\<rparr>,
     parked = (\<lambda>_. None)(1 \<mapsto> (6, 1, True))\<rparr>"

definition handed_monitor :: monitor where
  "handed_monitor = \<lparr>locks = \<lparr>nacquire = 0, mapLocks = (\<lambda>_. None)(1 \<mapsto> held_lock 6)\<rparr>,
     parked = (\<lambda>_. None)\<rparr>"

lemmas sample_monitors = waiting_monitor_def woken_monitor_def handed_monitor_def held_lock_def

lemma waiting_run: "monitor_run monitor_init [Granted 0 5 1, Blocked 1 6 1] waiting_monitor"
proof -
  let ?m = "\<lparr>locks = \<lparr>nacquire = 0, mapLocks = (\<lambda>_. None)(1 \<mapsto> held_lock 5)\<rparr>, parked = (\<lambda>_. None)\<rparr>"
  have 1: "monitor_step monitor_init (Granted 0 5 1) ?m"
    using monitor_step.enter_granted [of monitor_init 0 5 1 "locks ?m"]
    by (simp add: monitor_init_def lock_server_new_def lock_defs held_lock_def)
  have 2: "monitor_step ?m (Blocked 1 6 1) waiting_monitor"
    using monitor_step.enter_blocked [of ?m 1 6 1]
    by (simp add: lock_defs sample_monitors)
  from monitor_run.next_event [OF monitor_run.next_event [OF monitor_run.no_event 1] 2]
  show ?thesis by simp
qed

lemma woken_run:
  "monitor_run monitor_init [Granted 0 5 1, Blocked 1 6 1, Released 0 5 1] woken_monitor"
proof -
  have "sleeps waiting_monitor 1 1" by (simp add: sleeps_def sample_monitors)
  then have "monitor_step waiting_monitor (Released 0 5 1) woken_monitor"
    using monitor_step.release_wakes [of waiting_monitor 0 5 1 "locks woken_monitor" 1]
    by (simp add: lock_defs sample_monitors wake_def)
  from monitor_run.next_event [OF waiting_run this] show ?thesis by simp
qed

lemma handed_run:
  "monitor_run monitor_init [Granted 0 5 1, Blocked 1 6 1, Released 0 5 1, Granted 1 6 1] handed_monitor"
proof -
  have "monitor_step woken_monitor (Granted 1 6 1) handed_monitor"
    using monitor_step.retest_granted [of woken_monitor 1 6 1 "locks handed_monitor"]
    by (simp add: lock_defs sample_monitors)
  from monitor_run.next_event [OF woken_run this] show ?thesis by simp
qed

theorem grants_are_separated_witness: "\<exists>v. Released v 5 1 \<in> set [Blocked 1 6 1, Released 0 5 1]"
  by (rule grants_are_separated [of "[]" 0 5 1 "[Blocked 1 6 1, Released 0 5 1]" 1 6 handed_monitor])
    (use handed_run in simp)

theorem free_lock_wakes_a_waiter_witness:
  "\<exists>u d m'. parked woken_monitor u = Some (d, 1, True) \<and> monitor_step woken_monitor (Granted u d 1) m'"
  by (rule free_lock_wakes_a_waiter [OF woken_run, of 1 6 1 True])
    (simp_all add: sample_monitors owner_of_def Is_Locked_def)

lemma release_hands_over_witness:
  "\<exists>m' m'' d. monitor_step waiting_monitor (Released 0 5 1) m' \<and> monitor_step m' (Granted 1 d 1) m'' \<and>
     parked waiting_monitor 1 = Some (d, 1, False) \<and> parked m'' 1 = None \<and> owner m'' 1 = Some d"
  by (rule release_hands_over [OF waiting_run])
    (simp_all add: sleeps_def sample_monitors owner_of_def Is_Locked_def Get_Owner_def)

lemma release_of_unknown_lock_crashes_witness:
  "release_section 5 2 (locks waiting_monitor) = Inl Null_deref"
  by (rule release_of_unknown_lock_crashes [OF waiting_run]) (auto simp: grants_def)

lemma stat_reports_zero_witness:
  "lock_stat 5 1 (locks waiting_monitor) = Inr (locks waiting_monitor, lock_OK, 0) \<and>
     lock_reply (locks waiting_monitor) = (lock_OK, 0)"
  by (rule stat_reports_zero [OF waiting_run])

end
