(* ===== verification/Connection.thy ===== *)
theory Connection
  imports Marshall
begin

text \<open>
  The channel (\<open>rpc/connection.h\<close>, \<open>rpc/connection.cc\<close>): the connection object, its
  reference count, and the framing of PDUs on a non-blocking socket by \<open>writepdu\<close> and
  \<open>readpdu\<close>. What the kernel answers to \<open>read\<close> and \<open>write\<close> is an argument of every
  operation.
\<close>

section \<open>The object\<close>

definition MAX_PDU :: int where
  "MAX_PDU = 10 * 2 ^ 20"

record charbuf =
  cb_buf :: "cells option"
  cb_sz :: int
  cb_solong :: int

definition charbuf_empty :: charbuf where
  "charbuf_empty = \<lparr>cb_buf = None, cb_sz = 0, cb_solong = 0\<rparr>"

definition charbuf_of :: "cells \<Rightarrow> charbuf" where
  "charbuf_of b = \<lparr>cb_buf = Some b, cb_sz = int (length b), cb_solong = 0\<rparr>"

record connection =
  cn_fd :: int
  cn_dead :: bool
  cn_wpdu :: charbuf
  cn_rpdu :: charbuf
  cn_sec :: int
  cn_usec :: int
  cn_waiters :: int
  cn_refno :: int
  cn_lossy :: int

definition connection_new :: "int \<Rightarrow> int \<Rightarrow> int \<times> int \<Rightarrow> connection" where
  "connection_new fd lossy now =
     \<lparr>cn_fd = fd, cn_dead = False, cn_wpdu = charbuf_empty, cn_rpdu = charbuf_empty,
      cn_sec = fst now, cn_usec = snd now, cn_waiters = 0, cn_refno = 1, cn_lossy = lossy\<rparr>"

definition compare_conn :: "connection \<Rightarrow> connection \<Rightarrow> int" where
  "compare_conn c another =
     (if cn_sec c > cn_sec another then 1
      else if cn_sec c < cn_sec another then - 1
      else if cn_usec c > cn_usec another then 1
      else if cn_usec c < cn_usec another then - 1
      else 0)"

section \<open>References\<close>

text \<open>
  Connections live in a heap; \<^term>\<open>None\<close> is an object that was deleted. The destructor
  asserts that the connection is dead and that nothing is being written.
\<close>

type_synonym conn_heap = "nat \<Rightarrow> connection option"

definition delete_conn :: "nat \<Rightarrow> connection \<Rightarrow> conn_heap \<Rightarrow> conn_heap outcome" where
  "delete_conn c o1 h =
     (if \<not> cn_dead o1 then Inl Assert_failed
      else if cb_buf (cn_wpdu o1) \<noteq> None then Inl Assert_failed
      else Inr (h(c := None)))"

definition incref :: "nat \<Rightarrow> conn_heap \<Rightarrow> conn_heap outcome" where
  "incref c h =
     (case h c of
        None \<Rightarrow> Inl Use_after_free
      | Some o1 \<Rightarrow> Inr (h(c \<mapsto> o1\<lparr>cn_refno := cn_refno o1 + 1\<rparr>)))"

definition decref :: "nat \<Rightarrow> conn_heap \<Rightarrow> conn_heap outcome" where
  "decref c h =
     (case h c of
        None \<Rightarrow> Inl Use_after_free
      | Some o1 \<Rightarrow>
          let o1 = o1\<lparr>cn_refno := cn_refno o1 - 1\<rparr> in
          if cn_refno o1 < 0 then Inl Assert_failed
          else if cn_refno o1 = 0 \<and> cn_dead o1 then delete_conn c o1 h
          else Inr (h(c \<mapsto> o1)))"

definition isdead :: "nat \<Rightarrow> conn_heap \<Rightarrow> bool outcome" where
  "isdead c h = (case h c of None \<Rightarrow> Inl Use_after_free | Some o1 \<Rightarrow> Inr (cn_dead o1))"

definition ref :: "nat \<Rightarrow> conn_heap \<Rightarrow> int outcome" where
  "ref c h = (case h c of None \<Rightarrow> Inl Use_after_free | Some o1 \<Rightarrow> Inr (cn_refno o1))"

text \<open>\<open>closeconn\<close>: the flag says that the socket was shut down and is taken off the poll set.\<close>

definition closeconn :: "nat \<Rightarrow> conn_heap \<Rightarrow> (conn_heap \<times> bool) outcome" where
  "closeconn c h =
     (case h c of
        None \<Rightarrow> Inl Use_after_free
      | Some o1 \<Rightarrow>
          if \<not> cn_dead o1 then Inr (h(c \<mapsto> o1\<lparr>cn_dead := True\<rparr>), True)
          else Inr (h, False))"

lemma incref_decref:
  assumes "h c = Some o1" "0 \<le> cn_refno o1" "\<not> (cn_refno o1 = 0 \<and> cn_dead o1)"
  shows "andthen (incref c h) (decref c) = Inr h"
  using assms by (auto simp: incref_def decref_def Let_def fun_upd_idem_iff)

section \<open>writepdu\<close>

text \<open>The result of \<open>write\<close>: a number of bytes, or an error that may be \<open>EAGAIN\<close>.\<close>

datatype write_result = Wrote nat | Write_error bool

definition htonl_bytes :: "int \<Rightarrow> u8 list" where
  "htonl_bytes x = enc_u32 (of_int x)"

text \<open>The bytes that left are the third component.\<close>

definition writepdu :: "write_result \<Rightarrow> charbuf \<Rightarrow> (bool \<times> charbuf \<times> cells) outcome" where
  "writepdu res w =
     (if cb_solong w < 0 then Inl Assert_failed
      else if cb_solong w = cb_sz w then Inr (True, w, [])
      else case cb_buf w of
        None \<Rightarrow> Inl Null_deref
      | Some b \<Rightarrow>
          let b = (if cb_solong w = 0 then overwrite b 0 (map Some (htonl_bytes (cb_sz w))) else b);
              w = w\<lparr>cb_buf := Some b\<rparr>
          in case res of
            Write_error again \<Rightarrow>
              Inr (again, if again then w else w\<lparr>cb_solong := - 1, cb_sz := 0\<rparr>, [])
          | Wrote n \<Rightarrow>
              Inr (True, w\<lparr>cb_solong := cb_solong w + int n\<rparr>, take n (drop (nat (cb_solong w)) b)))"

text \<open>Calls of \<open>writepdu\<close> until one fails, one after another, with the answers of the kernel.\<close>

fun write_all :: "write_result list \<Rightarrow> charbuf \<Rightarrow> (bool \<times> charbuf \<times> cells) outcome" where
  "write_all [] w = Inr (True, w, [])"
| "write_all (r # rs) w =
     andthen (writepdu r w) (\<lambda>(ok, w, out).
     if \<not> ok then Inr (False, w, out)
     else andthen (write_all rs w) (\<lambda>(ok, w, out'). Inr (ok, w, out @ out')))"

text \<open>The kernel never takes more than it was given.\<close>

definition kernel_ok :: "write_result list \<Rightarrow> nat \<Rightarrow> bool" where
  "kernel_ok rs n \<longleftrightarrow> sum_list (map (\<lambda>r. case r of Wrote k \<Rightarrow> k | _ \<Rightarrow> 0) rs) \<le> n"

section \<open>readpdu\<close>

text \<open>
  The result of \<open>read\<close>: bytes, end of file, or an error that may be \<open>EAGAIN\<close>. \<open>errno\<close> is
  only written by an error; the flag says whether its value is \<open>EAGAIN\<close>.
\<close>

datatype read_result = Data "u8 list" | Eof | Read_error bool

definition be_int :: "u8 list \<Rightarrow> int" where
  "be_int bs = sint (push_bit 24 (ucast (bs ! 0)) OR push_bit 16 (ucast (bs ! 1)) OR
     push_bit 8 (ucast (bs ! 2)) OR ucast (bs ! 3) :: u32)"

definition set_errno :: "read_result \<Rightarrow> bool \<Rightarrow> bool" where
  "set_errno r e = (case r of Read_error again \<Rightarrow> again | _ \<Rightarrow> e)"

text \<open>
  The size is a signed \<open>int\<close>: \<open>sz+sizeof(sz)\<close> is computed as an unsigned \<open>long\<close>, so a
  size below -4 asks \<open>malloc\<close> for almost \<open>2^64\<close> bytes, which fails, and one from -4 to -1
  for less than the four bytes that are copied in.
\<close>

definition readpdu_size ::
    "read_result \<Rightarrow> charbuf \<Rightarrow> (bool \<times> charbuf) outcome" where
  "readpdu_size r1 r =
     (case r1 of
        Eof \<Rightarrow> Inr (False, r)
      | Read_error again \<Rightarrow> if again then Inl Assert_failed else Inr (False, r)
      | Data bs \<Rightarrow>
          if length bs \<noteq> 4 then Inr (False, r)
          else let sz = be_int bs in
            if sz > MAX_PDU then Inr (False, r)
            else if cb_buf r \<noteq> None then Inl Assert_failed
            else if sz + 4 < 0 then Inl Assert_failed
            else if sz + 4 < 4 then Inl Out_of_bounds
            else Inr (True, r\<lparr>cb_sz := sz, cb_solong := 4,
                   cb_buf := Some (overwrite (malloc (nat (sz + 4))) 0 (map Some bs))\<rparr>))"

text \<open>
  The second \<open>read\<close> is asked for \<open>rpdu_.sz - rpdu_.solong\<close> bytes, converted to an unsigned
  \<open>size_t\<close>. What it delivers is stored at \<open>solong\<close>.
\<close>

definition readpdu_body ::
    "read_result \<Rightarrow> bool \<Rightarrow> charbuf \<Rightarrow> (bool \<times> charbuf) outcome" where
  "readpdu_body r2 errno r =
     (case r2 of
        Data bs \<Rightarrow>
          (case cb_buf r of
             None \<Rightarrow> Inl Null_deref
           | Some b \<Rightarrow>
               if length b < nat (cb_solong r) + length bs then Inl Out_of_bounds
               else Inr (True, r\<lparr>cb_buf := Some (overwrite b (nat (cb_solong r)) (map Some bs)),
                      cb_solong := cb_solong r + int (length bs)\<rparr>))
      | _ \<Rightarrow>
          if set_errno r2 errno then Inr (True, r)
          else Inr (False, r\<lparr>cb_buf := None, cb_sz := 0, cb_solong := 0\<rparr>))"

definition readpdu ::
    "read_result \<Rightarrow> read_result \<Rightarrow> bool \<Rightarrow> charbuf \<Rightarrow> (bool \<times> charbuf) outcome" where
  "readpdu r1 r2 errno r =
     (if cb_sz r = 0
      then andthen (readpdu_size r1 r) (\<lambda>(ok, r).
        if ok then readpdu_body r2 (set_errno r1 errno) r else Inr (False, r))
      else readpdu_body r2 errno r)"

section \<open>read_cb\<close>

text \<open>
  \<open>accept\<close> is what \<open>mgr_->got_pdu\<close> answers. The result says which bytes it was called
  with, if it was called.
\<close>

definition read_cb ::
    "read_result \<Rightarrow> read_result \<Rightarrow> bool \<Rightarrow> bool \<Rightarrow> connection \<Rightarrow> (connection \<times> cells option) outcome"
  where
  "read_cb r1 r2 errno accept c =
     (if cn_dead c then Inr (c, None)
      else andthen
        (if cb_buf (cn_rpdu c) = None \<or> cb_solong (cn_rpdu c) < cb_sz (cn_rpdu c)
         then readpdu r1 r2 errno (cn_rpdu c) else Inr (True, cn_rpdu c)) (\<lambda>(succ, r).
        let c = c\<lparr>cn_rpdu := r, cn_dead := \<not> succ\<rparr> in
        case cb_buf r of
          None \<Rightarrow> Inr (c, None)
        | Some b \<Rightarrow>
            if cb_sz r = cb_solong r
            then Inr (if accept then c\<lparr>cn_rpdu := charbuf_empty\<rparr> else c, Some (take (nat (cb_sz r)) b))
            else Inr (c, None)))"

section \<open>Framing\<close>

text \<open>A PDU as it goes over the wire: its first four bytes are its size.\<close>

definition framed :: "cells \<Rightarrow> cells" where
  "framed b = overwrite b 0 (map Some (htonl_bytes (int (length b))))"

lemma length_htonl [simp]: "length (htonl_bytes x) = 4"
  by (simp add: htonl_bytes_def enc_u32_def)

lemma length_framed [simp]: "4 \<le> length b \<Longrightarrow> length (framed b) = length b"
  by (simp add: framed_def)

lemma overwrite_idem:
  "length ys \<le> length xs \<Longrightarrow> overwrite (overwrite xs 0 ys) 0 ys = overwrite xs 0 ys"
  by (simp add: overwrite_def)

text \<open>The invariant of a transfer: \<open>k\<close> bytes left, and the header is in place once \<open>k > 0\<close>.\<close>

definition sending :: "cells \<Rightarrow> nat \<Rightarrow> charbuf \<Rightarrow> bool" where
  "sending b k w \<longleftrightarrow> cb_sz w = int (length b) \<and> cb_solong w = int k \<and> k \<le> length b \<and>
     (cb_buf w = Some (framed b) \<or> (k = 0 \<and> cb_buf w = Some b))"

lemma writepdu_step:
  assumes "sending b k w" "4 \<le> length b" "case r of Wrote n \<Rightarrow> k + n \<le> length b | _ \<Rightarrow> True"
  shows "\<exists>ok w' out. writepdu r w = Inr (ok, w', out) \<and>
     (ok \<longrightarrow> sending b (k + length out) w') \<and>
     out = take (length out) (drop k (framed b)) \<and>
     (case r of Wrote n \<Rightarrow> ok \<and> length out \<le> n | Write_error again \<Rightarrow> out = [] \<and> (again \<longrightarrow> ok))"
proof (cases "k = length b")
  case True
  with assms show ?thesis by (auto simp: writepdu_def sending_def split: write_result.split)
next
  case False
  have ow: "overwrite (framed b) 0 (map Some (htonl_bytes (int (length b)))) = framed b"
    using assms(2) by (simp add: framed_def overwrite_idem)
  then have "writepdu r w = (let w = w\<lparr>cb_buf := Some (framed b)\<rparr> in case r of
            Write_error again \<Rightarrow>
              Inr (again, if again then w else w\<lparr>cb_solong := - 1, cb_sz := 0\<rparr>, [])
          | Wrote n \<Rightarrow> Inr (True, w\<lparr>cb_solong := cb_solong w + int n\<rparr>, take n (drop k (framed b))))"
    using assms(1) False by (auto simp: writepdu_def sending_def Let_def framed_def [symmetric] split: write_result.split)
  then have w: "writepdu r w = (case r of
            Write_error again \<Rightarrow>
              Inr (again, if again then w\<lparr>cb_buf := Some (framed b)\<rparr>
                else w\<lparr>cb_buf := Some (framed b), cb_solong := - 1, cb_sz := 0\<rparr>, [])
          | Wrote n \<Rightarrow> Inr (True, w\<lparr>cb_buf := Some (framed b), cb_solong := cb_solong w + int n\<rparr>,
              take n (drop k (framed b))))"
    by (simp add: Let_def split: write_result.split)
  have s: "sending b k (w\<lparr>cb_buf := Some (framed b)\<rparr>)" using assms(1) by (simp add: sending_def)
  show ?thesis
  proof (cases r)
    case (Wrote n)
    with assms(2,3) have n: "k + n \<le> length b" "length (take n (drop k (framed b))) = n" by simp_all
    then have "sending b (k + n) (w\<lparr>cb_buf := Some (framed b), cb_solong := cb_solong w + int n\<rparr>)"
      using s by (simp add: sending_def)
    with w n show ?thesis by (auto simp: Wrote)
  next
    case (Write_error again)
    with w s show ?thesis by simp
  qed
qed

lemma write_all_run:
  "sending b k w \<Longrightarrow> 4 \<le> length b \<Longrightarrow> kernel_ok rs (length b - k) \<Longrightarrow>
     \<exists>ok w' out. write_all rs w = Inr (ok, w', out) \<and>
       out = take (length out) (drop k (framed b)) \<and> (ok \<longrightarrow> sending b (k + length out) w')"
proof (induction rs arbitrary: k w)
  case Nil
  then show ?case by auto
next
  case (Cons r rs)
  have "k \<le> length b" using Cons.prems(1) by (simp add: sending_def)
  then have "case r of Wrote n \<Rightarrow> k + n \<le> length b | _ \<Rightarrow> True"
    using Cons.prems(3) by (auto simp: kernel_ok_def split: write_result.split)
  from writepdu_step [OF Cons.prems(1,2) this] obtain ok w' out
    where w': "writepdu r w = Inr (ok, w', out)" "ok \<Longrightarrow> sending b (k + length out) w'"
      "out = take (length out) (drop k (framed b))"
      "case r of Wrote n \<Rightarrow> ok \<and> length out \<le> n | Write_error again \<Rightarrow> out = [] \<and> (again \<longrightarrow> ok)"
    by blast
  show ?case
  proof (cases ok)
    case False
    with w'(1) have "write_all (r # rs) w = Inr (False, w', out)" by simp
    with w'(3) show ?thesis by blast
  next
    case True
    have "kernel_ok rs (length b - (k + length out))"
      using Cons.prems(3) w'(4) by (cases r) (auto simp: kernel_ok_def)
    from Cons.IH [OF w'(2) [OF True] Cons.prems(2) this] obtain ok2 w2 out2
      where 2: "write_all rs w' = Inr (ok2, w2, out2)"
        "out2 = take (length out2) (drop (k + length out) (framed b))"
        "ok2 \<Longrightarrow> sending b (k + length out + length out2) w2" by blast
    have "out @ out2 = take (length out + length out2) (drop k (framed b))"
    proof -
      have "out2 = take (length out2) (drop (length out) (drop k (framed b)))"
        using 2(2) by (simp add: add.commute)
      with w'(3) show ?thesis by (metis take_add)
    qed
    then have "out @ out2 = take (length (out @ out2)) (drop k (framed b))"
      unfolding length_append .
    moreover have "write_all (r # rs) w = Inr (ok2, w2, out @ out2)"
      using True w'(1) 2(1) by simp
    moreover have "ok2 \<longrightarrow> sending b (k + length (out @ out2)) w2"
      using 2(3) by (simp add: add.assoc)
    ultimately show ?thesis by blast
  qed
qed

text \<open>
  framing on the sending side. However the kernel cuts the writes, whatever it
  refuses with \<open>EAGAIN\<close> in between and wherever it fails, the bytes that left are a prefix
  of the frame: the four bytes of the size in network order and the rest of the buffer; and
  when \<open>writepdu\<close> reports that all was sent, they are the whole frame.
\<close>

lemma write_all_sends_frame:
  assumes "4 \<le> length b" "kernel_ok rs (length b)"
  shows "\<exists>ok w out. write_all rs (charbuf_of b) = Inr (ok, w, out) \<and>
     out = take (length out) (framed b) \<and>
     (ok \<and> cb_solong w = cb_sz w \<longleftrightarrow> ok \<and> out = framed b)"
proof -
  have "sending b 0 (charbuf_of b)" by (simp add: sending_def charbuf_of_def)
  from write_all_run [OF this assms(1), of rs] assms(2) obtain ok w out
    where 1: "write_all rs (charbuf_of b) = Inr (ok, w, out)"
      "out = take (length out) (framed b)" "ok \<longrightarrow> sending b (length out) w" by (auto simp del: split_paired_Ex)
  have "ok \<Longrightarrow> cb_solong w = cb_sz w \<longleftrightarrow> length out = length b"
    using 1(3) by (simp add: sending_def)
  moreover have "length out = length b \<longleftrightarrow> out = framed b"
    using 1(2) assms(1) by (metis length_framed take_all_iff le_refl)
  ultimately show ?thesis using 1(1,2) by blast
qed

lemma write_all_sends_frame_witness:
  "\<exists>ok w out. write_all [Wrote 2, Write_error True, Wrote 3] (charbuf_of (map Some [0, 0, 0, 0, 7])) =
       Inr (ok, w, out) \<and>
     out = take (length out) (framed (map Some [0, 0, 0, 0, 7])) \<and>
     (ok \<and> cb_solong w = cb_sz w \<longleftrightarrow> ok \<and> out = framed (map Some [0, 0, 0, 0, 7]))"
  by (rule write_all_sends_frame) (simp_all add: kernel_ok_def)

section \<open>Reassembly\<close>

text \<open>
  One round of the poll loop on a readable socket whose unread bytes are \<open>inq\<close>: the kernel
  delivers the four bytes of a size if a PDU starts, and then at most \<open>m\<close> of the bytes
  \<open>readpdu\<close> asks for; none means that \<open>read\<close> would block.
\<close>

definition asked :: "charbuf \<Rightarrow> u8 list \<Rightarrow> nat" where
  "asked r hdr = nat (if cb_sz r = 0 then be_int hdr - 4 else cb_sz r - cb_solong r)"

primrec reader :: "nat list \<Rightarrow> connection \<Rightarrow> u8 list \<Rightarrow> (connection \<times> u8 list \<times> cells list) outcome" where
  "reader [] c inq = Inr (c, inq, [])"
| "reader (m # ms) c inq =
     (if inq = [] then Inr (c, inq, [])
      else let n = (if cb_sz (cn_rpdu c) = 0 then 4 else 0);
               bs = take (min m (asked (cn_rpdu c) (take n inq))) (drop n inq)
        in andthen (read_cb (Data (take n inq)) (if bs = [] then Read_error True else Data bs) False True c)
             (\<lambda>(c, d).
           andthen (reader ms c (drop (n + length bs) inq)) (\<lambda>(c, inq, ds).
           Inr (c, inq, (case d of None \<Rightarrow> ds | Some b \<Rightarrow> b # ds)))))"

lemma be_int_enc: "n < 2 ^ 31 \<Longrightarrow> be_int (enc_u32 (of_nat n)) = int n"
proof -
  assume n: "n < 2 ^ 31"
  have "be_int (enc_u32 (of_nat n)) = sint (of_nat n :: u32)"
    by (simp add: be_int_def enc_u32_def join_u32)
  also have "\<dots> = int n"
    using n by (simp add: sint_uint unsigned_of_nat signed_take_bit_int_eq_self take_bit_nat_eq_self
        signed_of_nat)
  finally show ?thesis .
qed

definition pdu_ok :: "u8 list \<Rightarrow> bool" where
  "pdu_ok f \<longleftrightarrow> 4 < length f \<and> int (length f) \<le> MAX_PDU \<and> take 4 f = enc_u32 (of_nat (length f))"

lemma pdu_okD:
  assumes "pdu_ok f"
  shows "4 < length f" "be_int (take 4 f) = int (length f)" "int (length f) \<le> MAX_PDU"
  using assms be_int_enc [of "length f"] by (auto simp: pdu_ok_def MAX_PDU_def)

definition partial :: "u8 list \<Rightarrow> nat \<Rightarrow> charbuf \<Rightarrow> bool" where
  "partial f k r \<longleftrightarrow> 4 \<le> k \<and> k \<le> length f \<and> cb_sz r = int (length f) \<and> cb_solong r = int k \<and>
     (\<exists>b. cb_buf r = Some b \<and> length b = length f + 4 \<and> take k b = map Some (take k f))"

lemma readpdu_size_partial:
  assumes "pdu_ok f"
  shows "\<exists>r. readpdu_size (Data (take 4 f)) charbuf_empty = Inr (True, r) \<and> partial f 4 r"
proof -
  note p = pdu_okD [OF assms]
  have "length (take 4 f) = 4" using p by simp
  then show ?thesis
    using p by (auto simp: readpdu_size_def charbuf_empty_def partial_def malloc_def overwrite_def
        nat_add_distrib take_map)
qed

lemma readpdu_body_partial:
  assumes "partial f k r" "bs = take (length bs) (drop k f)" "length bs + k \<le> length f"
  shows "\<exists>r'. readpdu_body (if bs = [] then Read_error True else Data bs) e r = Inr (True, r') \<and>
     partial f (k + length bs) r'"
proof -
  from assms(1) obtain b where b: "cb_buf r = Some b" "length b = length f + 4"
    "take k b = map Some (take k f)" by (auto simp: partial_def)
  have "take (k + length bs) (overwrite b k (map Some bs)) = map Some (take (k + length bs) f)"
    using take_overwrite_prefix [of k b "map Some bs"] b assms by (simp add: take_add take_map)
  then show ?thesis
    using assms b by (auto simp: readpdu_body_def partial_def set_errno_def)
qed

lemma read_cb_done:
  assumes "partial f (length f) r" "\<not> cn_dead c"
    and "(if cb_buf (cn_rpdu c) = None \<or> cb_solong (cn_rpdu c) < cb_sz (cn_rpdu c)
         then readpdu r1 r2 errno (cn_rpdu c) else Inr (True, cn_rpdu c)) = Inr (True, r)"
  shows "read_cb r1 r2 errno True c = Inr (c\<lparr>cn_rpdu := charbuf_empty\<rparr>, Some (map Some f))"
  using assms by (auto simp: read_cb_def partial_def)

lemma read_cb_more:
  assumes "partial f k r" "k < length f" "\<not> cn_dead c"
    and "(if cb_buf (cn_rpdu c) = None \<or> cb_solong (cn_rpdu c) < cb_sz (cn_rpdu c)
         then readpdu r1 r2 errno (cn_rpdu c) else Inr (True, cn_rpdu c)) = Inr (True, r)"
  shows "read_cb r1 r2 errno True c = Inr (c\<lparr>cn_rpdu := r\<rparr>, None)"
  using assms by (auto simp: read_cb_def partial_def)

definition pending :: "connection \<Rightarrow> u8 list \<Rightarrow> u8 list list \<Rightarrow> bool" where
  "pending c inq gs \<longleftrightarrow> \<not> cn_dead c \<and>
     ((cn_rpdu c = charbuf_empty \<and> inq = concat gs) \<or>
      (\<exists>f fs k. gs = f # fs \<and> partial f k (cn_rpdu c) \<and> k < length f \<and> inq = drop k f @ concat fs))"

lemma body_round:
  assumes "partial f k r" "k < length f" "\<not> cn_dead c"
    and bs: "bs = take (min m (length f - k)) (drop k f @ rest)"
    and prep: "(if cb_buf (cn_rpdu c) = None \<or> cb_solong (cn_rpdu c) < cb_sz (cn_rpdu c)
         then readpdu r1 r2 errno (cn_rpdu c) else Inr (True, cn_rpdu c)) =
       readpdu_body r2 errno r"
    and r2: "r2 = (if bs = [] then Read_error True else Data bs)"
  shows "\<exists>c'. read_cb r1 r2 errno True c =
      Inr (c', if k + length bs = length f then Some (map Some f) else None) \<and> \<not> cn_dead c' \<and>
      (if k + length bs = length f then cn_rpdu c' = charbuf_empty
       else partial f (k + length bs) (cn_rpdu c') \<and> k + length bs < length f)"
proof -
  have b: "bs = take (min m (length f - k)) (drop k f)" using bs assms(2) by simp
  then have n: "length bs = min m (length f - k)" by simp
  with assms(2) have len: "length bs + k \<le> length f" by simp
  from b n have "bs = take (length bs) (drop k f)" by simp
  from readpdu_body_partial [OF assms(1) this len, of errno] obtain r'
    where r': "readpdu_body r2 errno r = Inr (True, r')" "partial f (k + length bs) r'"
    unfolding r2 by blast
  show ?thesis
  proof (cases "k + length bs = length f")
    case True
    with r' read_cb_done [of f r' c r1 r2 errno] assms(3) prep show ?thesis by simp
  next
    case False
    with len have "k + length bs < length f" by simp
    with r' read_cb_more [of f "k + length bs" r' c r1 r2 errno] assms(3) prep False show ?thesis
      by simp
  qed
qed

lemma reader_round:
  assumes "pending c inq (f # fs)" "pdu_ok f"
    and n: "n = (if cb_sz (cn_rpdu c) = 0 then 4 else 0)"
    and bs: "bs = take (min m (asked (cn_rpdu c) (take n inq))) (drop n inq)"
  shows "\<exists>c' d. read_cb (Data (take n inq)) (if bs = [] then Read_error True else Data bs) False True c =
      Inr (c', d) \<and>
      ((d = None \<and> pending c' (drop (n + length bs) inq) (f # fs)) \<or>
       (d = Some (map Some f) \<and> pending c' (drop (n + length bs) inq) fs))"
proof -
  note p = pdu_okD [OF assms(2)]
  define r2 where "r2 = (if bs = [] then Read_error True else Data bs)"
  have alive: "\<not> cn_dead c" using assms(1) by (simp add: pending_def)
  obtain k r where k: "partial f k r" "k < length f" "drop n inq = drop k f @ concat fs"
      "asked (cn_rpdu c) (take n inq) = length f - k" "drop n inq = drop k (f @ concat fs)"
    and prep: "(if cb_buf (cn_rpdu c) = None \<or> cb_solong (cn_rpdu c) < cb_sz (cn_rpdu c)
         then readpdu (Data (take n inq)) r2 False (cn_rpdu c) else Inr (True, cn_rpdu c)) =
       readpdu_body r2 False r"
  proof (cases "cn_rpdu c = charbuf_empty")
    case True
    with assms(1) have inq: "inq = f @ concat fs" and n4: "n = 4"
      by (auto simp: pending_def partial_def charbuf_empty_def n)
    from readpdu_size_partial [OF assms(2)] obtain r
      where r: "readpdu_size (Data (take 4 f)) charbuf_empty = Inr (True, r)" "partial f 4 r" by blast
    have "take 4 inq = take 4 f" using inq p(1) by simp
    then have "readpdu (Data (take n inq)) r2 False (cn_rpdu c) = readpdu_body r2 False r"
      using r(1) by (simp add: readpdu_def True n4 set_errno_def) (simp add: charbuf_empty_def)
    moreover have "asked (cn_rpdu c) (take n inq) = length f - 4"
      using p \<open>take 4 inq = take 4 f\<close> by (simp add: asked_def True n4 charbuf_empty_def)
    ultimately show thesis
      using that [of 4 r] r(2) p(1) inq by (simp add: True n4 charbuf_empty_def)
  next
    case False
    with assms(1) obtain k where k: "partial f k (cn_rpdu c)" "k < length f"
      "inq = drop k f @ concat fs" by (auto simp: pending_def)
    then have "cb_sz (cn_rpdu c) = int (length f)" "cb_solong (cn_rpdu c) = int k"
      by (auto simp: partial_def)
    moreover from this have "n = 0" using n k(2) by (simp split: if_splits)
    moreover have "f \<noteq> []" using k(2) by auto
    ultimately show thesis
      using that [of k "cn_rpdu c"] k by (simp add: readpdu_def asked_def)
  qed
  from body_round [OF k(1,2) alive _ prep r2_def, of m "concat fs"] bs k(3,4) obtain c'
    where c': "read_cb (Data (take n inq)) r2 False True c =
        Inr (c', if k + length bs = length f then Some (map Some f) else None)" "\<not> cn_dead c'"
      "if k + length bs = length f then cn_rpdu c' = charbuf_empty
       else partial f (k + length bs) (cn_rpdu c') \<and> k + length bs < length f" by auto
  have "drop (n + length bs) inq = drop (k + length bs) (f @ concat fs)"
    using k(5) by (metis add.commute drop_drop)
  with c' show ?thesis
    unfolding r2_def [symmetric] by (auto simp: pending_def split: if_splits)
qed

lemma reader_run:
  "pending c inq gs \<Longrightarrow> \<forall>f \<in> set gs. pdu_ok f \<Longrightarrow>
     \<exists>c' inq' n. reader ms c inq = Inr (c', inq', map (map Some) (take n gs)) \<and>
       pending c' inq' (drop n gs)"
proof (induction ms arbitrary: c inq gs)
  case Nil
  then show ?case by (intro exI [of _ c] exI [of _ inq] exI [of _ 0]) simp
next
  case (Cons m ms)
  show ?case
  proof (cases "inq = []")
    case True
    with Cons.prems(1) show ?thesis
      by (intro exI [of _ c] exI [of _ inq] exI [of _ 0]) simp
  next
    case False
    with Cons.prems(1) obtain f fs where gs: "gs = f # fs"
      by (cases gs) (auto simp: pending_def)
    let ?n = "if cb_sz (cn_rpdu c) = 0 then 4 else 0"
    let ?bs = "take (min m (asked (cn_rpdu c) (take ?n inq))) (drop ?n inq)"
    let ?inq = "drop (?n + length ?bs) inq"
    from reader_round [OF Cons.prems(1) [unfolded gs] _ refl refl, of m] Cons.prems(2) gs
    obtain c1 d where 1: "read_cb (Data (take ?n inq)) (if ?bs = [] then Read_error True else Data ?bs)
        False True c = Inr (c1, d)"
      "(d = None \<and> pending c1 ?inq (f # fs)) \<or> (d = Some (map Some f) \<and> pending c1 ?inq fs)"
      by auto
    have step: "reader (m # ms) c inq = andthen (reader ms c1 ?inq) (\<lambda>(c, inq, ds).
        Inr (c, inq, (case d of None \<Rightarrow> ds | Some b \<Rightarrow> b # ds)))"
      using False 1(1) by (simp add: Let_def)
    from 1(2) show ?thesis
    proof
      assume d: "d = None \<and> pending c1 ?inq (f # fs)"
      with Cons.IH [of c1 ?inq gs] Cons.prems(2) gs obtain c' inq' n
        where "reader ms c1 ?inq = Inr (c', inq', map (map Some) (take n gs))"
          "pending c' inq' (drop n gs)" by blast
      with step d show ?thesis by (intro exI [of _ c'] exI [of _ inq'] exI [of _ n]) simp
    next
      assume d: "d = Some (map Some f) \<and> pending c1 ?inq fs"
      with Cons.IH [of c1 ?inq fs] Cons.prems(2) gs obtain c' inq' n
        where "reader ms c1 ?inq = Inr (c', inq', map (map Some) (take n fs))"
          "pending c' inq' (drop n fs)" by auto
      with step d gs show ?thesis
        by (intro exI [of _ c'] exI [of _ inq'] exI [of _ "Suc n"]) simp
    qed
  qed
qed

lemma pending_empty:
  assumes "pending c [] gs" "\<forall>f \<in> set gs. pdu_ok f"
  shows "gs = []"
proof (rule ccontr)
  assume "gs \<noteq> []"
  then obtain f fs where gs: "gs = f # fs" by (cases gs) auto
  with assms(2) have "4 < length f" by (simp add: pdu_ok_def)
  with assms(1) gs show False by (auto simp: pending_def)
qed

text \<open>
  C21: framing on the receiving side. Whatever pieces the bodies of the PDUs arrive in, a
  connection hands \<open>got_pdu\<close> exactly the frames that were sent, in order, unchanged and
  without the bytes of a neighbour, it stays alive and no access leaves the buffer; once the
  input is used up all of them have been delivered.
\<close>

theorem reader_reassembles_frames:
  assumes "\<not> cn_dead c" "cn_rpdu c = charbuf_empty" "\<forall>f \<in> set fs. pdu_ok f"
  shows "\<exists>c' inq n. reader ms c (concat fs) = Inr (c', inq, map (map Some) (take n fs)) \<and>
     \<not> cn_dead c' \<and> (inq = [] \<longrightarrow> take n fs = fs)"
proof -
  have "pending c (concat fs) fs" using assms by (simp add: pending_def)
  from reader_run [OF this assms(3), of ms] obtain c' inq n
    where 1: "reader ms c (concat fs) = Inr (c', inq, map (map Some) (take n fs))"
      "pending c' inq (drop n fs)" by blast
  have "drop n fs = []" if "inq = []"
    using pending_empty [of c' "drop n fs"] 1(2) that assms(3) by (auto dest: in_set_dropD)
  with 1 show ?thesis by (auto simp: pending_def)
qed

theorem reader_reassembles_frames_witness:
  "\<exists>c' inq n. reader [1, 0, 1, 9] (connection_new 5 0 (0, 0)) (concat [[0, 0, 0, 6, 8, 9], [0, 0, 0, 5, 1]]) =
       Inr (c', inq, map (map Some) (take n [[0, 0, 0, 6, 8, 9], [0, 0, 0, 5, 1]])) \<and>
     \<not> cn_dead c' \<and> (inq = [] \<longrightarrow>
       take n [[0, 0, 0, 6, 8, 9], [0, 0, 0, 5, 1]] = [[0, 0, 0, 6, 8, 9], [0, 0, 0, 5, 1 :: u8]])"
  by (rule reader_reassembles_frames)
    (simp_all add: connection_new_def pdu_ok_def MAX_PDU_def enc_u32_def)

text \<open>
  A size below 5 is not refused. For a size of 0, 2 or 3 the length of the second \<open>read\<close> is
  negative and becomes a huge \<open>size_t\<close>, so that what the peer sends next is stored past the
  end of the buffer; for -1 already the size itself is.
\<close>

lemma small_size_overflows:
  assumes "n < 4" "8 \<le> length bs"
  shows "readpdu (Data (enc_u32 (of_nat n))) (Data bs) e charbuf_empty = Inl Out_of_bounds \<and>
     readpdu (Data (enc_u32 (- 1))) r2 e charbuf_empty = Inl Out_of_bounds"
proof -
  have len: "length (enc_u32 x) = 4" for x by (simp add: enc_u32_def)
  have neg: "be_int (enc_u32 (- 1)) = - 1" by code_simp
  from assms(1) have "be_int (enc_u32 (of_nat n)) = int n" by (intro be_int_enc) simp
  with assms len neg show ?thesis
    by (simp add: readpdu_def readpdu_size_def readpdu_body_def charbuf_empty_def MAX_PDU_def
        malloc_def nat_add_distrib)
qed

lemma small_size_overflows_witness:
  "readpdu (Data (enc_u32 (of_nat 2))) (Data [1, 2, 3, 4, 5, 6, 7, 8]) True charbuf_empty = Inl Out_of_bounds \<and>
     readpdu (Data (enc_u32 (- 1))) Eof True charbuf_empty = Inl Out_of_bounds"
  by (rule small_size_overflows) simp_all

end
