(* ===== verification/SendQueue.thy ===== *)
theory SendQueue
  imports Connection
begin

text \<open>
  \<open>connection::send\<close> as the monitor it is: any number of threads queue for the one write
  buffer \<open>wpdu_\<close>, the poll thread completes a partial write in \<open>write_cb\<close>, and the
  connection may die under both. A section is what runs while \<open>m_\<close> is held.
\<close>

section \<open>The sections\<close>

text \<open>
  Where a thread is: not in \<open>send\<close>, waiting on \<open>send_wait_\<close> or on \<open>send_complete_\<close> (and
  whether it was woken), or in \<open>block_remove_fd\<close> after its first write failed. The cells are
  the buffer it was called with.
\<close>

datatype send_phase =
    Idle
  | Queued cells bool
  | Active cells bool
  | Removing cells

text \<open>
  The end of \<open>send\<close>: the result, the connection, and whether \<open>send_wait_\<close> is broadcast.
\<close>

definition finish_send :: "connection \<Rightarrow> bool \<times> connection \<times> bool" where
  "finish_send c =
     (let ret = (\<not> cn_dead c \<and> cb_solong (cn_wpdu c) = cb_sz (cn_wpdu c))
      in (ret, c\<lparr>cn_wpdu := charbuf_empty\<rparr>, cn_waiters c > 0))"

text \<open>
  From the test of the first loop on: return, wait, or write. The fields of the result are
  the phase the thread ends in, the result of \<open>send\<close> if it returned, the connection, the
  bytes that left, and the broadcast.
\<close>

definition send_section ::
    "write_result \<Rightarrow> cells \<Rightarrow> connection \<Rightarrow>
       (send_phase \<times> bool option \<times> connection \<times> cells \<times> bool) outcome" where
  "send_section res b c =
     (if \<not> cn_dead c \<and> cb_buf (cn_wpdu c) \<noteq> None then Inr (Queued b False, None, c, [], False)
      else let c = c\<lparr>cn_waiters := cn_waiters c - 1\<rparr> in
        if cn_dead c then Inr (Idle, Some False, c, [], False)
        else andthen (writepdu res (charbuf_of b)) (\<lambda>(ok, w, out).
          let c = c\<lparr>cn_wpdu := w\<rparr> in
          if \<not> ok then Inr (Removing b, None, c\<lparr>cn_dead := True\<rparr>, out, False)
          else if cb_solong w = cb_sz w
          then let (ret, c, br) = finish_send c in Inr (Idle, Some ret, c, out, br)
          else Inr (Active b False, None, c, out, False)))"

definition send_enter ::
    "write_result \<Rightarrow> cells \<Rightarrow> connection \<Rightarrow>
       (send_phase \<times> bool option \<times> connection \<times> cells \<times> bool) outcome" where
  "send_enter res b c = send_section res b (c\<lparr>cn_waiters := cn_waiters c + 1\<rparr>)"

text \<open>The second loop after a wake-up: \<^term>\<open>None\<close> is another wait.\<close>

definition send_complete :: "connection \<Rightarrow> (bool \<times> connection \<times> bool) option" where
  "send_complete c =
     (if \<not> cn_dead c \<and> 0 \<le> cb_solong (cn_wpdu c) \<and> cb_solong (cn_wpdu c) < cb_sz (cn_wpdu c)
      then None else Some (finish_send c))"

text \<open>\<open>write_cb\<close>: the connection, the bytes that left, and whether \<open>send_complete_\<close> is signalled.\<close>

definition write_cb :: "write_result \<Rightarrow> connection \<Rightarrow> (connection \<times> cells \<times> bool) outcome" where
  "write_cb res c =
     (if cn_dead c then Inl Assert_failed
      else if cb_sz (cn_wpdu c) = 0 then Inr (c, [], False)
      else andthen (writepdu res (cn_wpdu c)) (\<lambda>(ok, w, out).
        let c = c\<lparr>cn_wpdu := w\<rparr> in
        if \<not> ok then Inr (c\<lparr>cn_dead := True\<rparr>, out, True)
        else if cb_solong w < 0 then Inl Assert_failed
        else if cb_solong w < cb_sz w then Inr (c, out, False)
        else Inr (c, out, True)))"

section \<open>The monitor\<close>

record send_sys =
  chan :: connection
  phase :: "nat \<Rightarrow> send_phase"
  outq :: cells

datatype send_event =
    Returned nat cells bool
  | Works nat
  | Poll
  | Dies
  | Closes
  | Wakes nat

definition wake_queue :: "bool \<Rightarrow> (nat \<Rightarrow> send_phase) \<Rightarrow> nat \<Rightarrow> send_phase" where
  "wake_queue br ph = (\<lambda>t. case ph t of Queued b w \<Rightarrow> Queued b (w \<or> br) | p \<Rightarrow> p)"

definition wake_active :: "bool \<Rightarrow> (nat \<Rightarrow> send_phase) \<Rightarrow> nat \<Rightarrow> send_phase" where
  "wake_active s ph = (\<lambda>t. case ph t of Active b w \<Rightarrow> Active b (w \<or> s) | p \<Rightarrow> p)"

definition event_of :: "nat \<Rightarrow> cells \<Rightarrow> bool option \<Rightarrow> send_event" where
  "event_of t b r = (case r of None \<Rightarrow> Works t | Some x \<Rightarrow> Returned t b x)"

definition accepted :: "write_result \<Rightarrow> charbuf \<Rightarrow> bool" where
  "accepted res w \<longleftrightarrow> (case res of Wrote n \<Rightarrow> cb_solong w + int n \<le> cb_sz w | _ \<Rightarrow> True)"

text \<open>
  \<open>Dies\<close> is \<open>read_cb\<close> on a connection whose input failed, \<open>Closes\<close> is \<open>closeconn\<close>; the
  kernel never takes more bytes than it is offered.
\<close>

inductive send_step :: "send_sys \<Rightarrow> send_event \<Rightarrow> send_sys \<Rightarrow> bool" where
  enters: "phase s t = Idle \<Longrightarrow> 4 \<le> length b \<Longrightarrow> accepted res (charbuf_of b) \<Longrightarrow>
     send_enter res b (chan s) = Inr (p, r, c, out, br) \<Longrightarrow>
     send_step s (event_of t b r)
       \<lparr>chan = c, phase = wake_queue br ((phase s)(t := p)), outq = outq s @ out\<rparr>"
| retries: "phase s t = Queued b True \<Longrightarrow> accepted res (charbuf_of b) \<Longrightarrow>
     send_section res b (chan s) = Inr (p, r, c, out, br) \<Longrightarrow>
     send_step s (event_of t b r)
       \<lparr>chan = c, phase = wake_queue br ((phase s)(t := p)), outq = outq s @ out\<rparr>"
| waits_on: "phase s t = Active b True \<Longrightarrow> send_complete (chan s) = None \<Longrightarrow>
     send_step s (Works t) (s\<lparr>phase := (phase s)(t := Active b False)\<rparr>)"
| completes: "phase s t = Active b True \<Longrightarrow> send_complete (chan s) = Some (r, c, br) \<Longrightarrow>
     send_step s (Returned t b r) (s\<lparr>chan := c, phase := wake_queue br ((phase s)(t := Idle))\<rparr>)"
| removed: "phase s t = Removing b \<Longrightarrow> finish_send (chan s) = (r, c, br) \<Longrightarrow>
     send_step s (Returned t b r) (s\<lparr>chan := c, phase := wake_queue br ((phase s)(t := Idle))\<rparr>)"
| polls: "write_cb res (chan s) = Inr (c, out, sig) \<Longrightarrow> accepted res (cn_wpdu (chan s)) \<Longrightarrow>
     send_step s Poll \<lparr>chan = c, phase = wake_active sig (phase s), outq = outq s @ out\<rparr>"
| dies: "\<not> cn_dead (chan s) \<Longrightarrow>
     send_step s Dies (s\<lparr>chan := (chan s)\<lparr>cn_dead := True\<rparr>, phase := wake_active True (phase s)\<rparr>)"
| closes: "\<not> cn_dead (chan s) \<Longrightarrow>
     send_step s Closes (s\<lparr>chan := (chan s)\<lparr>cn_dead := True\<rparr>\<rparr>)"
| spurious_queue: "phase s t = Queued b False \<Longrightarrow>
     send_step s (Wakes t) (s\<lparr>phase := (phase s)(t := Queued b True)\<rparr>)"
| spurious_active: "phase s t = Active b False \<Longrightarrow>
     send_step s (Wakes t) (s\<lparr>phase := (phase s)(t := Active b True)\<rparr>)"

inductive send_run :: "send_sys \<Rightarrow> send_event list \<Rightarrow> send_sys \<Rightarrow> bool" where
  no_send: "send_run s [] s"
| next_send: "send_run s es s' \<Longrightarrow> send_step s' e s'' \<Longrightarrow> send_run s (es @ [e]) s''"

definition send_init :: "connection \<Rightarrow> send_sys" where
  "send_init c = \<lparr>chan = c, phase = (\<lambda>_. Idle), outq = []\<rparr>"

text \<open>The frames that were reported as sent, in order.\<close>

fun frames_sent :: "send_event list \<Rightarrow> cells" where
  "frames_sent [] = []"
| "frames_sent (e # es) =
     (case e of Returned t b r \<Rightarrow> if r then framed b else [] | _ \<Rightarrow> []) @ frames_sent es"

lemma frames_sent_append [simp]: "frames_sent (es @ fs) = frames_sent es @ frames_sent fs"
  by (induction es) simp_all

section \<open>What a section does\<close>

definition busy :: "send_phase \<Rightarrow> cells \<Rightarrow> bool" where
  "busy p b \<longleftrightarrow> (\<exists>w. p = Active b w) \<or> p = Removing b"

definition queued :: "send_phase \<Rightarrow> bool" where
  "queued p \<longleftrightarrow> (\<exists>b w. p = Queued b w)"

lemma phase_simps [simp]:
  "\<not> busy Idle b" "\<not> busy (Queued d w) b" "busy (Active d w) b \<longleftrightarrow> d = b"
  "busy (Removing d) b \<longleftrightarrow> d = b"
  "queued (Queued d w)" "\<not> queued Idle" "\<not> queued (Active d w)" "\<not> queued (Removing d)"
  by (auto simp: busy_def queued_def)

lemma wake_simps [simp]:
  "busy (wake_queue br ph t) b \<longleftrightarrow> busy (ph t) b"
  "busy (wake_active br ph t) b \<longleftrightarrow> busy (ph t) b"
  "queued (wake_queue br ph t) \<longleftrightarrow> queued (ph t)"
  "queued (wake_active br ph t) \<longleftrightarrow> queued (ph t)"
  "wake_queue br ph t = Queued b w \<longleftrightarrow> (\<exists>v. ph t = Queued b v \<and> w = (v \<or> br))"
  "wake_queue br ph t = Removing b \<longleftrightarrow> ph t = Removing b"
  "wake_active br ph t = Removing b \<longleftrightarrow> ph t = Removing b"
  "wake_active br ph t = Queued b w \<longleftrightarrow> ph t = Queued b w"
  by (auto simp: wake_queue_def wake_active_def split: send_phase.split)

text \<open>\<open>front out b\<close>: the bytes \<open>out\<close> are the beginning of the frame of \<open>b\<close>.\<close>

definition front :: "cells \<Rightarrow> cells \<Rightarrow> bool" where
  "front out b \<longleftrightarrow> out = take (length out) (framed b)"

lemma front_Nil: "front [] b"
  by (simp add: front_def)

lemma front_length: "front out b \<Longrightarrow> 4 \<le> length b \<Longrightarrow> length out \<le> length b"
  unfolding front_def by (metis length_framed length_take min.cobounded1 min.cobounded2)

lemma front_all: "front out b \<Longrightarrow> 4 \<le> length b \<Longrightarrow> length out = length b \<Longrightarrow> out = framed b"
  unfolding front_def by (metis length_framed take_all_iff le_refl)

lemma front_append:
  assumes "front q b" "out = take (length out) (drop (length q) (framed b))"
  shows "front (q @ out) b"
  using assms unfolding front_def length_append by (metis take_add)

text \<open>The five ends of a section: wait, fail, break, all sent, partly sent.\<close>

definition section_end ::
    "cells \<Rightarrow> connection \<Rightarrow> send_phase \<Rightarrow> bool option \<Rightarrow> connection \<Rightarrow> cells \<Rightarrow> bool \<Rightarrow> bool" where
  "section_end b c p r c' out br \<longleftrightarrow>
     (if cn_dead c then
        p = Idle \<and> r = Some False \<and> c' = c\<lparr>cn_waiters := cn_waiters c - 1\<rparr> \<and> out = [] \<and> \<not> br
      else if cb_buf (cn_wpdu c) \<noteq> None then p = Queued b False \<and> r = None \<and> c' = c \<and> out = [] \<and> \<not> br
      else cn_waiters c' = cn_waiters c - 1 \<and> front out b \<and>
        (p = Removing b \<and> r = None \<and> cn_dead c' \<and> cb_buf (cn_wpdu c') \<noteq> None \<and> \<not> br \<or>
         p = Idle \<and> r = Some True \<and> \<not> cn_dead c' \<and> cn_wpdu c' = charbuf_empty \<and>
           out = framed b \<and> br = (cn_waiters c' > 0) \<or>
         p = Active b False \<and> r = None \<and> \<not> cn_dead c' \<and> sending b (length out) (cn_wpdu c') \<and> \<not> br))"

lemma writepdu_keeps_buf:
  "writepdu res w = Inr (ok, w', out) \<Longrightarrow> cb_buf w \<noteq> None \<Longrightarrow> cb_buf w' \<noteq> None"
  by (auto simp: writepdu_def Let_def split: if_splits write_result.splits option.splits)

lemma writepdu_front:
  assumes "sending b k w" "4 \<le> length b" "accepted res w"
  shows "\<exists>ok w' out. writepdu res w = Inr (ok, w', out) \<and> (ok \<longrightarrow> sending b (k + length out) w') \<and>
     out = take (length out) (drop k (framed b)) \<and> cb_buf w' \<noteq> None"
proof -
  have "case res of Wrote n \<Rightarrow> k + n \<le> length b | _ \<Rightarrow> True"
    using assms(1,3) by (auto simp: accepted_def sending_def split: write_result.splits)
  from writepdu_step [OF assms(1,2) this] obtain ok w' out where 1:
    "writepdu res w = Inr (ok, w', out)" "ok \<longrightarrow> sending b (k + length out) w'"
    "out = take (length out) (drop k (framed b))" by blast
  have "cb_buf w' \<noteq> None"
    using writepdu_keeps_buf [OF 1(1)] assms(1) by (auto simp: sending_def)
  with 1 show ?thesis by blast
qed

lemma section_ends:
  assumes "send_section res b c = Inr (p, r, c', out, br)" "accepted res (charbuf_of b)" "4 \<le> length b"
  shows "section_end b c p r c' out br"
proof (cases "cn_dead c \<or> cb_buf (cn_wpdu c) \<noteq> None")
  case True
  with assms(1) show ?thesis
    by (cases "cn_dead c") (auto simp: send_section_def section_end_def)
next
  case False
  have s0: "sending b 0 (charbuf_of b)" by (simp add: sending_def charbuf_of_def)
  from writepdu_front [OF s0 assms(3,2)] obtain ok w o1
    where w: "writepdu res (charbuf_of b) = Inr (ok, w, o1)" "ok \<longrightarrow> sending b (length o1) w"
      "front o1 b" "cb_buf w \<noteq> None" by (auto simp: front_def)
  have "length o1 = length b \<longleftrightarrow> o1 = framed b"
    using front_all [OF w(3) assms(3)] length_framed [OF assms(3)] by metis
  then have eq: "cb_solong w = cb_sz w \<longleftrightarrow> o1 = framed b" if ok
    using w(2) that by (simp add: sending_def)
  consider "\<not> ok" | "ok" "cb_solong w = cb_sz w" | "ok" "cb_solong w \<noteq> cb_sz w" by blast
  then show ?thesis
  proof cases
    case 1
    with assms(1) False w(1,3,4) show ?thesis
      by (auto simp: send_section_def section_end_def Let_def)
  next
    case 2
    with eq have "o1 = framed b" by simp
    with 2 assms(1) False w(1,3,4) show ?thesis
      by (auto simp: send_section_def section_end_def Let_def finish_send_def)
  next
    case 3
    with assms(1) False w show ?thesis
      by (auto simp: send_section_def section_end_def Let_def)
  qed
qed

section \<open>No interleaving\<close>

text \<open>
  The invariant: at most one thread owns the write buffer, and what left the socket is the
  frames of the successful sends and then a beginning of the owner's frame; without an
  owner that rest is empty unless the connection is dead.
\<close>

definition owned :: "(nat \<times> cells) option \<Rightarrow> (nat \<Rightarrow> send_phase) \<Rightarrow> bool" where
  "owned own ph \<longleftrightarrow> (\<forall>t b. busy (ph t) b \<longleftrightarrow> own = Some (t, b))"

definition wire_ok :: "send_event list \<Rightarrow> (nat \<times> cells) option \<Rightarrow> connection \<Rightarrow> cells \<Rightarrow> bool" where
  "wire_ok es own c q \<longleftrightarrow>
     (case own of
        None \<Rightarrow> cb_buf (cn_wpdu c) = None \<and>
          (\<exists>b x. front x b \<and> q = frames_sent es @ x \<and> (\<not> cn_dead c \<longrightarrow> x = []))
      | Some (t, b) \<Rightarrow> cb_buf (cn_wpdu c) \<noteq> None \<and> 4 \<le> length b \<and>
          (\<exists>x. front x b \<and> q = frames_sent es @ x \<and> (\<not> cn_dead c \<longrightarrow> sending b (length x) (cn_wpdu c))))"

definition phase_ok :: "bool \<Rightarrow> (nat \<Rightarrow> send_phase) \<Rightarrow> bool" where
  "phase_ok dead ph \<longleftrightarrow> (\<forall>t b w. ph t = Queued b w \<longrightarrow> 4 \<le> length b) \<and>
     (\<forall>t b. ph t = Removing b \<longrightarrow> dead)"

definition out_inv :: "send_event list \<Rightarrow> send_sys \<Rightarrow> bool" where
  "out_inv es s \<longleftrightarrow> phase_ok (cn_dead (chan s)) (phase s) \<and>
     (\<exists>own. owned own (phase s) \<and> wire_ok es own (chan s) (outq s))"

lemma owned_idle:
  "owned own ph \<Longrightarrow> (\<And>d. \<not> busy (ph t) d) \<Longrightarrow> (\<And>d. \<not> busy p d) \<Longrightarrow>
     owned own (wake_queue br (ph(t := p)))"
  by (auto simp: owned_def)

lemma owned_take:
  "owned None ph \<Longrightarrow> p = Active b w \<or> p = Removing b \<Longrightarrow>
     owned (Some (t, b)) (wake_queue br (ph(t := p)))"
  by (auto simp: owned_def)

lemma owned_give:
  "owned (Some (t, b)) ph \<Longrightarrow> owned None (wake_queue br (ph(t := Idle)))"
  by (auto simp: owned_def)

lemma phase_ok_wake [simp]: "phase_ok d (wake_queue br ph) = phase_ok d ph"
  unfolding phase_ok_def by auto

lemma phase_ok_active [simp]: "phase_ok d (wake_active br ph) = phase_ok d ph"
  unfolding phase_ok_def by auto

lemma phase_ok_upd:
  "phase_ok d ph \<Longrightarrow> (d \<Longrightarrow> d') \<Longrightarrow> (\<And>b w. p = Queued b w \<Longrightarrow> 4 \<le> length b) \<Longrightarrow>
     (\<And>b. p = Removing b \<Longrightarrow> d') \<Longrightarrow> phase_ok d' (ph(t := p))"
  by (auto simp: phase_ok_def)

text \<open>A section of \<open>send\<close> by a thread that owned nothing.\<close>

lemma out_inv_section:
  assumes inv: "out_inv es s" and t: "\<And>d. \<not> busy (phase s t) d"
    and b: "4 \<le> length b" and sec: "section_end b c0 p r c out br"
    and c0: "cn_dead c0 = cn_dead (chan s)" "cn_wpdu c0 = cn_wpdu (chan s)"
  shows "out_inv (es @ [event_of t b r])
     \<lparr>chan = c, phase = wake_queue br ((phase s)(t := p)), outq = outq s @ out\<rparr>"
proof -
  from inv obtain own where ph: "phase_ok (cn_dead (chan s)) (phase s)" and own: "owned own (phase s)"
    and wire: "wire_ok es own (chan s) (outq s)" by (auto simp: out_inv_def)
  consider (idle) "cn_dead c0 \<or> cb_buf (cn_wpdu c0) \<noteq> None" | (writes) "\<not> cn_dead c0" "cb_buf (cn_wpdu c0) = None"
    by blast
  then show ?thesis
  proof cases
    case idle
    with sec have p: "\<And>d. \<not> busy p d" "p = Idle \<or> p = Queued b False"
      and c: "cn_dead c = cn_dead c0" "cn_wpdu c = cn_wpdu c0" "out = []"
      and e: "frames_sent (es @ [event_of t b r]) = frames_sent es"
      by (auto simp: section_end_def event_of_def split: if_splits)
    have "wire_ok (es @ [event_of t b r]) own c (outq s)"
      using wire c c0 e by (auto simp: wire_ok_def split: option.splits)
    moreover have "phase_ok (cn_dead c) ((phase s)(t := p))"
      using phase_ok_upd [OF ph, of "cn_dead c"] p(2) b c c0 by auto
    ultimately show ?thesis
      using owned_idle [where ph = "phase s" and t = t and p = p and br = br, OF own t p(1)] c
      by (auto simp: out_inv_def)
  next
    case writes
    with wire c0 have "own = None" by (auto simp: wire_ok_def split: option.splits)
    with own wire writes c0 have own: "owned None (phase s)" and q: "outq s = frames_sent es"
      by (auto simp: wire_ok_def)
    from writes sec have f: "front out b"
      and "p = Removing b \<and> r = None \<and> cn_dead c \<and> cb_buf (cn_wpdu c) \<noteq> None \<or>
         p = Idle \<and> r = Some True \<and> \<not> cn_dead c \<and> cn_wpdu c = charbuf_empty \<and> out = framed b \<or>
         p = Active b False \<and> r = None \<and> \<not> cn_dead c \<and> sending b (length out) (cn_wpdu c)"
      by (auto simp: section_end_def)
    then consider (broke) "p = Removing b" "r = None" "cn_dead c" "cb_buf (cn_wpdu c) \<noteq> None"
      | (all) "p = Idle" "r = Some True" "\<not> cn_dead c" "cn_wpdu c = charbuf_empty" "out = framed b"
      | (part) "p = Active b False" "r = None" "\<not> cn_dead c" "sending b (length out) (cn_wpdu c)"
      by blast
    then show ?thesis
    proof cases
      case broke
      have "phase_ok (cn_dead c) ((phase s)(t := p))"
        using phase_ok_upd [OF ph, of "cn_dead c"] broke by auto
      moreover have "wire_ok (es @ [event_of t b r]) (Some (t, b)) c (outq s @ out)"
        using broke f b q by (auto simp: wire_ok_def event_of_def)
      ultimately show ?thesis
        using owned_take [OF own, of p b False t br] broke by (auto simp: out_inv_def)
    next
      case all
      have "phase_ok (cn_dead c) ((phase s)(t := p))"
        using phase_ok_upd [OF ph, of "cn_dead c"] all writes c0 by auto
      moreover have "wire_ok (es @ [event_of t b r]) None c (outq s @ out)"
        using all q by (auto simp: wire_ok_def event_of_def charbuf_empty_def intro: front_Nil)
      moreover have "owned None (wake_queue br ((phase s)(t := p)))"
        by (rule owned_idle [OF own t]) (simp_all add: all)
      ultimately show ?thesis by (auto simp: out_inv_def)
    next
      case part
      have "phase_ok (cn_dead c) ((phase s)(t := p))"
        using phase_ok_upd [OF ph, of "cn_dead c"] part writes c0 by auto
      moreover have "cb_buf (cn_wpdu c) \<noteq> None" using part(4) by (auto simp: sending_def)
      then have "wire_ok (es @ [event_of t b r]) (Some (t, b)) c (outq s @ out)"
        using part f b q by (auto simp: wire_ok_def event_of_def)
      ultimately show ?thesis
        using owned_take [OF own, of p b False t br] part by (auto simp: out_inv_def)
    qed
  qed
qed

lemma finish_send_eq:
  "finish_send c = (\<not> cn_dead c \<and> cb_solong (cn_wpdu c) = cb_sz (cn_wpdu c),
     c\<lparr>cn_wpdu := charbuf_empty\<rparr>, cn_waiters c > 0)"
  by (simp add: finish_send_def Let_def)

lemma wire_ok_release:
  assumes "wire_ok es (Some (t, b)) c q"
    and "r \<longleftrightarrow> \<not> cn_dead c \<and> cb_solong (cn_wpdu c) = cb_sz (cn_wpdu c)" "cn_dead c \<or> r"
  shows "wire_ok (es @ [Returned t b r]) None (c\<lparr>cn_wpdu := charbuf_empty\<rparr>) q"
proof -
  from assms(1) obtain x where b: "4 \<le> length b" and x: "front x b" "q = frames_sent es @ x"
    and s: "\<not> cn_dead c \<longrightarrow> sending b (length x) (cn_wpdu c)" by (auto simp: wire_ok_def)
  show ?thesis
  proof (cases r)
    case True
    with assms(2) s have "length x = length b" by (auto simp: sending_def)
    with front_all [OF x(1) b] x(2) True show ?thesis
      by (auto simp: wire_ok_def charbuf_empty_def intro: front_Nil)
  next
    case False
    with x assms(3) show ?thesis by (auto simp: wire_ok_def charbuf_empty_def)
  qed
qed

lemma out_inv_release:
  assumes inv: "out_inv es s" and t: "busy (phase s t) b"
    and r: "r \<longleftrightarrow> \<not> cn_dead (chan s) \<and> cb_solong (cn_wpdu (chan s)) = cb_sz (cn_wpdu (chan s))"
      "cn_dead (chan s) \<or> r"
  shows "out_inv (es @ [Returned t b r]) (s\<lparr>chan := (chan s)\<lparr>cn_wpdu := charbuf_empty\<rparr>,
     phase := wake_queue br ((phase s)(t := Idle))\<rparr>)"
proof -
  from inv obtain own where ph: "phase_ok (cn_dead (chan s)) (phase s)" and own: "owned own (phase s)"
    and wire: "wire_ok es own (chan s) (outq s)" by (auto simp: out_inv_def)
  from own t have o: "own = Some (t, b)" by (auto simp: owned_def)
  have "phase_ok (cn_dead (chan s)) ((phase s)(t := Idle))"
    by (rule phase_ok_upd [OF ph]) auto
  with wire_ok_release [OF wire [unfolded o] r] owned_give [OF own [unfolded o], of br] show ?thesis
    by (auto simp: out_inv_def)
qed

lemma complete_result:
  assumes "wire_ok es (Some (t, b)) c q" "send_complete c = Some (r, c', br)"
  shows "r \<longleftrightarrow> \<not> cn_dead c \<and> cb_solong (cn_wpdu c) = cb_sz (cn_wpdu c)" "cn_dead c \<or> r"
    "c' = c\<lparr>cn_wpdu := charbuf_empty\<rparr>" "br = (cn_waiters c > 0)"
  using assms by (auto simp: send_complete_def finish_send_eq wire_ok_def sending_def split: if_splits)

lemma polls_cases:
  assumes "write_cb res c = Inr (c', out, sig)" "accepted res (cn_wpdu c)" "wire_ok es own c q"
  shows "wire_ok (es @ [Poll]) own c' (q @ out) \<and> (cn_dead c' \<or> \<not> cn_dead c) \<and> \<not> cn_dead c \<and>
     cn_waiters c' = cn_waiters c"
proof (cases own)
  case None
  from assms(1) have alive: "\<not> cn_dead c" by (auto simp: write_cb_def split: if_splits)
  from None assms(3) have buf: "cb_buf (cn_wpdu c) = None" by (auto simp: wire_ok_def)
  with assms(1) alive have "c' = c" "out = []"
    by (auto simp: write_cb_def writepdu_def andthen_Inr_iff Let_def split: if_splits)
  with None assms(3) alive show ?thesis by (auto simp: wire_ok_def)
next
  case (Some o1)
  obtain t b where o: "own = Some (t, b)" using Some by (cases o1) auto
  from assms(1) have alive: "\<not> cn_dead c" by (auto simp: write_cb_def split: if_splits)
  from o assms(3) alive obtain x where b: "4 \<le> length b" and x: "front x b" "q = frames_sent es @ x"
    and s: "sending b (length x) (cn_wpdu c)" and buf: "cb_buf (cn_wpdu c) \<noteq> None"
    by (auto simp: wire_ok_def)
  have sz: "cb_sz (cn_wpdu c) \<noteq> 0" using s b by (auto simp: sending_def)
  from writepdu_front [OF s b assms(2)] obtain ok w o1
    where w: "writepdu res (cn_wpdu c) = Inr (ok, w, o1)" "ok \<longrightarrow> sending b (length x + length o1) w"
      "o1 = take (length o1) (drop (length x) (framed b))" "cb_buf w \<noteq> None" by blast
  have f: "front (x @ o1) b" by (rule front_append [OF x(1) w(3)])
  from assms(1) alive sz w(1) have c': "out = o1" "cn_wpdu c' = w" "ok \<Longrightarrow> \<not> cn_dead c'"
    "\<not> ok \<Longrightarrow> cn_dead c'" "cn_waiters c' = cn_waiters c"
    by (auto simp: write_cb_def Let_def split: if_splits)
  have "\<not> cn_dead c' \<longrightarrow> sending b (length (x @ o1)) (cn_wpdu c')"
    using w(2) c' by auto
  with f x(2) w(4) c' b o alive show ?thesis by (auto simp: wire_ok_def)
qed

lemma owned_active:
  "owned own (wake_active sig ph) = owned own ph"
  by (simp add: owned_def)

lemma owned_same:
  "owned own ph \<Longrightarrow> (\<And>d. busy p d \<longleftrightarrow> busy (ph t) d) \<Longrightarrow> owned own (ph(t := p))"
  by (auto simp: owned_def)

lemma out_inv_step:
  assumes step: "send_step s e s'" and inv: "out_inv es s"
  shows "out_inv (es @ [e]) s'"
proof -
  from inv obtain own where ph: "phase_ok (cn_dead (chan s)) (phase s)" and own: "owned own (phase s)"
    and wire: "wire_ok es own (chan s) (outq s)" by (auto simp: out_inv_def)
  show ?thesis
    using step
  proof (cases rule: send_step.cases)
    case (enters t b res p r c out br)
    have "section_end b ((chan s)\<lparr>cn_waiters := cn_waiters (chan s) + 1\<rparr>) p r c out br"
      using enters by (intro section_ends) (simp_all add: send_enter_def)
    with enters out_inv_section [OF inv _ enters(4) this] show ?thesis by simp
  next
    case (retries t b res p r c out br)
    have b: "4 \<le> length b" using ph retries(3) by (auto simp: phase_ok_def)
    have "section_end b (chan s) p r c out br"
      using retries b by (intro section_ends) simp_all
    with retries out_inv_section [OF inv _ b this] show ?thesis by simp
  next
    case (waits_on t b)
    have "owned own ((phase s)(t := Active b False))"
      by (rule owned_same [OF own]) (simp add: waits_on)
    moreover have "phase_ok (cn_dead (chan s)) ((phase s)(t := Active b False))"
      by (rule phase_ok_upd [OF ph]) auto
    moreover have "wire_ok (es @ [e]) own (chan s) (outq s)"
      using wire waits_on by (auto simp: wire_ok_def split: option.splits)
    ultimately show ?thesis using waits_on by (auto simp: out_inv_def)
  next
    case (completes t b r c br)
    then have "busy (phase s t) b" by simp
    with own have o: "own = Some (t, b)" unfolding owned_def by blast
    note r = complete_result [OF wire [unfolded o] completes(4)]
    have "busy (phase s t) b" by (simp add: completes)
    from out_inv_release [OF inv this r(1,2)] completes r(3) show ?thesis by simp
  next
    case (removed t b r c br)
    have "busy (phase s t) b" by (simp add: removed)
    moreover have "cn_dead (chan s)" using ph removed(3) by (auto simp: phase_ok_def)
    ultimately show ?thesis
      using out_inv_release [OF inv, of t b r br] removed by (simp add: finish_send_eq)
  next
    case (polls res c out sig)
    from polls_cases [OF polls(3,4) wire] have w: "wire_ok (es @ [Poll]) own c (outq s @ out)"
      and d: "\<not> cn_dead (chan s)" by blast+
    have "phase_ok (cn_dead c) (phase s)"
      using ph d by (auto simp: phase_ok_def)
    with w own polls show ?thesis by (auto simp: out_inv_def owned_active)
  next
    case dies
    have "phase_ok True (phase s)" using ph by (auto simp: phase_ok_def)
    moreover have "wire_ok (es @ [e]) own ((chan s)\<lparr>cn_dead := True\<rparr>) (outq s)"
      using wire dies by (auto simp: wire_ok_def split: option.splits)
    ultimately show ?thesis using own dies by (auto simp: out_inv_def owned_active)
  next
    case closes
    have "phase_ok True (phase s)" using ph by (auto simp: phase_ok_def)
    moreover have "wire_ok (es @ [e]) own ((chan s)\<lparr>cn_dead := True\<rparr>) (outq s)"
      using wire closes by (auto simp: wire_ok_def split: option.splits)
    ultimately show ?thesis using own closes by (auto simp: out_inv_def)
  next
    case (spurious_queue t b)
    have "owned own ((phase s)(t := Queued b True))"
      by (rule owned_same [OF own]) (simp add: spurious_queue)
    moreover have "phase_ok (cn_dead (chan s)) ((phase s)(t := Queued b True))"
      using ph spurious_queue(3) by (intro phase_ok_upd [OF ph]) (auto simp: phase_ok_def)
    moreover have "wire_ok (es @ [e]) own (chan s) (outq s)"
      using wire spurious_queue by (auto simp: wire_ok_def split: option.splits)
    ultimately show ?thesis using spurious_queue by (auto simp: out_inv_def)
  next
    case (spurious_active t b)
    have "owned own ((phase s)(t := Active b True))"
      by (rule owned_same [OF own]) (simp add: spurious_active)
    moreover have "phase_ok (cn_dead (chan s)) ((phase s)(t := Active b True))"
      by (rule phase_ok_upd [OF ph]) auto
    moreover have "wire_ok (es @ [e]) own (chan s) (outq s)"
      using wire spurious_active by (auto simp: wire_ok_def split: option.splits)
    ultimately show ?thesis using spurious_active by (auto simp: out_inv_def)
  qed
qed

lemma out_inv_init:
  assumes "\<not> cn_dead c" "cn_wpdu c = charbuf_empty"
  shows "out_inv [] (send_init c)"
  using assms
  by (auto simp: out_inv_def send_init_def phase_ok_def owned_def wire_ok_def charbuf_empty_def
      intro!: exI [of _ None] exI [of "front []", OF front_Nil])

lemma out_inv_run:
  "send_run s es s' \<Longrightarrow> out_inv [] s \<Longrightarrow> out_inv es s'"
  by (induction rule: send_run.induct) (auto intro: out_inv_step)

section \<open>No lost wake-up\<close>

text \<open>
  \<open>waiters_\<close> counts the threads in the first loop, and a thread that sleeps there has an
  owner of the buffer in front of it, which will broadcast when it is done.
\<close>

definition queue_set :: "(nat \<Rightarrow> send_phase) \<Rightarrow> nat set" where
  "queue_set ph = {t. queued (ph t)}"

definition wait_inv :: "send_sys \<Rightarrow> bool" where
  "wait_inv s \<longleftrightarrow> finite (queue_set (phase s)) \<and>
     cn_waiters (chan s) = int (card (queue_set (phase s))) \<and>
     (\<forall>t b. phase s t = Queued b False \<longrightarrow> (\<exists>u d. busy (phase s u) d))"

lemma queue_set_simps [simp]:
  "queue_set (wake_queue br ph) = queue_set ph"
  "queue_set (wake_active br ph) = queue_set ph"
  "queue_set (ph(t := p)) = (if queued p then insert t (queue_set ph) else queue_set ph - {t})"
  by (auto simp: queue_set_def)

lemma no_queue:
  assumes "finite (queue_set ph)" "card (queue_set ph) = 0"
  shows "ph t \<noteq> Queued b w"
proof
  assume "ph t = Queued b w"
  then have "t \<in> queue_set ph" by (simp add: queue_set_def)
  with assms show False by auto
qed

text \<open>
  A thread that leaves the buffer: everybody was woken, or nobody is queued.
\<close>

lemma wait_inv_broadcast:
  assumes "finite (queue_set ph)" "br = (int (card (queue_set ph)) > 0)"
    "cn_waiters c = int (card (queue_set ph))"
  shows "wait_inv \<lparr>chan = c, phase = wake_queue br ph, outq = q\<rparr>"
  using assms no_queue [OF assms(1)] by (auto simp: wait_inv_def)

lemma wait_inv_section:
  assumes out: "out_inv es s" and sec: "section_end b c0 p r c out br"
    and t: "\<And>d. \<not> busy (phase s t) d" and fin: "finite (queue_set (phase s))"
    and c0: "cn_dead c0 = cn_dead (chan s)" "cn_wpdu c0 = cn_wpdu (chan s)"
      "cn_waiters c0 = int (card (insert t (queue_set (phase s))))"
    and sleepers: "\<forall>u b. phase s u = Queued b False \<longrightarrow> (\<exists>v d. busy (phase s v) d)"
  shows "wait_inv \<lparr>chan = c, phase = wake_queue br ((phase s)(t := p)), outq = q\<rparr>"
proof -
  have card: "int (card (queue_set (phase s) - {t})) = cn_waiters c0 - 1"
    using fin c0(3) card_Suc_Diff1 [of "insert t (queue_set (phase s))" t] by simp
  have others: "\<exists>v d. busy (((phase s)(t := p)) v) d" if "busy (phase s v) d" for v d
    using that t by (intro exI [of _ v] exI [of _ d]) auto
  consider (dead) "cn_dead c0" | (wait) "\<not> cn_dead c0" "cb_buf (cn_wpdu c0) \<noteq> None"
    | (writes) "\<not> cn_dead c0" "cb_buf (cn_wpdu c0) = None" by blast
  then show ?thesis
  proof cases
    case dead
    with sec have p: "p = Idle" "c = c0\<lparr>cn_waiters := cn_waiters c0 - 1\<rparr>" "\<not> br"
      by (auto simp: section_end_def)
    show ?thesis
      unfolding wait_inv_def
    proof (intro conjI allI impI)
      fix u b
      assume "phase \<lparr>chan = c, phase = wake_queue br ((phase s)(t := p)), outq = q\<rparr> u = Queued b False"
      then have "phase s u = Queued b False" using p by (auto split: if_splits)
      with sleepers obtain v d where "busy (phase s v) d" by blast
      from others [OF this]
      show "\<exists>u d. busy (phase \<lparr>chan = c, phase = wake_queue br ((phase s)(t := p)), outq = q\<rparr> u) d"
        by simp
    qed (use p card fin in simp_all)
  next
    case wait
    with sec have p: "p = Queued b False" "c = c0" "\<not> br" by (auto simp: section_end_def)
    from out obtain own where "owned own (phase s)" "wire_ok es own (chan s) (outq s)"
      by (auto simp: out_inv_def)
    with wait c0(2) obtain u d where "busy (phase s u) d"
      by (cases own) (auto simp: wire_ok_def owned_def)
    moreover from this t have "u \<noteq> t" by auto
    ultimately have "\<exists>v d. busy (((phase s)(t := p)) v) d" by (intro exI [of _ u] exI [of _ d]) simp
    with p c0(3) fin show ?thesis by (auto simp: wait_inv_def)
  next
    case writes
    with sec consider (own) "busy p b" "\<not> queued p" "cn_waiters c = cn_waiters c0 - 1"
      | (leaves) "p = Idle" "cn_waiters c = cn_waiters c0 - 1" "br = (cn_waiters c > 0)"
      by (auto simp: section_end_def)
    then show ?thesis
    proof cases
      case own
      then have "\<exists>v d. busy (((phase s)(t := p)) v) d" by (intro exI [of _ t] exI [of _ b]) simp
      with own card fin show ?thesis by (auto simp: wait_inv_def)
    next
      case leaves
      with card fin show ?thesis by (intro wait_inv_broadcast) simp_all
    qed
  qed
qed

lemma wait_inv_keep:
  assumes "wait_inv s" "queue_set ph = queue_set (phase s)" "cn_waiters c = cn_waiters (chan s)"
    and "\<And>t b. ph t = Queued b False \<Longrightarrow> phase s t = Queued b False"
    and "\<And>t d. busy (phase s t) d \<Longrightarrow> busy (ph t) d"
  shows "wait_inv \<lparr>chan = c, phase = ph, outq = q\<rparr>"
proof -
  have "\<exists>u d. busy (ph u) d" if "ph t = Queued b False" for t b
    using assms(1,5) assms(4) [OF that] unfolding wait_inv_def by blast
  with assms(1-3) show ?thesis by (simp add: wait_inv_def)
qed

lemma wait_inv_step:
  assumes step: "send_step s e s'" and out: "out_inv es s" and inv: "wait_inv s"
  shows "wait_inv s'"
proof -
  from inv have fin: "finite (queue_set (phase s))" and w: "cn_waiters (chan s) = int (card (queue_set (phase s)))"
    and sl: "\<forall>u b. phase s u = Queued b False \<longrightarrow> (\<exists>v d. busy (phase s v) d)"
    by (simp_all add: wait_inv_def)
  have eta: "s\<lparr>phase := ph\<rparr> = \<lparr>chan = chan s, phase = ph, outq = outq s\<rparr>"
    "s\<lparr>chan := c, phase := ph\<rparr> = \<lparr>chan = c, phase = ph, outq = outq s\<rparr>"
    "s\<lparr>chan := c\<rparr> = \<lparr>chan = c, phase = phase s, outq = outq s\<rparr>" for ph c by simp_all
  show ?thesis
    using step
  proof (cases rule: send_step.cases)
    case (enters t b res p r c out br)
    have sec: "section_end b ((chan s)\<lparr>cn_waiters := cn_waiters (chan s) + 1\<rparr>) p r c out br"
      using enters by (intro section_ends) (simp_all add: send_enter_def)
    have "t \<notin> queue_set (phase s)" by (simp add: queue_set_def enters)
    with wait_inv_section [OF \<open>out_inv es s\<close> sec _ fin] enters w fin sl show ?thesis by simp
  next
    case (retries t b res p r c out br)
    have b: "4 \<le> length b" using \<open>out_inv es s\<close> retries(3) by (auto simp: out_inv_def phase_ok_def)
    have sec: "section_end b (chan s) p r c out br"
      using retries b by (intro section_ends) simp_all
    have "t \<in> queue_set (phase s)" by (simp add: queue_set_def retries)
    then have "insert t (queue_set (phase s)) = queue_set (phase s)" by blast
    with wait_inv_section [OF \<open>out_inv es s\<close> sec _ fin] retries w sl show ?thesis by simp
  next
    case (waits_on t b)
    then show ?thesis
      unfolding waits_on(2) eta(1)
      by (intro wait_inv_keep [OF inv]) (auto simp: queue_set_def split: if_splits)
  next
    case (completes t b r c br)
    then have "c = (chan s)\<lparr>cn_wpdu := charbuf_empty\<rparr>" "br = (cn_waiters (chan s) > 0)"
      by (auto simp: send_complete_def finish_send_eq split: if_splits)
    moreover have "queue_set ((phase s)(t := Idle)) = queue_set (phase s)"
      using completes(3) by (auto simp: queue_set_def split: if_splits)
    ultimately show ?thesis
      unfolding completes(2) eta(2) using fin w by (intro wait_inv_broadcast) (simp_all del: queue_set_simps)
  next
    case (removed t b r c br)
    then have "c = (chan s)\<lparr>cn_wpdu := charbuf_empty\<rparr>" "br = (cn_waiters (chan s) > 0)"
      by (auto simp: finish_send_eq)
    moreover have "queue_set ((phase s)(t := Idle)) = queue_set (phase s)"
      using removed(3) by (auto simp: queue_set_def split: if_splits)
    ultimately show ?thesis
      unfolding removed(2) eta(2) using fin w by (intro wait_inv_broadcast) (simp_all del: queue_set_simps)
  next
    case (polls res c out sig)
    from \<open>out_inv es s\<close> obtain own where "wire_ok es own (chan s) (outq s)" by (auto simp: out_inv_def)
    from polls_cases [OF polls(3,4) this] have "cn_waiters c = cn_waiters (chan s)" by simp
    then show ?thesis
      unfolding polls(2) by (intro wait_inv_keep [OF inv]) simp_all
  next
    case dies
    then show ?thesis unfolding dies(2) eta(2) by (intro wait_inv_keep [OF inv]) simp_all
  next
    case closes
    then show ?thesis unfolding closes(2) eta(3) by (intro wait_inv_keep [OF inv]) simp_all
  next
    case (spurious_queue t b)
    then show ?thesis
      unfolding spurious_queue(2) eta(1)
      by (intro wait_inv_keep [OF inv]) (auto simp: queue_set_def split: if_splits)
  next
    case (spurious_active t b)
    then show ?thesis
      unfolding spurious_active(2) eta(1)
      by (intro wait_inv_keep [OF inv]) (auto simp: queue_set_def split: if_splits)
  qed
qed

lemma wait_inv_run:
  "send_run s es s' \<Longrightarrow> out_inv [] s \<Longrightarrow> wait_inv s \<Longrightarrow> wait_inv s'"
  by (induction rule: send_run.induct) (auto intro: wait_inv_step out_inv_run)

lemma wait_inv_init: "cn_waiters c = 0 \<Longrightarrow> wait_inv (send_init c)"
  by (simp add: wait_inv_def send_init_def queue_set_def)

section \<open>Properties\<close>

definition fresh_conn :: "connection \<Rightarrow> bool" where
  "fresh_conn c \<longleftrightarrow> \<not> cn_dead c \<and> cn_wpdu c = charbuf_empty \<and> cn_waiters c = 0"

lemma fresh_inv: "fresh_conn c \<Longrightarrow> out_inv [] (send_init c)" "fresh_conn c \<Longrightarrow> wait_inv (send_init c)"
  by (simp_all add: fresh_conn_def out_inv_init wait_inv_init)

text \<open>
  C14: the frames of concurrent senders are never interleaved. However many threads call
  \<open>send\<close>, however their writes are cut and wherever the connection dies, the bytes that left
  the socket are the frames of the calls that returned true, in the order they returned,
  followed by a beginning of one more frame.
\<close>

theorem frames_never_interleave:
  assumes "fresh_conn c" "send_run (send_init c) es s"
  shows "\<exists>b k. outq s = frames_sent es @ take k (framed b)"
proof -
  from out_inv_run [OF assms(2) fresh_inv(1) [OF assms(1)]] obtain own
    where "wire_ok es own (chan s) (outq s)" by (auto simp: out_inv_def)
  then obtain x b where "front x b" "outq s = frames_sent es @ x"
    by (auto simp: wire_ok_def split: option.splits)
  then show ?thesis unfolding front_def by metis
qed

text \<open>
  A sender that sleeps in the queue is not forgotten: as long as it has not been woken
  some thread owns the buffer, and \<open>waiters_\<close> is positive, so that the owner broadcasts
  when it leaves \<open>send\<close>.
\<close>

lemma queued_sender_has_writer:
  assumes "fresh_conn c" "send_run (send_init c) es s" "phase s t = Queued b False"
  shows "(\<exists>u d. busy (phase s u) d) \<and> cn_waiters (chan s) > 0"
proof -
  from wait_inv_run [OF assms(2) fresh_inv(1,2) [OF assms(1)]] have inv: "wait_inv s" .
  have "t \<in> queue_set (phase s)" using assms(3) by (simp add: queue_set_def)
  with inv have "0 < card (queue_set (phase s))" by (auto simp: wait_inv_def card_gt_0_iff)
  with inv assms(3) show ?thesis unfolding wait_inv_def by (metis of_nat_0_less_iff)
qed

lemma stranded_run:
  "send_run s es s' \<Longrightarrow> phase s t = Active b False \<Longrightarrow> cn_dead (chan s) \<Longrightarrow> Wakes t \<notin> set es \<Longrightarrow>
     out_inv fs s \<Longrightarrow> phase s' t = Active b False \<and> cn_dead (chan s')"
proof (induction rule: send_run.induct)
  case (next_send s es s' e s'')
  then have st: "phase s' t = Active b False" "cn_dead (chan s')" by simp_all
  show ?case
    using next_send.hyps(2)
  proof (cases rule: send_step.cases)
    case (enters u d res p r c out br)
    then have "section_end d ((chan s')\<lparr>cn_waiters := cn_waiters (chan s') + 1\<rparr>) p r c out br"
      by (intro section_ends) (simp_all add: send_enter_def)
    with st enters show ?thesis by (auto simp: section_end_def wake_queue_def)
  next
    case (retries u d res p r c out br)
    then have "cn_dead c"
      using st(2) by (auto simp: send_section_def)
    with st retries show ?thesis by (auto simp: wake_queue_def)
  next
    case (polls res c out sig)
    with st show ?thesis by (simp add: write_cb_def)
  qed (use st next_send.prems(3) in
      \<open>auto simp: wake_queue_def send_complete_def finish_send_eq split: if_splits\<close>)
qed simp

text \<open>
  C35: \<open>closeconn\<close> forgets a sender. When a connection is closed while a thread waits for the
  rest of its frame to be written, nobody ever signals \<open>send_complete_\<close> again: the thread
  stays in \<open>send\<close>, and with it the dispatch thread that \<open>~rpcs\<close> is going to join, whatever
  happens afterwards short of a spurious wake-up.
\<close>

theorem closeconn_strands_sender:
  assumes "fresh_conn c" "send_run (send_init c) es s" "phase s t = Active b False"
    "send_step s Closes s1" "send_run s1 fs s2" "Wakes t \<notin> set fs"
  shows "phase s2 t = Active b False"
proof -
  have "out_inv (es @ [Closes]) s1"
    by (rule out_inv_step [OF assms(4) out_inv_run [OF assms(2) fresh_inv(1) [OF assms(1)]]])
  moreover have "phase s1 t = Active b False" "cn_dead (chan s1)"
    using assms(3,4) by (auto elim: send_step.cases simp: event_of_def split: option.splits)
  ultimately show ?thesis using stranded_run [OF assms(5)] assms(6) by blast
qed

section \<open>A concrete history\<close>

text \<open>Thread 0 writes two bytes of a frame of five, thread 1 queues, the poll thread goes on.\<close>

definition sample_chan :: connection where
  "sample_chan = connection_new 5 0 (0, 0)"

definition sample_pdu :: cells where
  "sample_pdu = map Some [0, 0, 0, 0, 7]"

lemma sample_chan_simps [simp]:
  "cn_dead sample_chan = False" "cn_wpdu sample_chan = charbuf_empty" "cn_waiters sample_chan = 0"
  "length sample_pdu = 5"
  by (simp_all add: sample_chan_def connection_new_def sample_pdu_def)

definition sample_partial :: send_sys where
  "sample_partial = \<lparr>chan = sample_chan\<lparr>cn_wpdu := \<lparr>cb_buf = Some (framed sample_pdu), cb_sz = 5,
       cb_solong = 2\<rparr>\<rparr>, phase = (\<lambda>_. Idle)(0 := Active sample_pdu False), outq = take 2 (framed sample_pdu)\<rparr>"

definition sample_queued :: send_sys where
  "sample_queued = sample_partial\<lparr>chan := (chan sample_partial)\<lparr>cn_waiters := 1\<rparr>,
     phase := (phase sample_partial)(1 := Queued sample_pdu False)\<rparr>"

lemma sample_fresh: "fresh_conn sample_chan"
  by (simp add: fresh_conn_def)

lemma wake_queue_False: "wake_queue False ph = ph"
  by (auto simp: wake_queue_def fun_eq_iff split: send_phase.split)

lemma sample_framed: "overwrite sample_pdu 0 (map Some (htonl_bytes 5)) = framed sample_pdu"
  by (simp add: framed_def)

lemma sample_partial_run: "send_run (send_init sample_chan) [Works 0] sample_partial"
proof -
  have "send_enter (Wrote 2) sample_pdu sample_chan = Inr (Active sample_pdu False, None,
      chan sample_partial, take 2 (framed sample_pdu), False)"
    unfolding send_enter_def send_section_def writepdu_def
    by (simp add: sample_partial_def charbuf_empty_def charbuf_of_def sample_framed Let_def)
  then have "send_step (send_init sample_chan) (event_of 0 sample_pdu None)
      \<lparr>chan = chan sample_partial,
       phase = wake_queue False ((phase (send_init sample_chan))(0 := Active sample_pdu False)),
       outq = outq (send_init sample_chan) @ take 2 (framed sample_pdu)\<rparr>"
    by (intro send_step.enters [where res = "Wrote 2"])
      (simp_all add: send_init_def accepted_def charbuf_of_def)
  then have "send_step (send_init sample_chan) (Works 0) sample_partial"
    by (simp add: event_of_def wake_queue_False sample_partial_def send_init_def)
  from send_run.next_send [OF send_run.no_send this] show ?thesis by simp
qed

lemma sample_queued_run: "send_run (send_init sample_chan) [Works 0, Works 1] sample_queued"
proof -
  have "send_enter (Wrote 5) sample_pdu (chan sample_partial) = Inr (Queued sample_pdu False, None,
      (chan sample_partial)\<lparr>cn_waiters := 1\<rparr>, [], False)"
    by (simp add: send_enter_def send_section_def sample_partial_def)
  then have "send_step sample_partial (event_of 1 sample_pdu None)
      \<lparr>chan = (chan sample_partial)\<lparr>cn_waiters := 1\<rparr>,
       phase = wake_queue False ((phase sample_partial)(1 := Queued sample_pdu False)),
       outq = outq sample_partial @ []\<rparr>"
    by (intro send_step.enters [where res = "Wrote 5"])
      (simp_all add: sample_partial_def accepted_def charbuf_of_def)
  then have "send_step sample_partial (Works 1) sample_queued"
    by (simp add: event_of_def wake_queue_False sample_queued_def sample_partial_def)
  from send_run.next_send [OF sample_partial_run this] show ?thesis by simp
qed

theorem frames_never_interleave_witness:
  "\<exists>b k. outq sample_queued = frames_sent [Works 0, Works 1] @ take k (framed b)"
  by (rule frames_never_interleave [OF sample_fresh sample_queued_run])

lemma queued_sender_has_writer_witness:
  "(\<exists>u d. busy (phase sample_queued u) d) \<and> cn_waiters (chan sample_queued) > 0"
  by (rule queued_sender_has_writer [OF sample_fresh sample_queued_run, of 1 sample_pdu])
    (simp add: sample_queued_def)

theorem closeconn_strands_sender_witness:
  "phase (sample_queued\<lparr>chan := (chan sample_queued)\<lparr>cn_dead := True\<rparr>\<rparr>) 0 = Active sample_pdu False"
proof -
  have "send_step sample_queued Closes (sample_queued\<lparr>chan := (chan sample_queued)\<lparr>cn_dead := True\<rparr>\<rparr>)"
    by (rule send_step.closes) (simp add: sample_queued_def sample_partial_def)
  from closeconn_strands_sender [OF sample_fresh sample_queued_run _ this send_run.no_send]
  show ?thesis by (simp add: sample_queued_def sample_partial_def)
qed

end
