(* ===== verification/RpcServer.thy ===== *)
theory RpcServer
  imports Stubs ReplyWindow Connection
begin

text \<open>
  The server endpoint (\<open>rpcs\<close> in \<open>rpc/rpc.h\<close> and \<open>rpc/rpc.cc\<close>): registration, statistics,
  \<open>got_pdu\<close> and \<open>dispatch\<close>, on top of the reply window and the reference counts of
  connections. \<open>dispatch\<close> is cut where the handler starts to run, so that the dispatch
  threads of the pool can be interleaved: \<open>dispatch_begin\<close> is everything up to the answer of
  \<open>checkduplicate_and_update\<close>, and what follows when that answer is not \<^term>\<open>NEW\<close>;
  \<open>dispatch_end\<close> is the rest for a new request.
\<close>

section \<open>State\<close>

type_synonym 's handler = "'s \<Rightarrow> unmarshall \<Rightarrow> marshall \<Rightarrow> 's fn_result"

text \<open>
  \<open>conns\<close> is \<open>conns_\<close>, \<open>bufs\<close> the contents of the reply buffers, \<open>app\<close> what the handlers
  work on, and \<open>sends\<close> the calls of \<open>connection::send\<close> in order.
\<close>

record 's rpcs =
  srv_nonce :: u32
  counting :: int
  curr_counts :: int
  counts :: "i32 \<Rightarrow> int"
  replies :: reply_state
  bufs :: "addr \<Rightarrow> cells"
  conns :: "u32 \<Rightarrow> nat option"
  procs :: "i32 \<Rightarrow> 's handler option"
  heap :: conn_heap
  app :: 's
  sends :: "(nat \<times> cells) list"

definition rpcs_new :: "u32 \<Rightarrow> int \<Rightarrow> 's \<Rightarrow> 's rpcs" where
  "rpcs_new nonce cnt s =
     \<lparr>srv_nonce = nonce, counting = cnt, curr_counts = cnt, counts = (\<lambda>_. 0),
      replies = reply_state_init, bufs = (\<lambda>_. []), conns = (\<lambda>_. None), procs = (\<lambda>_. None),
      heap = (\<lambda>_. None), app = s, sends = []\<rparr>"

text \<open>A dispatch job whose request is new: its connection, header, arguments and handler.\<close>

record 's job =
  jb_conn :: nat
  jb_header :: req_header
  jb_args :: unmarshall
  jb_handler :: "'s handler"

section \<open>Registration and statistics\<close>

definition reg1 :: "i32 \<Rightarrow> 's handler \<Rightarrow> 's rpcs \<Rightarrow> 's rpcs outcome" where
  "reg1 proc h rs =
     (if procs rs proc \<noteq> None then Inl Assert_failed
      else Inr (rs\<lparr>procs := (procs rs)(proc \<mapsto> h)\<rparr>))"

definition rpcbind :: "i32 \<Rightarrow> u32 \<Rightarrow> i32 \<times> u32" where
  "rpcbind a nonce = (0, nonce)"

text \<open>The constructor registers \<open>rpcbind\<close> before anybody can call.\<close>

definition bind_handler :: "u32 \<Rightarrow> 's handler" where
  "bind_handler nonce = h1_fn1 get_int put_int (\<lambda>a s. Inr (s, rpcbind a nonce))"

definition rpcs_made :: "u32 \<Rightarrow> int \<Rightarrow> 's \<Rightarrow> 's rpcs outcome" where
  "rpcs_made nonce cnt s = reg1 rpc_bind (bind_handler nonce) (rpcs_new nonce cnt s)"

text \<open>The report that is printed every \<open>counting_\<close> requests is left out.\<close>

definition updatestat :: "i32 \<Rightarrow> 's rpcs \<Rightarrow> 's rpcs outcome" where
  "updatestat proc rs =
     (if int int_max < counts rs proc + 1 \<or> curr_counts rs - 1 < - int int_max - 1
      then Inl Int_overflow
      else let rs = rs\<lparr>counts := (counts rs)(proc := counts rs proc + 1),
                       curr_counts := curr_counts rs - 1\<rparr>
        in Inr (if curr_counts rs = 0 then rs\<lparr>curr_counts := counting rs\<rparr> else rs))"

section \<open>Connections\<close>

definition on_heap :: "(conn_heap \<Rightarrow> conn_heap outcome) \<Rightarrow> 's rpcs \<Rightarrow> 's rpcs outcome" where
  "on_heap f rs = andthen (f (heap rs)) (\<lambda>h. Inr (rs\<lparr>heap := h\<rparr>))"

definition send_on :: "nat \<Rightarrow> cells \<Rightarrow> 's rpcs \<Rightarrow> 's rpcs" where
  "send_on c b rs = rs\<lparr>sends := sends rs @ [(c, b)]\<rparr>"

text \<open>Save the latest good connection to the client.\<close>

definition note_conn :: "nat \<Rightarrow> u32 \<Rightarrow> 's rpcs \<Rightarrow> 's rpcs outcome" where
  "note_conn c clt rs =
     (case conns rs clt of
        None \<Rightarrow> andthen (on_heap (incref c) rs) (\<lambda>rs. Inr (rs\<lparr>conns := (conns rs)(clt \<mapsto> c)\<rparr>))
      | Some d \<Rightarrow>
          (case (heap rs d, heap rs c) of
             (Some od, Some oc) \<Rightarrow>
               if compare_conn od oc < 0
               then andthen (on_heap (decref d) rs) (\<lambda>rs.
                    andthen (on_heap (incref c) rs) (\<lambda>rs.
                    Inr (rs\<lparr>conns := (conns rs)(clt \<mapsto> c)\<rparr>)))
               else Inr rs
           | _ \<Rightarrow> Inl Use_after_free))"

text \<open>
  Get the latest connection to the client. \<open>conns_[h.clt_nonce]\<close> of a client that has no
  entry, such as the client 0, is a null pointer.
\<close>

definition latest_conn :: "nat \<Rightarrow> u32 \<Rightarrow> 's rpcs \<Rightarrow> (nat \<times> 's rpcs) outcome" where
  "latest_conn c clt rs =
     andthen (isdead c (heap rs)) (\<lambda>dead.
     if dead \<and> conns rs clt \<noteq> Some c
     then andthen (on_heap (decref c) rs) (\<lambda>rs.
       case conns rs clt of
         None \<Rightarrow> Inl Null_deref
       | Some d \<Rightarrow> andthen (on_heap (incref d) rs) (\<lambda>rs. Inr (d, rs)))
     else Inr (c, rs))"

section \<open>dispatch\<close>

text \<open>The creation of a window for a new client; \<open>size()\<close> of the fresh list is asserted.\<close>

definition find_window :: "u32 \<Rightarrow> reply_state \<Rightarrow> reply_state outcome" where
  "find_window clt st =
     (if reply_window st clt = None
      then if window_of st clt = [] then Inr (set_window clt [] st) else Inl Assert_failed
      else Inr st)"

text \<open>A reply that is an error code alone.\<close>

definition error_reply :: "i32 \<Rightarrow> i32 \<Rightarrow> marshall outcome" where
  "error_reply xid ret = pack_reply_header \<lparr>rp_xid = xid, rp_ret = ret\<rparr> marshall_new"

text \<open>\<open>switch (stat)\<close> for the three kinds of duplicates, and the \<open>decref\<close> at the end.\<close>

definition answer_duplicate :: "nat \<Rightarrow> i32 \<Rightarrow> answer \<Rightarrow> 's rpcs \<Rightarrow> 's rpcs outcome" where
  "answer_duplicate c xid a rs =
     andthen
       (case a of
          (DONE, Some (Some b, sz)) \<Rightarrow>
            if live (replies rs) b then Inr (send_on c (take sz (bufs rs b)) rs)
            else Inl Use_after_free
        | (DONE, _) \<Rightarrow> Inl Null_deref
        | (FORGOTTEN, _) \<Rightarrow>
            andthen (error_reply xid atmostonce_failure) (\<lambda>rep. Inr (send_on c (written rep) rs))
        | _ \<Rightarrow> Inr rs)
       (on_heap (decref c))"

definition dispatch_begin :: "nat \<Rightarrow> u8 list \<Rightarrow> 's rpcs \<Rightarrow> ('s job option \<times> 's rpcs) outcome" where
  "dispatch_begin c pdu rs =
     (let (h, req) = unpack_req_header (unmarshall_of pdu);
          quit = (\<lambda>rs. andthen (on_heap (decref c) rs) (\<lambda>rs. Inr (None, rs)))
      in if \<not> uok req then quit rs
      else if rq_srv_nonce h \<noteq> 0 \<and> rq_srv_nonce h \<noteq> srv_nonce rs
      then andthen (error_reply (rq_xid h) oldsrv_failure) (\<lambda>rep.
           Inr (None, send_on c (written rep) rs))
      else case procs rs (rq_proc h) of
        None \<Rightarrow> quit rs
      | Some f \<Rightarrow>
          let job = \<lparr>jb_conn = c, jb_header = h, jb_args = req, jb_handler = f\<rparr> in
          if rq_clt_nonce h = 0 then Inr (Some job, rs)
          else
            andthen (find_window (rq_clt_nonce h) (replies rs)) (\<lambda>st.
            andthen (note_conn c (rq_clt_nonce h) (rs\<lparr>replies := st\<rparr>)) (\<lambda>rs.
            andthen (checkduplicate_and_update (rq_clt_nonce h) (rq_xid h) (rq_xid_rep h) (replies rs))
              (\<lambda>(a, st).
            let rs = rs\<lparr>replies := st\<rparr> in
            if fst a = NEW then Inr (Some job, rs)
            else andthen (answer_duplicate c (rq_xid h) a rs) (\<lambda>rs. Inr (None, rs))))))"

text \<open>
  The case \<open>NEW\<close>: \<open>b\<close> is the address of the buffer that \<open>take_buf\<close> hands over. For the
  client 0 the reply is not recorded and its buffer is freed after it was sent.
\<close>

definition count_request :: "i32 \<Rightarrow> 's rpcs \<Rightarrow> 's rpcs outcome" where
  "count_request proc rs = (if counting rs \<noteq> 0 then updatestat proc rs else Inr rs)"

definition keep_reply :: "addr \<Rightarrow> req_header \<Rightarrow> marshall \<Rightarrow> 's rpcs \<Rightarrow> 's rpcs" where
  "keep_reply b h rep rs =
     (let (b1, sz1, rep') = take_buf rep in
      if 0 < rq_clt_nonce h
      then rs\<lparr>replies := add_reply (rq_clt_nonce h) (rq_xid h) (Some b) sz1
                ((replies rs)\<lparr>live := (live (replies rs))(b := True)\<rparr>),
              bufs := (bufs rs)(b := written rep)\<rparr>
      else rs)"

definition dispatch_end :: "addr \<Rightarrow> 's job \<Rightarrow> 's rpcs \<Rightarrow> 's rpcs outcome" where
  "dispatch_end b j rs =
     (let h = jb_header j in
      andthen (count_request (rq_proc h) rs) (\<lambda>rs.
      andthen (jb_handler j (app rs) (jb_args j) marshall_new) (\<lambda>(s, ret, rep).
      if \<not> (0 \<le>s ret \<or> ret = unmarshal_args_failure) then Inl Assert_failed
      else
        andthen (pack_reply_header \<lparr>rp_xid = rq_xid h, rp_ret = ret\<rparr> rep) (\<lambda>rep.
        andthen (latest_conn (jb_conn j) (rq_clt_nonce h) (keep_reply b h rep (rs\<lparr>app := s\<rparr>))) (\<lambda>(c, rs).
        on_heap (decref c) (send_on c (written rep) rs))))))"

section \<open>got_pdu\<close>

text \<open>
  \<open>added\<close> is what \<open>addObjJob\<close> answers; the job it queues, if it does, is a dispatch of
  this PDU. \<open>reachable_\<close> is read twice.
\<close>

definition got_pdu :: "bool \<Rightarrow> bool \<Rightarrow> bool \<Rightarrow> nat \<Rightarrow> 's rpcs \<Rightarrow> (bool \<times> 's rpcs) outcome" where
  "got_pdu reachable1 added reachable2 c rs =
     (if \<not> reachable1 then Inr (True, rs)
      else andthen (on_heap (incref c) rs) (\<lambda>rs.
        if \<not> added \<or> \<not> reachable2
        then andthen (on_heap (decref c) rs) (\<lambda>rs. Inr (added, rs))
        else Inr (added, rs)))"

section \<open>What the parts leave alone\<close>

text \<open>
  Bookkeeping on connections, statistics and sends does not touch what answers a request.
\<close>

definition same_core :: "'s rpcs \<Rightarrow> 's rpcs \<Rightarrow> bool" where
  "same_core rs rs' \<longleftrightarrow> srv_nonce rs' = srv_nonce rs \<and> procs rs' = procs rs \<and>
     replies rs' = replies rs \<and> bufs rs' = bufs rs \<and> app rs' = app rs"

lemma on_heap_core:
  "on_heap f rs = Inr rs' \<Longrightarrow> same_core rs rs' \<and> sends rs' = sends rs \<and> conns rs' = conns rs"
  by (auto simp: on_heap_def andthen_Inr_iff same_core_def)

lemma note_conn_core: "note_conn c clt rs = Inr rs' \<Longrightarrow> same_core rs rs' \<and> sends rs' = sends rs"
  by (auto simp: note_conn_def andthen_Inr_iff on_heap_def same_core_def
      split: option.splits if_splits)

lemma latest_conn_core: "latest_conn c clt rs = Inr (d, rs') \<Longrightarrow> same_core rs rs' \<and> sends rs' = sends rs"
  by (auto simp: latest_conn_def andthen_Inr_iff on_heap_def same_core_def
      split: option.splits if_splits)

lemma latest_conn_conns:
  "latest_conn c k rs = Inr (d, rs') \<Longrightarrow> conns rs' = conns rs \<and> (d = c \<or> conns rs k = Some d)"
  by (auto simp: latest_conn_def andthen_Inr_iff on_heap_def split: option.splits if_splits)

lemma answer_duplicate_core: "answer_duplicate c xid a rs = Inr rs' \<Longrightarrow> same_core rs rs'"
  by (auto simp: answer_duplicate_def andthen_Inr_iff send_on_def on_heap_def same_core_def
      split: prod.splits rpcstate_t.splits option.splits if_splits)

lemma updatestat_core: "updatestat p rs = Inr rs' \<Longrightarrow> same_core rs rs' \<and> sends rs' = sends rs"
  by (auto simp: updatestat_def Let_def same_core_def split: if_splits)

lemma find_window_replies: "find_window clt st = Inr st' \<Longrightarrow> st' = st \<or> (window_of st clt = [] \<and> st' = set_window clt [] st)"
  by (auto simp: find_window_def split: if_splits)

text \<open>The window that is created first does not change what the check does.\<close>

lemma set_window_twice: "set_window c w (set_window c v st) = set_window c w st"
  by (simp add: set_window_def)

lemma set_window_live: "(set_window c w st)\<lparr>live := lv\<rparr> = set_window c w (st\<lparr>live := lv\<rparr>)"
  by (simp add: set_window_def)

lemma check_after_find:
  assumes "find_window clt st = Inr st'"
  shows "checkduplicate_and_update clt x r st' = checkduplicate_and_update clt x r st"
  using find_window_replies [OF assms]
  by (auto simp: checkduplicate_and_update_def set_window_live set_window_twice Let_def
      intro!: arg_cong2 [where f = andthen] split: option.split)


section \<open>Histories of a server\<close>

text \<open>
  A server with the jobs its dispatch threads have begun. Requests begin and end in any
  order, from any connections; a client with a nonce never acknowledges the request it
  sends; the state of the connections may change between any two steps.
\<close>

definition client_ok :: "u8 list \<Rightarrow> bool" where
  "client_ok pdu = (let (h, u) = unpack_req_header (unmarshall_of pdu)
     in rq_clt_nonce h \<noteq> 0 \<longrightarrow> rq_xid_rep h < rq_xid h)"

definition job_key :: "'s job \<Rightarrow> u32 \<times> u32" where
  "job_key j = (rq_clt_nonce (jb_header j), rq_xid (jb_header j))"

datatype disp_event =
    Begins nat "u8 list"
  | Runs u32 u32
  | Outside

inductive disp_step :: "'s rpcs \<times> 's job list \<Rightarrow> disp_event \<Rightarrow> 's rpcs \<times> 's job list \<Rightarrow> bool" where
  begins: "client_ok pdu \<Longrightarrow> dispatch_begin c pdu rs = Inr (new, rs') \<Longrightarrow>
     disp_step (rs, js) (Begins c pdu) (rs', case new of None \<Rightarrow> js | Some j \<Rightarrow> js @ [j])"
| ends: "\<not> live (replies rs) b \<Longrightarrow> dispatch_end b j rs = Inr rs' \<Longrightarrow>
     disp_step (rs, xs @ j # ys) (Runs (fst (job_key j)) (snd (job_key j))) (rs', xs @ ys)"
| outside: "disp_step (rs, js) Outside (rs\<lparr>heap := h\<rparr>, js)"

inductive disp_run :: "'s rpcs \<times> 's job list \<Rightarrow> disp_event list \<Rightarrow> 's rpcs \<times> 's job list \<Rightarrow> bool" where
  at_start: "disp_run s [] s"
| next_disp: "disp_run s es s' \<Longrightarrow> disp_step s' e s'' \<Longrightarrow> disp_run s (es @ [e]) s''"

lemma rw_run_append: "rw_run st es st' \<Longrightarrow> rw_run st' fs st'' \<Longrightarrow> rw_run st (es @ fs) st''"
proof (induction fs arbitrary: st'' rule: rev_induct)
  case Nil
  then show ?case by (auto elim: rw_run.cases)
next
  case (snoc f fs)
  from snoc.prems(2) obtain t where "rw_run st' fs t" "rw_step t f st''" by (rule rw_run_snocE)
  with snoc.IH [OF snoc.prems(1)] show ?case by (metis append_assoc rw_run.next_op)
qed

text \<open>One begun request is one look-up in the window, and it is new there if a job is left.\<close>

lemma begin_window:
  assumes "dispatch_begin c pdu rs = Inr (new, rs')" "client_ok pdu"
  shows "\<exists>ws. rw_run (replies rs) ws (replies rs') \<and> app rs' = app rs \<and>
     (\<forall>d x. d \<noteq> 0 \<longrightarrow> length (filter (is_new d x) ws) =
        (case new of Some j \<Rightarrow> if job_key j = (d, x) then 1 else 0 | None \<Rightarrow> 0))"
proof -
  obtain h req where h: "unpack_req_header (unmarshall_of pdu) = (h, req)" by (cases "unpack_req_header (unmarshall_of pdu)")
  let ?noev = "new = None \<or> (\<exists>j. new = Some j \<and> fst (job_key j) = 0)"
  have quiet: ?thesis if "same_core rs rs'" ?noev
    using that rw_run.start [of "replies rs"]
    by (intro exI [of _ "[]"]) (auto simp: same_core_def job_key_def)
  show ?thesis
  proof (cases "uok req \<and> (rq_srv_nonce h = 0 \<or> rq_srv_nonce h = srv_nonce rs) \<and>
      procs rs (rq_proc h) \<noteq> None \<and> rq_clt_nonce h \<noteq> 0")
    case False
    with assms(1) h have "same_core rs rs' \<and> ?noev"
      by (auto simp: dispatch_begin_def Let_def andthen_Inr_iff send_on_def job_key_def
          split: if_splits option.splits dest!: on_heap_core)
        (auto simp: same_core_def)
    with quiet show ?thesis by blast
  next
    case True
    then obtain f where f: "procs rs (rq_proc h) = Some f" by auto
    let ?c = "rq_clt_nonce h" and ?x = "rq_xid h" and ?r = "rq_xid_rep h"
    have r: "?r < ?x" using assms(2) h True by (simp add: client_ok_def)
    from assms(1) h f True obtain st rs1 a st2 where
      st: "find_window ?c (replies rs) = Inr st"
      and rs1: "note_conn c ?c (rs\<lparr>replies := st\<rparr>) = Inr rs1"
      and a: "checkduplicate_and_update ?c ?x ?r (replies rs1) = Inr (a, st2)"
      and fin: "(if fst a = NEW then Inr (Some \<lparr>jb_conn = c, jb_header = h, jb_args = req, jb_handler = f\<rparr>,
            rs1\<lparr>replies := st2\<rparr>)
          else andthen (answer_duplicate c ?x a (rs1\<lparr>replies := st2\<rparr>)) (\<lambda>rs. Inr (None, rs))) = Inr (new, rs')"
      by (auto simp: dispatch_begin_def Let_def andthen_Inr_iff split del: if_split)
    from note_conn_core [OF rs1] have "replies rs1 = st" "app rs1 = app rs" by (simp_all add: same_core_def)
    with a check_after_find [OF st] have "checkduplicate_and_update ?c ?x ?r (replies rs) = Inr (a, st2)"
      by simp
    then have "rw_step (replies rs) (Checked ?c ?x ?r a) st2" by (rule rw_step.looked_up [OF r])
    from rw_run.next_op [OF rw_run.start this] have run: "rw_run (replies rs) [Checked ?c ?x ?r a] st2"
      by simp
    from fin have "replies rs' = st2" "app rs' = app rs1"
      and new: "new = (if fst a = NEW then Some \<lparr>jb_conn = c, jb_header = h, jb_args = req, jb_handler = f\<rparr> else None)"
      by (auto simp: andthen_Inr_iff same_core_def split: if_splits dest!: answer_duplicate_core)
    with run \<open>app rs1 = app rs\<close> show ?thesis
      by (intro exI [of _ "[Checked ?c ?x ?r a]"]) (auto simp: is_new_def job_key_def)
  qed
qed

lemma dispatch_endE:
  assumes "dispatch_end b j rs = Inr rs'"
  obtains rs1 s ret rep0 rep c rs2
  where "same_core rs rs1" "sends rs1 = sends rs"
    "jb_handler j (app rs) (jb_args j) marshall_new = Inr (s, ret, rep0)"
    "pack_reply_header \<lparr>rp_xid = rq_xid (jb_header j), rp_ret = ret\<rparr> rep0 = Inr rep"
    "same_core (keep_reply b (jb_header j) rep (rs1\<lparr>app := s\<rparr>)) rs2" "sends rs2 = sends rs"
    "on_heap (decref c) (send_on c (written rep) rs2) = Inr rs'"
    "conns rs2 = conns rs" "c = jb_conn j \<or> conns rs (rq_clt_nonce (jb_header j)) = Some c"
proof -
  from assms obtain rs1 where rs1: "count_request (rq_proc (jb_header j)) rs = Inr rs1"
    and 1: "andthen (jb_handler j (app rs1) (jb_args j) marshall_new) (\<lambda>(s, ret, rep).
      if \<not> (0 \<le>s ret \<or> ret = unmarshal_args_failure) then Inl Assert_failed
      else
        andthen (pack_reply_header \<lparr>rp_xid = rq_xid (jb_header j), rp_ret = ret\<rparr> rep) (\<lambda>rep.
        andthen (latest_conn (jb_conn j) (rq_clt_nonce (jb_header j))
          (keep_reply b (jb_header j) rep (rs1\<lparr>app := s\<rparr>))) (\<lambda>(c, rs).
        on_heap (decref c) (send_on c (written rep) rs)))) = Inr rs'"
    unfolding dispatch_end_def Let_def andthen_Inr_iff by blast
  from 1 obtain s ret rep0 where h: "jb_handler j (app rs1) (jb_args j) marshall_new = Inr (s, ret, rep0)"
    and 2: "andthen (pack_reply_header \<lparr>rp_xid = rq_xid (jb_header j), rp_ret = ret\<rparr> rep0) (\<lambda>rep.
        andthen (latest_conn (jb_conn j) (rq_clt_nonce (jb_header j))
          (keep_reply b (jb_header j) rep (rs1\<lparr>app := s\<rparr>))) (\<lambda>(c, rs).
        on_heap (decref c) (send_on c (written rep) rs))) = Inr rs'"
    unfolding andthen_Inr_iff [of "jb_handler j (app rs1) (jb_args j) marshall_new"]
    by (auto split: if_splits)
  from 2 obtain rep c rs2
    where 3: "pack_reply_header \<lparr>rp_xid = rq_xid (jb_header j), rp_ret = ret\<rparr> rep0 = Inr rep"
      "latest_conn (jb_conn j) (rq_clt_nonce (jb_header j))
          (keep_reply b (jb_header j) rep (rs1\<lparr>app := s\<rparr>)) = Inr (c, rs2)"
      "on_heap (decref c) (send_on c (written rep) rs2) = Inr rs'"
    by (auto simp: andthen_Inr_iff)
  have core: "same_core rs rs1" "sends rs1 = sends rs"
    using rs1 by (auto simp: count_request_def same_core_def split: if_splits dest!: updatestat_core)
  have conns: "conns rs1 = conns rs"
    using rs1 by (auto simp: count_request_def updatestat_def Let_def split: if_splits)
  moreover from latest_conn_core [OF 3(2)] core(2)
  have "same_core (keep_reply b (jb_header j) rep (rs1\<lparr>app := s\<rparr>)) rs2" "sends rs2 = sends rs"
    by (auto simp: keep_reply_def take_buf_def split: if_splits)
  moreover from latest_conn_conns [OF 3(2)] conns
  have "conns rs2 = conns rs" "c = jb_conn j \<or> conns rs (rq_clt_nonce (jb_header j)) = Some c"
    by (auto simp: keep_reply_def take_buf_def split: if_splits)
  moreover have "app rs1 = app rs" using core(1) by (simp add: same_core_def)
  ultimately show thesis using h by (intro that [of rs1 s ret rep0 rep rs2 c] core 3) simp_all
qed

lemma end_window:
  assumes "dispatch_end b j rs = Inr rs'" "\<not> live (replies rs) b"
  shows "\<exists>ws. rw_run (replies rs) ws (replies rs') \<and> (\<forall>d x. filter (is_new d x) ws = [])"
proof -
  let ?h = "jb_header j"
  from assms(1) obtain rs1 s rep c rs2
    where core: "same_core rs rs1" "same_core (keep_reply b ?h rep (rs1\<lparr>app := s\<rparr>)) rs2"
      and fin: "on_heap (decref c) (send_on c (written rep) rs2) = Inr rs'"
    by (rule dispatch_endE) blast
  from on_heap_core [OF fin] core have r: "replies rs' = (if 0 < rq_clt_nonce ?h
      then add_reply (rq_clt_nonce ?h) (rq_xid ?h) (Some b) (mind rep)
        ((replies rs)\<lparr>live := (live (replies rs))(b := True)\<rparr>) else replies rs)"
    by (auto simp: same_core_def send_on_def keep_reply_def take_buf_def)
  show ?thesis
  proof (cases "0 < rq_clt_nonce ?h")
    case True
    with rw_run.next_op [OF rw_run.start rw_step.recorded [OF assms(2)]] r show ?thesis
      by (intro exI [of _ "[Recorded (rq_clt_nonce ?h) (rq_xid ?h) b (mind rep)]"]) (simp add: is_new_def)
  next
    case False
    with r show ?thesis by (intro exI [of _ "[]"]) (simp add: rw_run.start)
  qed
qed

text \<open>Runs and jobs together are the requests that were new to the window.\<close>

lemma disp_run_window:
  "disp_run s es s' \<Longrightarrow> replies (fst s) = reply_state_init \<Longrightarrow> snd s = [] \<Longrightarrow>
     \<exists>ws. rw_run reply_state_init ws (replies (fst s')) \<and>
       (\<forall>d x. d \<noteq> 0 \<longrightarrow> length (filter (\<lambda>e. e = Runs d x) es) +
          length (filter (\<lambda>j. job_key j = (d, x)) (snd s')) = length (filter (is_new d x) ws))"
proof (induction rule: disp_run.induct)
  case (at_start s)
  then show ?case by (intro exI [of _ "[]"]) (auto intro: rw_run.start)
next
  case (next_disp s es s' e s'')
  then obtain ws where ws: "rw_run reply_state_init ws (replies (fst s'))"
    and n: "\<And>d x. d \<noteq> 0 \<Longrightarrow> length (filter (\<lambda>e. e = Runs d x) es) +
          length (filter (\<lambda>j. job_key j = (d, x)) (snd s')) = length (filter (is_new d x) ws)" by blast
  show ?case
    using next_disp.hyps(2)
  proof (cases rule: disp_step.cases)
    case (begins pdu c rs new rs' js)
    from begin_window [OF begins(5,4)] obtain vs where vs: "rw_run (replies rs) vs (replies rs')"
      "\<And>d x. d \<noteq> 0 \<Longrightarrow> length (filter (is_new d x) vs) =
        (case new of Some j \<Rightarrow> if job_key j = (d, x) then 1 else 0 | None \<Rightarrow> 0)" by blast
    with rw_run_append [OF ws] begins(1) have "rw_run reply_state_init (ws @ vs) (replies rs')" by simp
    moreover have "length (filter (\<lambda>e. e = Runs d x) (es @ [e])) +
        length (filter (\<lambda>j. job_key j = (d, x)) (snd s'')) = length (filter (is_new d x) (ws @ vs))"
      if "d \<noteq> 0" for d x
      using n [OF that, of x] vs(2) [OF that, of x] begins by (auto split: option.splits)
    ultimately show ?thesis using begins(3) by (intro exI [of _ "ws @ vs"]) simp
  next
    case (ends rs b j rs' xs ys)
    from end_window [OF ends(5,4)] obtain vs where vs: "rw_run (replies rs) vs (replies rs')"
      "\<And>d x. filter (is_new d x) vs = []" by blast
    with rw_run_append [OF ws] ends(1) have "rw_run reply_state_init (ws @ vs) (replies rs')" by simp
    moreover have "length (filter (\<lambda>e. e = Runs d x) (es @ [e])) +
        length (filter (\<lambda>j. job_key j = (d, x)) (snd s'')) = length (filter (is_new d x) (ws @ vs))"
      if "d \<noteq> 0" for d x
      using n [OF that, of x] vs(2) [of d x] ends by (auto simp: prod_eq_iff)
    ultimately show ?thesis using ends(3) by (intro exI [of _ "ws @ vs"]) simp
  next
    case (outside rs js h)
    with ws n show ?thesis by (intro exI [of _ ws]) auto
  qed
qed

lemma runs_at_most_once:
  assumes "disp_run (rpcs_new nonce cnt s\<lparr>procs := ps\<rparr>, []) es t" "c \<noteq> 0"
  shows "length (filter (\<lambda>e. e = Runs c x) es) \<le> 1"
proof -
  have "replies (fst (rpcs_new nonce cnt s\<lparr>procs := ps\<rparr>, [] :: 'a job list)) = reply_state_init"
    by (simp add: rpcs_new_def)
  from disp_run_window [OF assms(1) this] obtain ws
    where ws: "rw_run reply_state_init ws (replies (fst t))"
      and n: "\<forall>d x. d \<noteq> 0 \<longrightarrow> length (filter (\<lambda>e. e = Runs d x) es) +
          length (filter (\<lambda>j. job_key j = (d, x)) (snd t)) = length (filter (is_new d x) ws)" by auto
  from n assms(2) have "length (filter (\<lambda>e. e = Runs c x) es) +
      length (filter (\<lambda>j. job_key j = (c, x)) (snd t)) = length (filter (is_new c x) ws)" by blast
  moreover from at_most_once_run [OF ws reply_inv_init]
  have "length (filter (is_new c x) ws) \<le> 1" by blast
  ultimately show ?thesis by simp
qed

text \<open>
  C9: at most once, for the handlers. In every history of a server that starts with empty
  windows, whatever requests arrive on whatever connections, duplicated, delayed and
  reordered, and however the dispatch threads are interleaved, the handler of a request of
  a client with a nonce runs at most once.
\<close>

theorem handler_runs_at_most_once:
  assumes "disp_run (rpcs_new nonce cnt s\<lparr>procs := ps\<rparr>, []) es t" "c \<noteq> 0"
  shows "length (filter (\<lambda>e. e = Runs c x) es) \<le> 1"
  by (rule runs_at_most_once [OF assms])

text \<open>
  The look-up of a request that is in the window, and of its reply right after it was kept.
\<close>

lemma answer_kept:
  assumes "sorted_win w" "x \<in> rt_xid ` set w"
  shows "answer_ref x (store_reply x (Some b) n w) = (DONE, Some (Some b, n))"
proof -
  have "lookup_reply x (store_reply x (Some b) n w) =
      Some \<lparr>rt_xid = x, rt_cb_present = True, rt_buf = Some b, rt_sz = n\<rparr>"
    using assms(2) by (induction w) (auto simp: lookup_reply_def)
  then show ?thesis by (simp add: answer_ref_def)
qed

lemma kept_all:
  "kept r (window_ref x (kept r w)) = window_ref x (kept r w)" if "r < x"
  using that by (auto simp: kept_def filter_id_conv window_ref_set)

lemma kept_store: "r \<le> x \<Longrightarrow> kept r (store_reply x b n w) = store_reply x b n (kept r w)"
  by (induction w) (auto simp: kept_def)

lemma recheck_done:
  assumes "reply_inv st" "r < x" "checkduplicate_and_update c x r st = Inr ((NEW, out), st1)"
    and "\<not> live st b"
    and "st2 = add_reply c x (Some b) n (st1\<lparr>live := (live st1)(b := True)\<rparr>)"
  shows "\<exists>st3. checkduplicate_and_update c x r st2 = Inr ((DONE, Some (Some b, n)), st3) \<and>
     live st3 b"
proof -
  let ?k = "kept r (window_of st c)"
  have inv1: "reply_inv st1" by (rule check_inv [OF assms(1-3)])
  from check_ok [OF assms(1,2)] assms(3) have a: "fst (answer_ref x ?k) = NEW"
    and st1: "st1 = set_window c (window_ref x ?k)
       (st\<lparr>live := trimmed_live r (window_of st c) (live st)\<rparr>)" by auto
  have fresh: "\<not> live st1 b" using assms(4) by (simp add: st1 trimmed_live_def)
  have inv2: "reply_inv st2" unfolding assms(5) by (rule record_inv [OF inv1 fresh])
  have w1: "window_of st1 c = window_ref x ?k" by (simp add: st1)
  have w2: "window_of st2 c = store_reply x (Some b) n (window_ref x ?k)"
    by (simp add: assms(5) add_reply_def w1)
  have "kept r (window_of st2 c) = store_reply x (Some b) n (window_ref x ?k)"
    using assms(2) by (simp add: w2 kept_store kept_all [OF assms(2)])
  moreover have "sorted_win (window_ref x ?k)" using reply_invD(1) [OF inv1, of c] w1 by simp
  moreover have "x \<in> rt_xid ` set (window_ref x ?k)" by (simp add: window_ref_set a)
  ultimately have ans: "answer_ref x (kept r (window_of st2 c)) = (DONE, Some (Some b, n))"
    by (simp add: answer_kept)
  with check_ok [OF inv2 assms(2), of c] obtain st3
    where st3: "checkduplicate_and_update c x r st2 = Inr ((DONE, Some (Some b, n)), st3)" by auto
  have "filter (\<lambda>e. rt_xid e < r) (window_of st2 c) = []"
    using assms(2) by (auto simp: w2 filter_empty_conv window_ref_set kept_simps
        split: if_splits dest!: store_reply_set)
  then have "live st3 b"
    using check_ok [OF inv2 assms(2), of c] st3
    by (auto simp: trimmed_live_def bufset_def assms(5) add_reply_def)
  with st3 show ?thesis by blast
qed


text \<open>What a request that passes the first tests does.\<close>

lemma begin_accepted:
  assumes "unpack_req_header (unmarshall_of pdu) = (h, req)" "uok req"
    and "rq_srv_nonce h = 0 \<or> rq_srv_nonce h = srv_nonce rs" "procs rs (rq_proc h) = Some f"
    and "rq_clt_nonce h \<noteq> 0" "dispatch_begin c pdu rs = Inr (new, rs')"
  shows "\<exists>a rs1. checkduplicate_and_update (rq_clt_nonce h) (rq_xid h) (rq_xid_rep h) (replies rs) =
       Inr (a, replies rs1) \<and> srv_nonce rs1 = srv_nonce rs \<and> procs rs1 = procs rs \<and> app rs1 = app rs \<and>
     bufs rs1 = bufs rs \<and> sends rs1 = sends rs \<and>
     (if fst a = NEW
      then new = Some \<lparr>jb_conn = c, jb_header = h, jb_args = req, jb_handler = f\<rparr> \<and> rs' = rs1
      else new = None \<and> answer_duplicate c (rq_xid h) a rs1 = Inr rs')"
proof -
  let ?c = "rq_clt_nonce h" and ?x = "rq_xid h" and ?r = "rq_xid_rep h"
  from assms obtain st rs1 a st2 where
    st: "find_window ?c (replies rs) = Inr st"
    and rs1: "note_conn c ?c (rs\<lparr>replies := st\<rparr>) = Inr rs1"
    and a: "checkduplicate_and_update ?c ?x ?r (replies rs1) = Inr (a, st2)"
    and fin: "(if fst a = NEW then Inr (Some \<lparr>jb_conn = c, jb_header = h, jb_args = req, jb_handler = f\<rparr>,
          rs1\<lparr>replies := st2\<rparr>)
        else andthen (answer_duplicate c ?x a (rs1\<lparr>replies := st2\<rparr>)) (\<lambda>rs. Inr (None, rs))) = Inr (new, rs')"
    by (auto simp: dispatch_begin_def Let_def andthen_Inr_iff split del: if_split)
  from note_conn_core [OF rs1] have core: "replies rs1 = st" "app rs1 = app rs" "bufs rs1 = bufs rs"
    "srv_nonce rs1 = srv_nonce rs" "procs rs1 = procs rs" "sends rs1 = sends rs"
    by (simp_all add: same_core_def)
  with a check_after_find [OF st] have "checkduplicate_and_update ?c ?x ?r (replies rs) = Inr (a, st2)"
    by simp
  with core fin show ?thesis
    by (intro exI [of _ a] exI [of _ "rs1\<lparr>replies := st2\<rparr>"]) (auto simp: andthen_Inr_iff split: if_splits)
qed

lemma begin_job:
  assumes "dispatch_begin c pdu rs = Inr (Some j, rs')"
  obtains req where "unpack_req_header (unmarshall_of pdu) = (jb_header j, req)" "uok req"
    "rq_srv_nonce (jb_header j) = 0 \<or> rq_srv_nonce (jb_header j) = srv_nonce rs"
    "procs rs (rq_proc (jb_header j)) = Some (jb_handler j)"
  using assms
  by (auto simp: dispatch_begin_def Let_def andthen_Inr_iff split: prod.splits if_splits option.splits)


text \<open>
  A reference is lost for every request to an old instance. \<open>got_pdu\<close> takes a reference
  on the connection for the job, and every other early return of \<open>dispatch\<close> gives it back;
  the branch that answers \<open>oldsrv_failure\<close> returns without \<open>decref\<close>, so the count of the
  connection is one too high from then on and the connection is never deleted.
\<close>

lemma old_server_request_leaks_reference:
  assumes "heap rs c = Some o1" "0 < cn_refno o1"
    and "unpack_req_header (unmarshall_of pdu) = (h, req)" "uok req"
    and "rq_srv_nonce h \<noteq> 0" "rq_srv_nonce h \<noteq> srv_nonce rs"
  shows "\<exists>rs1 rs2 o2 bs. got_pdu True True True c rs = Inr (True, rs1) \<and>
     dispatch_begin c pdu rs1 = Inr (None, rs2) \<and> sends rs2 = sends rs @ [(c, bs)] \<and>
     heap rs2 c = Some o2 \<and> cn_refno o2 = cn_refno o1 + 1"
proof -
  obtain rep where rep: "error_reply (rq_xid h) oldsrv_failure = Inr rep"
    using pack_reply_header_sent [OF body_new] by (auto simp: error_reply_def)
  let ?rs1 = "rs\<lparr>heap := (heap rs)(c \<mapsto> o1\<lparr>cn_refno := cn_refno o1 + 1\<rparr>)\<rparr>"
  have "got_pdu True True True c rs = Inr (True, ?rs1)"
    using assms(1) by (simp add: got_pdu_def on_heap_def incref_def)
  moreover have "dispatch_begin c pdu ?rs1 = Inr (None, send_on c (written rep) ?rs1)"
    using assms(3-6) rep by (simp add: dispatch_begin_def)
  ultimately show ?thesis by (auto simp: send_on_def)
qed

text \<open>
  A client without a nonce can stop the server. The client 0 is never entered in
  \<open>conns_\<close>; when its connection died while its handler ran, \<open>dispatch\<close> looks for the latest
  connection of client 0, gets the null pointer that \<open>conns_[0]\<close> creates, and calls
  \<open>incref\<close> on it.
\<close>

lemma dead_connection_of_client_0_crashes:
  assumes "rq_clt_nonce (jb_header j) = 0" "conns rs 0 = None" "counting rs = 0"
    and "heap rs (jb_conn j) = Some o1" "cn_dead o1" "1 < cn_refno o1"
    and "jb_handler j (app rs) (jb_args j) marshall_new = Inr (s, ret, rep)" "0 \<le>s ret"
    and "pack_reply_header \<lparr>rp_xid = rq_xid (jb_header j), rp_ret = ret\<rparr> rep = Inr rep'"
  shows "dispatch_end b j rs = Inl Null_deref"
  using assms
  by (simp add: dispatch_end_def count_request_def keep_reply_def take_buf_def latest_conn_def
      isdead_def on_heap_def decref_def Let_def)


section \<open>A concrete server\<close>

text \<open>
  Procedure 23 counts its calls. Client 7 sends request 1 on connection 5, which holds the
  references of two jobs.
\<close>

definition sample_header :: req_header where
  "sample_header = \<lparr>rq_xid = 1, rq_proc = 23, rq_clt_nonce = 7, rq_srv_nonce = 0, rq_xid_rep = 0\<rparr>"

definition sample_request :: "u8 list" where
  "sample_request = [0, 0, 0, 24] @ enc_req_header sample_header"

definition sample_handler :: "nat handler" where
  "sample_handler = (\<lambda>s u m. Inr (s + 1, 0, m))"

definition sample_heap :: conn_heap where
  "sample_heap = (\<lambda>_. None)(5 \<mapsto> (connection_new 5 0 (0, 0))\<lparr>cn_refno := 3\<rparr>)"

definition sample_server :: "nat rpcs" where
  "sample_server = (rpcs_new 99 0 0\<lparr>procs := (\<lambda>_. None)(23 \<mapsto> sample_handler)\<rparr>)\<lparr>heap := sample_heap\<rparr>"

lemma sample_unpack:
  "unpack_req_header (unmarshall_of sample_request) = (sample_header, (unmarshall_of sample_request)\<lparr>uind := 24\<rparr>)"
  by (rule unpack_req_header_hit) (simp add: sample_request_def unmarshall_of_def enc_req_header_def enc_u32_def)

lemma sample_client_ok: "client_ok sample_request"
  by (simp add: client_ok_def sample_unpack sample_header_def)

definition sample_job :: "nat job" where
  "sample_job = \<lparr>jb_conn = 5, jb_header = sample_header,
     jb_args = (unmarshall_of sample_request)\<lparr>uind := 24\<rparr>, jb_handler = sample_handler\<rparr>"

lemma sample_begin:
  "\<exists>rs1. dispatch_begin 5 sample_request sample_server = Inr (Some sample_job, rs1) \<and>
     reply_window (replies rs1) = (\<lambda>_. None)(7 \<mapsto> [reply_t_new 1]) \<and> live (replies rs1) = (\<lambda>_. False) \<and>
     conns rs1 = (\<lambda>_. None)(7 \<mapsto> 5) \<and> app rs1 = 0 \<and> counting rs1 = 0 \<and>
     procs rs1 = procs sample_server \<and> srv_nonce rs1 = srv_nonce sample_server \<and> sends rs1 = [] \<and>
     heap rs1 = (\<lambda>_. None)(5 \<mapsto> (connection_new 5 0 (0, 0))\<lparr>cn_refno := 4\<rparr>)"
proof -
  have "uok ((unmarshall_of sample_request)\<lparr>uind := 24\<rparr>)" by (simp add: unmarshall_of_def)
  then show ?thesis
    unfolding dispatch_begin_def sample_unpack
    by (simp add: sample_header_def sample_server_def rpcs_new_def find_window_def window_of_def
        reply_state_init_def note_conn_def on_heap_def incref_def sample_heap_def
        checkduplicate_and_update_def set_window_def sample_job_def)
qed

lemma sample_end:
  assumes "counting rs1 = 0" "app rs1 = 0" "live (replies rs1) = (\<lambda>_. False)"
    and "reply_window (replies rs1) = (\<lambda>_. None)(7 \<mapsto> [reply_t_new 1])"
    and "heap rs1 = (\<lambda>_. None)(5 \<mapsto> (connection_new 5 0 (0, 0))\<lparr>cn_refno := 4\<rparr>)"
  shows "\<exists>rs2 n. dispatch_end 11 sample_job rs1 = Inr rs2 \<and> procs rs2 = procs rs1 \<and> srv_nonce rs2 = srv_nonce rs1 \<and>
     conns rs2 = conns rs1 \<and> live (replies rs2) = (\<lambda>_. False)(11 := True) \<and>
     reply_window (replies rs2) =
       (\<lambda>_. None)(7 \<mapsto> [\<lparr>rt_xid = 1, rt_cb_present = True, rt_buf = Some 11, rt_sz = n\<rparr>]) \<and>
     heap rs2 = (\<lambda>_. None)(5 \<mapsto> (connection_new 5 0 (0, 0))\<lparr>cn_refno := 3\<rparr>)"
proof -
  obtain rep where "pack_reply_header \<lparr>rp_xid = 1, rp_ret = 0\<rparr> marshall_new = Inr rep"
    using pack_reply_header_sent [OF body_new] by blast
  with assms show ?thesis
    by (simp add: dispatch_end_def count_request_def sample_job_def sample_handler_def sample_header_def
        keep_reply_def take_buf_def latest_conn_def isdead_def on_heap_def send_on_def decref_def Let_def
        connection_new_def add_reply_def set_window_def window_of_def reply_t_new_def)
      (rule exI [of _ "mind rep"], rule refl)
qed

lemma sample_start: "disp_run (rpcs_new 99 0 0\<lparr>procs := (\<lambda>_. None)(23 \<mapsto> sample_handler)\<rparr>, []) [Outside] (sample_server, [])"
  using disp_run.next_disp [OF disp_run.at_start disp_step.outside] unfolding sample_server_def
  by (metis append_Nil)

theorem handler_runs_at_most_once_witness:
  "length (filter (\<lambda>e. e = Runs 7 1) [Outside, Begins 5 sample_request, Runs 7 1]) \<le> 1"
proof -
  from sample_begin obtain rs1 where 1: "dispatch_begin 5 sample_request sample_server = Inr (Some sample_job, rs1)"
    "reply_window (replies rs1) = (\<lambda>_. None)(7 \<mapsto> [reply_t_new 1])" "live (replies rs1) = (\<lambda>_. False)"
    "app rs1 = 0" "counting rs1 = 0"
    "heap rs1 = (\<lambda>_. None)(5 \<mapsto> (connection_new 5 0 (0, 0))\<lparr>cn_refno := 4\<rparr>)" by blast
  from sample_end [OF 1(5,4,3,2,6)] obtain rs2 where 2: "dispatch_end 11 sample_job rs1 = Inr rs2" by blast
  from disp_run.next_disp [OF sample_start disp_step.begins [OF sample_client_ok 1(1)]]
  have b: "disp_run (rpcs_new 99 0 0\<lparr>procs := (\<lambda>_. None)(23 \<mapsto> sample_handler)\<rparr>, [])
      [Outside, Begins 5 sample_request] (rs1, [] @ [sample_job] @ [])" by simp
  have "disp_step (rs1, [] @ [sample_job] @ []) (Runs 7 1) (rs2, [])"
    using disp_step.ends [OF _ 2, of "[]" "[]"] 1(3) by (simp add: job_key_def sample_job_def sample_header_def)
  from disp_run.next_disp [OF b this]
  have "disp_run (rpcs_new 99 0 0\<lparr>procs := (\<lambda>_. None)(23 \<mapsto> sample_handler)\<rparr>, [])
      [Outside, Begins 5 sample_request, Runs 7 1] (rs2, [])" by simp
  from handler_runs_at_most_once [OF this, of 7 1] show ?thesis by simp
qed


lemma old_server_request_leaks_reference_witness:
  "\<exists>rs1 rs2 o2 bs. got_pdu True True True 5 sample_server = Inr (True, rs1) \<and>
     dispatch_begin 5 ([0, 0, 0, 24] @ enc_req_header (sample_header\<lparr>rq_srv_nonce := 98\<rparr>)) rs1 = Inr (None, rs2) \<and>
     sends rs2 = sends sample_server @ [(5, bs)] \<and> heap rs2 5 = Some o2 \<and>
     cn_refno o2 = cn_refno (connection_new 5 0 (0, 0)\<lparr>cn_refno := 3\<rparr>) + 1"
proof (rule old_server_request_leaks_reference)
  show "unpack_req_header (unmarshall_of ([0, 0, 0, 24] @ enc_req_header (sample_header\<lparr>rq_srv_nonce := 98\<rparr>))) =
      (sample_header\<lparr>rq_srv_nonce := 98\<rparr>,
       (unmarshall_of ([0, 0, 0, 24] @ enc_req_header (sample_header\<lparr>rq_srv_nonce := 98\<rparr>)))\<lparr>uind := 24\<rparr>)"
    by (rule unpack_req_header_hit) (simp add: unmarshall_of_def enc_req_header_def enc_u32_def)
qed (simp_all add: sample_server_def rpcs_new_def sample_heap_def unmarshall_of_def)

lemma dead_connection_of_client_0_crashes_witness:
  "dispatch_end 11 (sample_job\<lparr>jb_header := sample_header\<lparr>rq_clt_nonce := 0\<rparr>\<rparr>)
     (sample_server\<lparr>heap := (\<lambda>_. None)(5 \<mapsto> (connection_new 5 0 (0, 0))\<lparr>cn_refno := 3, cn_dead := True\<rparr>)\<rparr>) =
   Inl Null_deref"
proof -
  obtain rep where "pack_reply_header \<lparr>rp_xid = 1, rp_ret = 0\<rparr> marshall_new = Inr rep"
    using pack_reply_header_sent [OF body_new] by blast
  then show ?thesis
    by (intro dead_connection_of_client_0_crashes [where ret = 0 and s = 1 and rep = marshall_new and
          ?o1.0 = "(connection_new 5 0 (0, 0))\<lparr>cn_refno := 3, cn_dead := True\<rparr>"])
      (simp_all add: sample_server_def rpcs_new_def sample_job_def sample_handler_def sample_header_def)
qed

end
