(* ===== verification/LockTester.thy ===== *)
theory LockTester
  imports LockServer
begin

text \<open>
  The test programs of \<open>lock_tester.cc\<close> as clients of the lock monitor: threads that
  acquire and release locks by blocking calls, and \<open>check_grant\<close> and \<open>check_release\<close>, which
  stop the test when a lock is granted twice. A call occupies one of the threads of the
  dispatch pool of the server while its handler runs or waits; delivery of requests and
  replies is exactly once, which the at-most-once logic and retransmission provide.
\<close>

section \<open>The tester\<close>

datatype lt_op =
    Acquire u64
  | Release u64
  | Check_grant u64
  | Check_release u64

definition check_grant :: "u64 \<Rightarrow> (u8 \<Rightarrow> int) \<Rightarrow> (u8 \<Rightarrow> int) option" where
  "check_grant lid ct =
     (let x = ucast (lid AND 0xff) in if ct x \<noteq> 0 then None else Some (ct(x := ct x + 1)))"

definition check_release :: "u64 \<Rightarrow> (u8 \<Rightarrow> int) \<Rightarrow> (u8 \<Rightarrow> int) option" where
  "check_release lid ct =
     (let x = ucast (lid AND 0xff) in if ct x \<noteq> 1 then None else Some (ct(x := ct x - 1)))"

definition lock_a :: u64 where "lock_a = 1"

definition lock_b :: u64 where "lock_b = 2"

definition test1 :: "lt_op list" where
  "test1 =
     [Acquire lock_a, Check_grant lock_a, Release lock_a, Check_release lock_a,
      Acquire lock_a, Check_grant lock_a, Release lock_a, Check_release lock_a,
      Acquire lock_a, Check_grant lock_a, Acquire lock_b, Check_grant lock_b,
      Release lock_b, Check_release lock_b, Release lock_a, Check_release lock_a]"

text \<open>The body that the threads of tests 2 to 5 run, and how often; they differ in the clients.\<close>

definition lock_round :: "u64 \<Rightarrow> lt_op list" where
  "lock_round l = [Acquire l, Check_grant l, Check_release l, Release l]"

definition test2 :: "lt_op list" where
  "test2 = lock_round lock_a"

definition test3 :: "lt_op list" where
  "test3 = concat (replicate 10 (lock_round lock_a))"

definition test4 :: "lt_op list" where
  "test4 = concat (replicate 10 (lock_round lock_a))"

definition test5 :: "lt_op list" where
  "test5 = concat (replicate 10 (lock_round lock_a))"

text \<open>The client of thread \<open>i\<close>: its index in \<open>lc\<close>, from which the nonce is looked up.\<close>

definition client_test2 :: "nat \<Rightarrow> nat" where "client_test2 i = i"

definition client_test3 :: "nat \<Rightarrow> nat" where "client_test3 i = i"

definition client_test4 :: "nat \<Rightarrow> nat" where "client_test4 i = 0"

definition client_test5 :: "nat \<Rightarrow> nat" where "client_test5 i = (if i < 5 then 0 else 1)"

section \<open>The system\<close>

text \<open>
  A thread runs locally, has sent a request that waits for a dispatch thread, is served by
  one that waits in \<open>grant\<close>, or has been answered and the reply is on its way.
\<close>

datatype tstat = Local | Sent | Serving | Replied

record tester =
  mon :: monitor
  prog :: "nat \<Rightarrow> lt_op list"
  stat :: "nat \<Rightarrow> tstat"
  ct :: "u8 \<Rightarrow> int"
  failed :: bool

definition tester_init :: "(nat \<Rightarrow> lt_op list) \<Rightarrow> tester" where
  "tester_init ps =
     \<lparr>mon = monitor_init, prog = ps, stat = (\<lambda>_. Local), ct = (\<lambda>_. 0), failed = False\<rparr>"

definition served :: "nat \<Rightarrow> tester \<Rightarrow> nat" where
  "served n s = card {i. i < n \<and> stat s i = Serving}"

text \<open>A handler may run on if it has a thread already, or if one of the \<open>w\<close> threads is idle.\<close>

definition may_run :: "nat \<Rightarrow> nat \<Rightarrow> tester \<Rightarrow> nat \<Rightarrow> bool" where
  "may_run w n s i \<longleftrightarrow> stat s i = Serving \<or> (stat s i = Sent \<and> served n s < w)"

inductive tester_step :: "nat \<Rightarrow> nat \<Rightarrow> (nat \<Rightarrow> i32) \<Rightarrow> tester \<Rightarrow> tester \<Rightarrow> bool" for w n cid where
  send_call: "i < n \<Longrightarrow> stat s i = Local \<Longrightarrow> prog s i = Acquire l # p \<or> prog s i = Release l # p \<Longrightarrow>
     tester_step w n cid s (s\<lparr>stat := (stat s)(i := Sent)\<rparr>)"
| acquired: "i < n \<Longrightarrow> may_run w n s i \<Longrightarrow> prog s i = Acquire l # p \<Longrightarrow>
     monitor_step (mon s) (Granted i (cid i) l) m \<Longrightarrow>
     tester_step w n cid s (s\<lparr>mon := m, stat := (stat s)(i := Replied), prog := (prog s)(i := p)\<rparr>)"
| waits: "i < n \<Longrightarrow> may_run w n s i \<Longrightarrow> prog s i = Acquire l # p \<Longrightarrow>
     monitor_step (mon s) (Blocked i (cid i) l) m \<Longrightarrow>
     tester_step w n cid s (s\<lparr>mon := m, stat := (stat s)(i := Serving)\<rparr>)"
| released: "i < n \<Longrightarrow> may_run w n s i \<Longrightarrow> prog s i = Release l # p \<Longrightarrow>
     e = Released i (cid i) l \<or> e = Refused i (cid i) l \<Longrightarrow> monitor_step (mon s) e m \<Longrightarrow>
     tester_step w n cid s (s\<lparr>mon := m, stat := (stat s)(i := Replied), prog := (prog s)(i := p)\<rparr>)"
| reply: "i < n \<Longrightarrow> stat s i = Replied \<Longrightarrow>
     tester_step w n cid s (s\<lparr>stat := (stat s)(i := Local)\<rparr>)"
| spurious_wake: "monitor_step (mon s) (Spurious i) m \<Longrightarrow> tester_step w n cid s (s\<lparr>mon := m\<rparr>)"
| granted: "i < n \<Longrightarrow> stat s i = Local \<Longrightarrow> prog s i = Check_grant l # p \<Longrightarrow>
     tester_step w n cid s (case check_grant l (ct s) of
        None \<Rightarrow> s\<lparr>failed := True\<rparr> | Some c \<Rightarrow> s\<lparr>ct := c, prog := (prog s)(i := p)\<rparr>)"
| freed: "i < n \<Longrightarrow> stat s i = Local \<Longrightarrow> prog s i = Check_release l # p \<Longrightarrow>
     tester_step w n cid s (case check_release l (ct s) of
        None \<Rightarrow> s\<lparr>failed := True\<rparr> | Some c \<Rightarrow> s\<lparr>ct := c, prog := (prog s)(i := p)\<rparr>)"

inductive tester_run :: "nat \<Rightarrow> nat \<Rightarrow> (nat \<Rightarrow> i32) \<Rightarrow> tester \<Rightarrow> tester \<Rightarrow> bool" for w n cid where
  no_step: "tester_run w n cid s s"
| more_step: "tester_run w n cid s s' \<Longrightarrow> tester_step w n cid s' s'' \<Longrightarrow> tester_run w n cid s s''"

section \<open>Programs of rounds\<close>

text \<open>
  What is left of a thread's program: whole rounds, or a rest of one round and then whole
  rounds. \<open>inside p\<close> is the lock the thread holds, \<open>counted p\<close> the one it has counted.
\<close>

inductive rounds :: "lt_op list \<Rightarrow> bool" where
  no_round: "rounds []"
| round: "rounds p \<Longrightarrow> rounds (Acquire l # Check_grant l # Check_release l # Release l # p)"

definition rest_of_rounds :: "lt_op list \<Rightarrow> bool" where
  "rest_of_rounds p \<longleftrightarrow> rounds p \<or>
     (\<exists>l q. rounds q \<and> (p = Check_grant l # Check_release l # Release l # q \<or>
        p = Check_release l # Release l # q \<or> p = Release l # q))"

fun inside :: "lt_op list \<Rightarrow> u64 option" where
  "inside (Check_grant l # p) = Some l"
| "inside (Check_release l # p) = Some l"
| "inside (Release l # p) = Some l"
| "inside p = None"

fun counted :: "lt_op list \<Rightarrow> u64 option" where
  "counted (Check_release l # p) = Some l"
| "counted p = None"

lemma rounds_shape: "rounds p \<Longrightarrow> p = [] \<or> (\<exists>l q. p = Acquire l # Check_grant l # Check_release l # Release l # q \<and> rounds q)"
  by (auto elim: rounds.cases)

lemma rounds_inside: "rounds p \<Longrightarrow> inside p = None" "rounds p \<Longrightarrow> counted p = None"
  by (erule rounds.cases; simp)+

lemma rounds_append: "rounds p \<Longrightarrow> rounds q \<Longrightarrow> rounds (p @ q)"
  by (induction rule: rounds.induct) (auto intro: rounds.intros)

lemma rounds_concat: "rounds (concat (replicate k (lock_round l)))"
  by (induction k) (auto simp: lock_round_def intro: rounds.intros)

lemma rounds_tests: "rounds test2" "rounds test3" "rounds test4" "rounds test5"
  using rounds_concat [of 1 lock_a] rounds_concat [of 10 lock_a]
  by (simp_all add: test2_def test3_def test4_def test5_def)

lemma rest_cases:
  assumes "rest_of_rounds p"
  shows "p = [] \<or> (\<exists>l q. rounds q \<and>
     (p = Acquire l # Check_grant l # Check_release l # Release l # q \<or>
      p = Check_grant l # Check_release l # Release l # q \<or>
      p = Check_release l # Release l # q \<or> p = Release l # q))"
  using assms unfolding rest_of_rounds_def by (blast dest: rounds_shape)

lemma rest_acquire:
  assumes "rest_of_rounds (Acquire l # p)"
  shows "rest_of_rounds p \<and> inside p = Some l \<and> counted p = None"
  using rest_cases [OF assms] by (auto simp: rest_of_rounds_def)

lemma rest_grant:
  assumes "rest_of_rounds (Check_grant l # p)"
  shows "rest_of_rounds p \<and> inside p = Some l \<and> counted p = Some l"
  using rest_cases [OF assms] by (auto simp: rest_of_rounds_def)

lemma rest_free:
  assumes "rest_of_rounds (Check_release l # p)"
  shows "rest_of_rounds p \<and> inside p = Some l \<and> counted p = None"
  using rest_cases [OF assms] by (auto simp: rest_of_rounds_def)

lemma rest_release:
  assumes "rest_of_rounds (Release l # p)"
  shows "rest_of_rounds p \<and> inside p = None \<and> counted p = None"
  using rest_cases [OF assms] rounds_inside by (auto simp: rest_of_rounds_def)

section \<open>The invariant\<close>

text \<open>Owners of locks and threads inside a round are the same thing, one thread per lock.\<close>

definition own_ok :: "nat \<Rightarrow> (nat \<Rightarrow> i32) \<Rightarrow> (u64 \<Rightarrow> i32 option) \<Rightarrow> (nat \<Rightarrow> lt_op list) \<Rightarrow> bool" where
  "own_ok n cid ow pr \<longleftrightarrow>
     (\<forall>i j l. i < n \<longrightarrow> j < n \<longrightarrow> inside (pr i) = Some l \<longrightarrow> inside (pr j) = Some l \<longrightarrow> i = j) \<and>
     (\<forall>i l. i < n \<longrightarrow> inside (pr i) = Some l \<longrightarrow> ow l = Some (cid i)) \<and>
     (\<forall>l. ow l \<noteq> None \<longrightarrow> (\<exists>i < n. inside (pr i) = Some l))"

lemma own_okD:
  assumes "own_ok n cid ow pr"
  shows "i < n \<Longrightarrow> j < n \<Longrightarrow> inside (pr i) = Some l \<Longrightarrow> inside (pr j) = Some l \<Longrightarrow> i = j"
    and "i < n \<Longrightarrow> inside (pr i) = Some l \<Longrightarrow> ow l = Some (cid i)"
    and "ow l \<noteq> None \<Longrightarrow> \<exists>i < n. inside (pr i) = Some l"
  using assms unfolding own_ok_def by blast+

lemma own_ok_keep:
  "own_ok n cid ow pr \<Longrightarrow> inside p = inside (pr i) \<Longrightarrow> own_ok n cid ow (pr(i := p))"
  unfolding own_ok_def by (smt (verit) fun_upd_apply)

lemma own_ok_take:
  assumes "own_ok n cid ow pr" "i < n" "ow l = None" "inside (pr i) = None" "inside p = Some l"
  shows "own_ok n cid (ow(l \<mapsto> cid i)) (pr(i := p))"
proof -
  note d = own_okD [OF assms(1)]
  have none: "inside (pr j) \<noteq> Some l" if "j < n" for j using d(2) [OF that, of l] assms(3) by auto
  have keep: "\<exists>j < n. inside ((pr(i := p)) j) = Some k" if k: "ow k \<noteq> None" for k
  proof -
    from d(3) [OF k] obtain j where j: "j < n" "inside (pr j) = Some k" by blast
    with assms(4) have "j \<noteq> i" by auto
    with j show ?thesis by (intro exI [of _ j]) simp
  qed
  have "\<exists>j < n. inside ((pr(i := p)) j) = Some l" using assms(2,5) by (intro exI [of _ i]) simp
  with keep none d(1,2) assms(2,5) show ?thesis
    unfolding own_ok_def by (auto split: if_splits)
qed

lemma own_ok_drop:
  assumes "own_ok n cid ow pr" "i < n" "inside (pr i) = Some l" "inside p = None"
  shows "own_ok n cid (ow(l := None)) (pr(i := p))"
proof -
  note d = own_okD [OF assms(1)]
  have keep: "\<exists>j < n. inside ((pr(i := p)) j) = Some k" if k: "ow k \<noteq> None" "k \<noteq> l" for k
  proof -
    from d(3) [OF k(1)] obtain j where j: "j < n" "inside (pr j) = Some k" by blast
    with assms(3) k(2) have "j \<noteq> i" by auto
    with j show ?thesis by (intro exI [of _ j]) simp
  qed
  have "inside (pr j) \<noteq> Some l" if "j < n" "j \<noteq> i" for j using d(1) [OF that(1) assms(2)] assms(3) that(2) by auto
  with keep d(1,2) assms(4) show ?thesis
    unfolding own_ok_def by (auto split: if_splits)
qed

text \<open>The counters of \<open>check_grant\<close>: 1 for the lock of a thread that counted it, 0 otherwise.\<close>

definition slot :: "u64 \<Rightarrow> u8" where
  "slot l = ucast (l AND 0xff)"

definition ct_ok :: "nat \<Rightarrow> (u8 \<Rightarrow> int) \<Rightarrow> (nat \<Rightarrow> lt_op list) \<Rightarrow> bool" where
  "ct_ok n c pr \<longleftrightarrow>
     (\<forall>x. c x = (if \<exists>i l. i < n \<and> counted (pr i) = Some l \<and> slot l = x then 1 else 0))"

lemma ct_ok_keep:
  assumes "ct_ok n c pr" "counted p = counted (pr i)"
  shows "ct_ok n c (pr(i := p))"
proof -
  have "counted ((pr(i := p)) j) = counted (pr j)" for j using assms(2) by simp
  with assms(1) show ?thesis by (simp add: ct_ok_def)
qed

lemma counted_inside: "counted p = Some l \<Longrightarrow> inside p = Some l"
  by (cases p rule: counted.cases) auto

definition lid_of :: "lt_op \<Rightarrow> u64" where
  "lid_of x = (case x of Acquire l \<Rightarrow> l | Release l \<Rightarrow> l | Check_grant l \<Rightarrow> l | Check_release l \<Rightarrow> l)"

lemma lid_of_simps [simp]:
  "lid_of (Acquire l) = l" "lid_of (Release l) = l" "lid_of (Check_grant l) = l" "lid_of (Check_release l) = l"
  by (simp_all add: lid_of_def)

lemma inside_lid: "inside p = Some l \<Longrightarrow> l \<in> lid_of ` set p"
  by (cases p rule: inside.cases) auto

text \<open>Lock names are distinct in the first byte, as \<open>check_grant\<close> assumes.\<close>

definition names_ok :: "nat \<Rightarrow> u64 set \<Rightarrow> (nat \<Rightarrow> lt_op list) \<Rightarrow> bool" where
  "names_ok n L pr \<longleftrightarrow> inj_on slot L \<and> (\<forall>i < n. lid_of ` set (pr i) \<subseteq> L)"

lemma same_slot:
  assumes "own_ok n cid ow pr" "names_ok n L pr" "i < n" "j < n"
    and "inside (pr i) = Some l" "counted (pr j) = Some k" "slot k = slot l"
  shows "j = i \<and> k = l"
proof -
  note k = counted_inside [OF assms(6)]
  have "k \<in> L" "l \<in> L"
    using assms(2-4) inside_lid [OF k] inside_lid [OF assms(5)] by (auto simp: names_ok_def)
  with assms(2,7) have "k = l" by (auto simp: names_ok_def dest: inj_onD)
  with own_okD(1) [OF assms(1,4,3), of l] k assms(5) show ?thesis by simp
qed

lemma ct_ok_inc:
  assumes "ct_ok n c pr" "own_ok n cid ow pr" "names_ok n L pr" "i < n"
    and "inside (pr i) = Some l" "counted (pr i) = None" "counted p = Some l"
  shows "c (slot l) = 0 \<and> ct_ok n (c(slot l := 1)) (pr(i := p))"
proof -
  have "c (slot l) = 0"
    using assms(1) same_slot [OF assms(2-4) _ assms(5)] assms(6) by (auto simp: ct_ok_def)
  moreover have "(\<exists>j k. j < n \<and> counted ((pr(i := p)) j) = Some k \<and> slot k = x) \<longleftrightarrow>
      x = slot l \<or> (\<exists>j k. j < n \<and> counted (pr j) = Some k \<and> slot k = x)" (is "?l \<longleftrightarrow> ?r") for x
  proof
    assume ?l
    then obtain j k where "j < n" "counted ((pr(i := p)) j) = Some k" "slot k = x" by blast
    with assms(7) show ?r by (cases "j = i") auto
  next
    assume ?r
    then show ?l
    proof
      assume "x = slot l"
      with assms(4,7) show ?l by (intro exI [of _ i] exI [of _ l]) simp
    next
      assume "\<exists>j k. j < n \<and> counted (pr j) = Some k \<and> slot k = x"
      then obtain j k where j: "j < n" "counted (pr j) = Some k" "slot k = x" by blast
      with assms(6) have "j \<noteq> i" by auto
      with j show ?l by (intro exI [of _ j] exI [of _ k]) simp
    qed
  qed
  ultimately show ?thesis using assms(1) by (auto simp: ct_ok_def)
qed

lemma ct_ok_dec:
  assumes "ct_ok n c pr" "own_ok n cid ow pr" "names_ok n L pr" "i < n"
    and "counted (pr i) = Some l" "counted p = None"
  shows "c (slot l) = 1 \<and> ct_ok n (c(slot l := 0)) (pr(i := p))"
proof -
  have one: "c (slot l) = 1" using assms(1,4,5) by (auto simp: ct_ok_def)
  have "(\<exists>j k. j < n \<and> counted ((pr(i := p)) j) = Some k \<and> slot k = x) \<longleftrightarrow>
      x \<noteq> slot l \<and> (\<exists>j k. j < n \<and> counted (pr j) = Some k \<and> slot k = x)" (is "?l \<longleftrightarrow> ?r") for x
  proof
    assume ?l
    then obtain j k where j: "j < n" "counted ((pr(i := p)) j) = Some k" "slot k = x" by blast
    with assms(6) have "j \<noteq> i" by auto
    with j same_slot [OF assms(2-4) j(1) counted_inside [OF assms(5)], of k] show ?r by auto
  next
    assume ?r
    then obtain j k where j: "j < n" "counted (pr j) = Some k" "slot k = x" "x \<noteq> slot l" by blast
    with assms(5) have "j \<noteq> i" by auto
    with j show ?l by (intro exI [of _ j] exI [of _ k]) simp
  qed
  with one assms(1) show ?thesis by (auto simp: ct_ok_def)
qed

text \<open>The threads that wait inside the monitor are those the server is serving.\<close>

definition keys :: "monitor \<Rightarrow> nat \<Rightarrow> (i32 \<times> u64) option" where
  "keys m = (\<lambda>t. map_option (\<lambda>(c, l, w). (c, l)) (parked m t))"

definition wait_ok ::
    "nat \<Rightarrow> (nat \<Rightarrow> i32) \<Rightarrow> (nat \<Rightarrow> (i32 \<times> u64) option) \<Rightarrow> (nat \<Rightarrow> tstat) \<Rightarrow> (nat \<Rightarrow> lt_op list) \<Rightarrow> bool" where
  "wait_ok n cid ks st pr \<longleftrightarrow>
     (\<forall>i. ks i \<noteq> None \<longleftrightarrow> i < n \<and> st i = Serving) \<and>
     (\<forall>i c l. ks i = Some (c, l) \<longrightarrow> c = cid i \<and> (\<exists>p. pr i = Acquire l # p)) \<and>
     (\<forall>i. st i = Sent \<longrightarrow> (\<exists>l p. pr i = Acquire l # p \<or> pr i = Release l # p))"

lemma wait_okD:
  assumes "wait_ok n cid ks st pr"
  shows "ks i \<noteq> None \<longleftrightarrow> i < n \<and> st i = Serving"
    and "ks i = Some (c, l) \<Longrightarrow> c = cid i \<and> (\<exists>p. pr i = Acquire l # p)"
    and "st i = Sent \<Longrightarrow> \<exists>l p. pr i = Acquire l # p \<or> pr i = Release l # p"
  using assms unfolding wait_ok_def by blast+

lemma step_keys:
  assumes "monitor_step m e m'"
  shows "keys m' = (case e of
      Granted t c l \<Rightarrow> (keys m)(t := None)
    | Blocked t c l \<Rightarrow> (keys m)(t \<mapsto> (c, l))
    | _ \<Rightarrow> keys m)"
proof -
  have wake: "map_option (\<lambda>(c, l, w). (c, l)) (map_option (\<lambda>(c, l, w). (c, l, True)) x) =
      map_option (\<lambda>(c, l, w). (c, l)) x" for x :: "(i32 \<times> u64 \<times> bool) option"
    by (cases x) auto
  show ?thesis
    using assms by (cases rule: monitor_step.cases) (auto simp: keys_def wake fun_eq_iff)
qed

lemma wait_ok_idle:
  assumes "wait_ok n cid ks st pr" "x \<noteq> Serving"
    and "x = Sent \<longrightarrow> (\<exists>l q. p = Acquire l # q \<or> p = Release l # q)"
  shows "wait_ok n cid (ks(i := None)) (st(i := x)) (pr(i := p))"
  using assms unfolding wait_ok_def by (auto split: if_splits)

lemma wait_ok_serve:
  assumes "wait_ok n cid ks st pr" "i < n" "pr i = Acquire l # p"
  shows "wait_ok n cid (ks(i \<mapsto> (cid i, l))) (st(i := Serving)) pr"
  using assms unfolding wait_ok_def by (auto split: if_splits)

lemma wait_ok_none: "wait_ok n cid ks st pr \<Longrightarrow> st i \<noteq> Serving \<Longrightarrow> ks(i := None) = ks"
  by (auto simp: wait_ok_def fun_upd_idem_iff)

definition tester_inv :: "nat \<Rightarrow> (nat \<Rightarrow> i32) \<Rightarrow> u64 set \<Rightarrow> tester \<Rightarrow> bool" where
  "tester_inv n cid L s \<longleftrightarrow>
     monitor_inv (mon s) \<and> own_ok n cid (owner (mon s)) (prog s) \<and> ct_ok n (ct s) (prog s) \<and>
     names_ok n L (prog s) \<and> wait_ok n cid (keys (mon s)) (stat s) (prog s) \<and>
     (\<forall>i < n. rest_of_rounds (prog s i)) \<and> \<not> failed s"

lemma names_ok_tl:
  assumes "names_ok n L pr" "pr i = x # p"
  shows "names_ok n L (pr(i := p))"
proof -
  have "lid_of ` set p \<subseteq> lid_of ` set (pr i)" using assms(2) by auto
  with assms(1) show ?thesis unfolding names_ok_def by (metis fun_upd_apply order_trans)
qed

lemma rests_tl:
  "(\<forall>i < n. rest_of_rounds (pr i)) \<Longrightarrow> rest_of_rounds p \<Longrightarrow> \<forall>j < n. rest_of_rounds ((pr(i := p)) j)"
  by simp

lemma may_run_serving:
  "may_run w n s i \<Longrightarrow> stat s i = Serving \<or> stat s i = Sent"
  by (auto simp: may_run_def)


lemma tester_invD:
  assumes "tester_inv n cid L s"
  shows "monitor_inv (mon s)" "own_ok n cid (owner (mon s)) (prog s)" "ct_ok n (ct s) (prog s)"
    "names_ok n L (prog s)" "wait_ok n cid (keys (mon s)) (stat s) (prog s)"
    "i < n \<Longrightarrow> rest_of_rounds (prog s i)" "\<forall>i < n. rest_of_rounds (prog s i)" "\<not> failed s"
  using assms by (simp_all add: tester_inv_def)

lemma tester_inv_step:
  assumes step: "tester_step w n cid s s'" and inv: "tester_inv n cid L s"
  shows "tester_inv n cid L s'"
proof -
  note d = tester_invD [OF inv]
  show ?thesis
    using step
  proof (cases rule: tester_step.cases)
    case (send_call i l p)
    have "wait_ok n cid ((keys (mon s))(i := None)) ((stat s)(i := Sent)) ((prog s)(i := prog s i))"
      using send_call by (intro wait_ok_idle [OF d(5)]) auto
    then have "wait_ok n cid (keys (mon s)) ((stat s)(i := Sent)) (prog s)"
      using wait_ok_none [OF d(5), of i] send_call by simp
    with inv send_call show ?thesis by (simp add: tester_inv_def)
  next
    case (acquired i l p m)
    note r = rest_acquire [OF d(6) [OF acquired(2), unfolded acquired(4)]]
    from step_owner [OF d(1) acquired(5)] have o: "owner (mon s) l = None"
      "owner m = (owner (mon s))(l \<mapsto> cid i)" by simp_all
    have "own_ok n cid ((owner (mon s))(l \<mapsto> cid i)) ((prog s)(i := p))"
      by (rule own_ok_take [OF d(2) acquired(2) o(1)]) (use acquired(4) r in simp_all)
    moreover have "ct_ok n (ct s) ((prog s)(i := p))"
      by (rule ct_ok_keep [OF d(3)]) (use acquired(4) r in simp)
    moreover have "wait_ok n cid ((keys (mon s))(i := None)) ((stat s)(i := Replied)) ((prog s)(i := p))"
      by (rule wait_ok_idle [OF d(5)]) simp_all
    then have "wait_ok n cid (keys m) ((stat s)(i := Replied)) ((prog s)(i := p))"
      using step_keys [OF acquired(5)] by simp
    ultimately show ?thesis
      using step_inv [OF d(1) acquired(5)] names_ok_tl [OF d(4) acquired(4)] rests_tl [OF d(7)] r d(8) o(2) acquired(1)
      by (simp add: tester_inv_def)
  next
    case (waits i l p m)
    from step_owner [OF d(1) waits(5)] have "owner m = owner (mon s)" by simp
    moreover have "wait_ok n cid ((keys (mon s))(i \<mapsto> (cid i, l))) ((stat s)(i := Serving)) (prog s)"
      by (rule wait_ok_serve [OF d(5) waits(2,4)])
    then have "wait_ok n cid (keys m) ((stat s)(i := Serving)) (prog s)"
      using step_keys [OF waits(5)] by simp
    ultimately show ?thesis
      using step_inv [OF d(1) waits(5)] inv waits(1) by (simp add: tester_inv_def)
  next
    case (released i l p e m)
    note r = rest_release [OF d(6) [OF released(2), unfolded released(4)]]
    have own: "owner (mon s) l = Some (cid i)"
      using own_okD(2) [OF d(2) released(2)] released(4) by simp
    from released(5) have e: "e = Released i (cid i) l"
      using step_owner [OF d(1) released(6)] own by auto
    from step_owner [OF d(1) released(6)] e have o: "owner m = (owner (mon s))(l := None)" by simp
    have "own_ok n cid ((owner (mon s))(l := None)) ((prog s)(i := p))"
      by (rule own_ok_drop [OF d(2) released(2)]) (use released(4) r in simp_all)
    moreover have "ct_ok n (ct s) ((prog s)(i := p))"
      by (rule ct_ok_keep [OF d(3)]) (use released(4) r in simp)
    moreover have st: "stat s i \<noteq> Serving"
    proof
      assume "stat s i = Serving"
      with wait_okD(1) [OF d(5), of i] released(2) obtain c k where "keys (mon s) i = Some (c, k)" by auto
      with wait_okD(2) [OF d(5)] released(4) show False by fastforce
    qed
    have "wait_ok n cid ((keys (mon s))(i := None)) ((stat s)(i := Replied)) ((prog s)(i := p))"
      by (rule wait_ok_idle [OF d(5)]) simp_all
    then have "wait_ok n cid (keys m) ((stat s)(i := Replied)) ((prog s)(i := p))"
      using step_keys [OF released(6)] e wait_ok_none [OF d(5) st] by simp
    ultimately show ?thesis
      using step_inv [OF d(1) released(6)] names_ok_tl [OF d(4) released(4)] rests_tl [OF d(7)] r d(8) o released(1)
      by (simp add: tester_inv_def)
  next
    case (reply i)
    have "wait_ok n cid ((keys (mon s))(i := None)) ((stat s)(i := Local)) ((prog s)(i := prog s i))"
      by (rule wait_ok_idle [OF d(5)]) simp_all
    then have "wait_ok n cid (keys (mon s)) ((stat s)(i := Local)) (prog s)"
      using wait_ok_none [OF d(5), of i] reply by simp
    with inv reply show ?thesis by (simp add: tester_inv_def)
  next
    case (spurious_wake i m)
    from step_owner [OF d(1) spurious_wake(2)] step_keys [OF spurious_wake(2)] inv spurious_wake(1)
      step_inv [OF d(1) spurious_wake(2)]
    show ?thesis by (simp add: tester_inv_def)
  next
    case (granted i l p)
    note r = rest_grant [OF d(6) [OF granted(2), unfolded granted(4)]]
    from ct_ok_inc [OF d(3,2,4) granted(2), of l p] granted(4) r
    have c: "ct s (slot l) = 0" "ct_ok n ((ct s)(slot l := 1)) ((prog s)(i := p))" by simp_all
    then have "check_grant l (ct s) = Some ((ct s)(slot l := 1))"
      by (simp add: check_grant_def slot_def Let_def)
    moreover have "own_ok n cid (owner (mon s)) ((prog s)(i := p))"
      by (rule own_ok_keep [OF d(2)]) (use granted(4) r in simp)
    moreover have "wait_ok n cid ((keys (mon s))(i := None)) ((stat s)(i := Local)) ((prog s)(i := p))"
      by (intro wait_ok_idle [OF d(5)]) simp_all
    then have "wait_ok n cid (keys (mon s)) (stat s) ((prog s)(i := p))"
      using wait_ok_none [OF d(5), of i] fun_upd_idem [of "stat s" i Local] granted(3) by simp
    ultimately show ?thesis
      using d(1,8) names_ok_tl [OF d(4) granted(4)] rests_tl [OF d(7)] r c(2) granted(1)
      by (simp add: tester_inv_def)
  next
    case (freed i l p)
    note r = rest_free [OF d(6) [OF freed(2), unfolded freed(4)]]
    from ct_ok_dec [OF d(3,2,4) freed(2), of l p] freed(4) r
    have c: "ct s (slot l) = 1" "ct_ok n ((ct s)(slot l := 0)) ((prog s)(i := p))" by simp_all
    then have "check_release l (ct s) = Some ((ct s)(slot l := 0))"
      by (simp add: check_release_def slot_def Let_def)
    moreover have "own_ok n cid (owner (mon s)) ((prog s)(i := p))"
      by (rule own_ok_keep [OF d(2)]) (use freed(4) r in simp)
    moreover have "wait_ok n cid ((keys (mon s))(i := None)) ((stat s)(i := Local)) ((prog s)(i := p))"
      by (intro wait_ok_idle [OF d(5)]) simp_all
    then have "wait_ok n cid (keys (mon s)) (stat s) ((prog s)(i := p))"
      using wait_ok_none [OF d(5), of i] fun_upd_idem [of "stat s" i Local] freed(3) by simp
    ultimately show ?thesis
      using d(1,8) names_ok_tl [OF d(4) freed(4)] rests_tl [OF d(7)] r c(2) freed(1)
      by (simp add: tester_inv_def)
  qed
qed


lemma tester_inv_init:
  assumes "\<forall>i < n. rounds (pr i)" "inj_on slot (\<Union>i < n. lid_of ` set (pr i))"
  shows "tester_inv n cid (\<Union>i < n. lid_of ` set (pr i)) (tester_init pr)"
proof -
  have "inside (pr i) = None" "counted (pr i) = None" if "i < n" for i
    using assms(1) that rounds_inside by auto
  then have "own_ok n cid (owner monitor_init) pr" "ct_ok n (\<lambda>_. 0) pr"
    by (auto simp: own_ok_def ct_ok_def owner_init)
  moreover have "wait_ok n cid (keys monitor_init) (\<lambda>_. Local) pr"
    by (simp add: wait_ok_def keys_def monitor_init_def)
  ultimately show ?thesis
    using assms monitor_inv_init
    by (auto simp: tester_inv_def tester_init_def names_ok_def rest_of_rounds_def)
qed

lemma tester_inv_run: "tester_run w n cid s s' \<Longrightarrow> tester_inv n cid L s \<Longrightarrow> tester_inv n cid L s'"
  by (induction rule: tester_run.induct) (auto intro: tester_inv_step)


section \<open>Progress\<close>

text \<open>What is left to do.\<close>

definition weight :: "tstat \<Rightarrow> nat" where
  "weight x = (case x of Local \<Rightarrow> 3 | Sent \<Rightarrow> 2 | Serving \<Rightarrow> 1 | Replied \<Rightarrow> 4)"

definition work :: "nat \<Rightarrow> tester \<Rightarrow> nat" where
  "work n s = (\<Sum>i<n. 4 * length (prog s i) + weight (stat s i))"

lemma work_less:
  assumes "i < n" "\<forall>j. j \<noteq> i \<longrightarrow> prog s' j = prog s j \<and> stat s' j = stat s j"
    and "4 * length (prog s' i) + weight (stat s' i) < 4 * length (prog s i) + weight (stat s i)"
  shows "work n s' < work n s"
proof -
  have "4 * length (prog s' j) + weight (stat s' j) \<le> 4 * length (prog s j) + weight (stat s j)" for j
    using assms(2,3) by (cases "j = i") auto
  then show ?thesis
    unfolding work_def using assms(1,3) by (intro sum_strict_mono_ex1) auto
qed

lemma served_less:
  assumes "i < n" "stat s i \<noteq> Serving"
  shows "served n s < n"
proof -
  have "{j. j < n \<and> stat s j = Serving} \<subseteq> {..<n} - {i}" using assms by auto
  then have "served n s \<le> card ({..<n} - {i})"
    unfolding served_def by (intro card_mono) auto
  with assms(1) show ?thesis by simp
qed

lemma enter_step:
  assumes "parked m i = None"
  shows "\<exists>m'. monitor_step m (Granted i c l) m' \<or> monitor_step m (Blocked i c l) m'"
proof -
  obtain r where "grant_enter c l (locks m) = Inr r" using table.enter_total by blast
  then show ?thesis
    using monitor_step.enter_granted [OF assms] monitor_step.enter_blocked [OF assms]
    by (cases r) blast+
qed

lemma release_step:
  assumes "parked m i = None" "owner m l = Some c"
  shows "\<exists>m'. monitor_step m (Released i c l) m'"
proof -
  from table.rel_owner [OF assms(2)] obtain ls where ls: "release_section c l (locks m) = Inr (ls, True)"
    by blast
  show ?thesis
  proof (cases "\<exists>w. sleeps m l w")
    case True
    then show ?thesis using monitor_step.release_wakes [OF assms(1) ls] by blast
  next
    case False
    then show ?thesis using monitor_step.release_idle [OF assms(1) ls] by blast
  qed
qed

lemma woken_step:
  assumes "monitor_inv m" "parked m u = Some (d, l, True)" "owner m l = None"
  shows "\<exists>m'. monitor_step m (Granted u d l) m'"
proof -
  from table.enter_free [OF assms(3), of d] table.retest_enter [OF monitor_invD(1) [OF assms(1,2)], of d]
  obtain ls where "grant_test d l (locks m) = Inr (Some ls)" by auto
  with monitor_step.retest_granted [OF assms(2)] show ?thesis by blast
qed

text \<open>
  With enough dispatch threads some thread can always take a step that leaves less to do.
\<close>

lemma tester_progress:
  assumes inv: "tester_inv n cid L s" and w: "n \<le> w" and i: "i < n" "prog s i \<noteq> [] \<or> stat s i \<noteq> Local"
  shows "\<exists>s'. tester_step w n cid s s' \<and> work n s' < work n s"
proof -
  note d = tester_invD [OF inv]
  have less: "work n s' < work n s"
    if "j < n" "\<forall>k. k \<noteq> j \<longrightarrow> prog s' k = prog s k \<and> stat s' k = stat s k"
      "4 * length (prog s' j) + weight (stat s' j) < 4 * length (prog s j) + weight (stat s j)" for j s'
    using that by (rule work_less)
  have parked: "parked (mon s) j = None" if "stat s j \<noteq> Serving" for j
    using wait_okD(1) [OF d(5), of j] that by (cases "parked (mon s) j") (auto simp: keys_def)
  have serving: "\<exists>l p f. parked (mon s) j = Some (cid j, l, f) \<and> prog s j = Acquire l # p"
    if j: "j < n" "stat s j = Serving" for j
  proof -
    from wait_okD(1) [OF d(5), of j] j obtain c l f where p: "parked (mon s) j = Some (c, l, f)"
      by (auto simp: keys_def)
    then have "keys (mon s) j = Some (c, l)" by (simp add: keys_def)
    with wait_okD(2) [OF d(5)] p show ?thesis by blast
  qed
  have "\<exists>j s'. tester_step w n cid s s' \<and> j < n \<and> (\<forall>k. k \<noteq> j \<longrightarrow> prog s' k = prog s k \<and> stat s' k = stat s k) \<and>
      4 * length (prog s' j) + weight (stat s' j) < 4 * length (prog s j) + weight (stat s j)"
  proof -
    consider (replied) j where "j < n" "stat s j = Replied"
      | (local) j where "j < n" "stat s j = Local" "prog s j \<noteq> []"
      | (sent) j where "j < n" "stat s j = Sent"
      | (rest) "\<forall>j < n. stat s j = Serving \<or> (stat s j = Local \<and> prog s j = [])"
      by (metis tstat.exhaust)
    then show ?thesis
    proof cases
      case replied
      then show ?thesis
        using tester_step.reply [OF replied, of w cid]
        by (intro exI [of _ j] exI [of _ "s\<lparr>stat := (stat s)(j := Local)\<rparr>"]) (simp add: weight_def)
    next
      case local
      from rest_cases [OF d(6) [OF local(1)]] local(3)
      consider l p where "prog s j = Acquire l # p \<or> prog s j = Release l # p"
        | l p where "prog s j = Check_grant l # p" | l p where "prog s j = Check_release l # p" by auto
      then show ?thesis
      proof cases
        case 1
        then show ?thesis
          using tester_step.send_call [OF local(1,2) 1, of w cid] local
          by (intro exI [of _ j] exI [of _ "s\<lparr>stat := (stat s)(j := Sent)\<rparr>"]) (simp add: weight_def)
      next
        case 2
        note r = rest_grant [OF d(6) [OF local(1), unfolded 2]]
        from ct_ok_inc [OF d(3,2,4) local(1), of l p] 2 r have "ct s (slot l) = 0" by simp
        then have "check_grant l (ct s) = Some ((ct s)(slot l := 1))"
          by (simp add: check_grant_def slot_def Let_def)
        with tester_step.granted [OF local(1,2) 2, of w cid] 2 local(1) show ?thesis
          by (intro exI [of _ j] exI [of _ "s\<lparr>ct := (ct s)(slot l := 1), prog := (prog s)(j := p)\<rparr>"]) simp
      next
        case 3
        note r = rest_free [OF d(6) [OF local(1), unfolded 3]]
        from ct_ok_dec [OF d(3,2,4) local(1), of l p] 3 r have "ct s (slot l) = 1" by simp
        then have "check_release l (ct s) = Some ((ct s)(slot l := 0))"
          by (simp add: check_release_def slot_def Let_def)
        with tester_step.freed [OF local(1,2) 3, of w cid] 3 local(1) show ?thesis
          by (intro exI [of _ j] exI [of _ "s\<lparr>ct := (ct s)(slot l := 0), prog := (prog s)(j := p)\<rparr>"]) simp
      qed
    next
      case sent
      have "served n s < w" using served_less [OF sent(1), of s] sent(2) w by simp
      with sent have run: "may_run w n s j" by (simp add: may_run_def)
      have idle: "parked (mon s) j = None" using parked sent(2) by simp
      from wait_okD(3) [OF d(5) sent(2)] obtain l p
        where "prog s j = Acquire l # p \<or> prog s j = Release l # p" by blast
      then show ?thesis
      proof
        assume p: "prog s j = Acquire l # p"
        from enter_step [OF idle, of "cid j" l] obtain m
          where "monitor_step (mon s) (Granted j (cid j) l) m \<or> monitor_step (mon s) (Blocked j (cid j) l) m" by blast
        then show ?thesis
        proof
          assume "monitor_step (mon s) (Granted j (cid j) l) m"
          from tester_step.acquired [where cid = cid, OF sent(1) run p this] sent p show ?thesis
            by (intro exI [of _ j] exI [of _ "s\<lparr>mon := m, stat := (stat s)(j := Replied), prog := (prog s)(j := p)\<rparr>"])
              (simp add: weight_def)
        next
          assume "monitor_step (mon s) (Blocked j (cid j) l) m"
          from tester_step.waits [where cid = cid, OF sent(1) run p this] sent show ?thesis
            by (intro exI [of _ j] exI [of _ "s\<lparr>mon := m, stat := (stat s)(j := Serving)\<rparr>"]) (simp add: weight_def)
        qed
      next
        assume p: "prog s j = Release l # p"
        have "owner (mon s) l = Some (cid j)" using own_okD(2) [OF d(2) sent(1)] p by simp
        from release_step [OF idle this] obtain m where "monitor_step (mon s) (Released j (cid j) l) m" by blast
        from tester_step.released [where cid = cid, OF sent(1) run p _ this] sent p show ?thesis
          by (intro exI [of _ j] exI [of _ "s\<lparr>mon := m, stat := (stat s)(j := Replied), prog := (prog s)(j := p)\<rparr>"])
            (simp add: weight_def)
      qed
    next
      case rest
      with i have "stat s i = Serving" by auto
      from serving [OF i(1) this] obtain l p f where p: "parked (mon s) i = Some (cid i, l, f)" by blast
      have "owner (mon s) l = None"
      proof (rule ccontr)
        assume "owner (mon s) l \<noteq> None"
        with own_okD(3) [OF d(2)] obtain j where j: "j < n" "inside (prog s j) = Some l" by blast
        with rest have "stat s j = Serving" by auto
        from serving [OF j(1) this] j(2) show False by auto
      qed
      with monitor_invD(2) [OF d(1) p] obtain u c where u: "parked (mon s) u = Some (c, l, True)" by blast
      from wait_okD(1) [OF d(5), of u] u have un: "u < n" "stat s u = Serving" by (auto simp: keys_def)
      from serving [OF un] u obtain q where q: "prog s u = Acquire l # q" "c = cid u" by auto
      from woken_step [OF d(1) u \<open>owner (mon s) l = None\<close>] obtain m
        where m: "monitor_step (mon s) (Granted u (cid u) l) m" using q(2) by blast
      have "may_run w n s u" using un by (simp add: may_run_def)
      from tester_step.acquired [where cid = cid, OF un(1) this q(1) m] un q show ?thesis
        by (intro exI [of _ u] exI [of _ "s\<lparr>mon := m, stat := (stat s)(u := Replied), prog := (prog s)(u := q)\<rparr>"])
          (simp add: weight_def)
    qed
  qed
  with less show ?thesis by blast
qed

lemma tester_run_trans: "tester_run w n cid s s' \<Longrightarrow> tester_run w n cid s' s'' \<Longrightarrow> tester_run w n cid s s''"
  by (rotate_tac 1, induction rule: tester_run.induct) (auto intro: tester_run.more_step)

lemma tester_finishes:
  assumes "tester_inv n cid L s" "n \<le> w"
  shows "\<exists>s'. tester_run w n cid s s' \<and> (\<forall>i < n. prog s' i = [] \<and> stat s' i = Local)"
  using assms(1)
proof (induction "work n s" arbitrary: s rule: less_induct)
  case less
  show ?case
  proof (cases "\<exists>i < n. prog s i \<noteq> [] \<or> stat s i \<noteq> Local")
    case True
    then obtain i where "i < n" "prog s i \<noteq> [] \<or> stat s i \<noteq> Local" by blast
    from tester_progress [OF less.prems assms(2) this] obtain s1
      where s1: "tester_step w n cid s s1" "work n s1 < work n s" by blast
    from less.hyps [OF s1(2) tester_inv_step [OF s1(1) less.prems]] obtain s2
      where "tester_run w n cid s1 s2" "\<forall>i < n. prog s2 i = [] \<and> stat s2 i = Local" by blast
    moreover have "tester_run w n cid s s1" by (rule tester_run.more_step [OF tester_run.no_step s1(1)])
    ultimately show ?thesis using tester_run_trans by blast
  next
    case False
    then show ?thesis by (auto intro: tester_run.no_step)
  qed
qed

text \<open>
  No deadlock with enough dispatch threads. If the server has at least as many dispatch
  threads as there are callers, then from every state the tests can reach, all threads can
  run to the end of their programs.
\<close>

lemma tester_can_finish:
  assumes "\<forall>i < n. rounds (pr i)" "inj_on slot (\<Union>i < n. lid_of ` set (pr i))" "n \<le> w"
    and "tester_run w n cid (tester_init pr) s"
  shows "\<exists>s'. tester_run w n cid s s' \<and> (\<forall>i < n. prog s' i = [] \<and> stat s' i = Local)"
  using tester_finishes [OF tester_inv_run [OF assms(4) tester_inv_init [OF assms(1,2)]] assms(3)] .

section \<open>Too few dispatch threads\<close>

text \<open>
  The holder of the lock sends its release when \<open>k\<close> others already wait inside \<open>grant\<close>.
\<close>

definition crowd :: "(nat \<Rightarrow> i32) \<Rightarrow> nat \<Rightarrow> tester" where
  "crowd cid k =
     \<lparr>mon = \<lparr>locks = put_lock lock_a \<lparr>lk_lid = lock_a, lk_clt = cid 0, lk_state = locked\<rparr> lock_server_new,
        parked = (\<lambda>i. if 1 \<le> i \<and> i \<le> k then Some (cid i, lock_a, False) else None)\<rparr>,
      prog = (\<lambda>_. test2)(0 := [Release lock_a]),
      stat = (\<lambda>i. if i = 0 then Sent else if i \<le> k then Serving else Local),
      ct = (\<lambda>_. 0), failed = False\<rparr>"

lemma test2_eq: "test2 = [Acquire lock_a, Check_grant lock_a, Check_release lock_a, Release lock_a]"
  by (simp add: test2_def lock_round_def)

lemma served_crowd: "k < n \<Longrightarrow> served n (crowd cid k) = k"
proof -
  assume "k < n"
  then have "{i. i < n \<and> stat (crowd cid k) i = Serving} = {1..k}"
    by (auto simp: crowd_def split: if_splits)
  then show ?thesis by (simp add: served_def)
qed

lemma crowd_start:
  assumes "0 < w" "0 < n"
  shows "tester_run w n cid (tester_init (\<lambda>_. test2)) (crowd cid 0)"
proof -
  let ?l = "put_lock lock_a \<lparr>lk_lid = lock_a, lk_clt = cid 0, lk_state = locked\<rparr> lock_server_new"
  let ?m = "\<lparr>locks = ?l, parked = (\<lambda>_. None)\<rparr>"
  let ?s0 = "tester_init (\<lambda>_. test2)"
  let ?s1 = "?s0\<lparr>stat := (stat ?s0)(0 := Sent)\<rparr>"
  let ?p = "[Check_grant lock_a, Check_release lock_a, Release lock_a]"
  let ?s2 = "?s1\<lparr>mon := ?m, stat := (stat ?s1)(0 := Replied), prog := (prog ?s1)(0 := ?p)\<rparr>"
  let ?s3 = "?s2\<lparr>stat := (stat ?s2)(0 := Local)\<rparr>"
  let ?s4 = "?s3\<lparr>ct := (ct ?s3)(slot lock_a := 1), prog := (prog ?s3)(0 := tl ?p)\<rparr>"
  let ?s5 = "?s4\<lparr>ct := (ct ?s4)(slot lock_a := 0), prog := (prog ?s4)(0 := [Release lock_a])\<rparr>"
  let ?s6 = "?s5\<lparr>stat := (stat ?s5)(0 := Sent)\<rparr>"
  have 1: "tester_step w n cid ?s0 ?s1"
    by (rule tester_step.send_call [where l = lock_a and p = ?p])
      (use assms in \<open>simp_all add: tester_init_def test2_eq\<close>)
  have "served n ?s1 = 0" by (auto simp: served_def tester_init_def split: if_splits)
  then have run: "may_run w n ?s1 0" using assms by (simp add: may_run_def)
  have g: "grant_enter (cid 0) lock_a lock_server_new = Inr (Some ?l)"
    by (simp add: lock_defs lock_server_new_def)
  have "monitor_step monitor_init (Granted 0 (cid 0) lock_a) (monitor_init\<lparr>locks := ?l\<rparr>)"
    by (rule monitor_step.enter_granted) (simp_all add: monitor_init_def g)
  then have mstep: "monitor_step (mon ?s1) (Granted 0 (cid 0) lock_a) ?m"
    by (simp add: monitor_init_def tester_init_def)
  have 2: "tester_step w n cid ?s1 ?s2"
    by (rule tester_step.acquired [where cid = cid, OF assms(2) run _ mstep]) (simp add: tester_init_def test2_eq)
  have 3: "tester_step w n cid ?s2 ?s3" by (rule tester_step.reply [OF assms(2)]) simp
  have "check_grant lock_a (ct ?s3) = Some ((ct ?s3)(slot lock_a := 1))"
    by (simp add: check_grant_def tester_init_def slot_def Let_def)
  with tester_step.granted [OF assms(2), of ?s3 lock_a "tl ?p" w cid]
  have 4: "tester_step w n cid ?s3 ?s4" by simp
  have "check_release lock_a (ct ?s4) = Some ((ct ?s4)(slot lock_a := 0))"
    by (simp add: check_release_def slot_def Let_def)
  with tester_step.freed [OF assms(2), of ?s4 lock_a "[Release lock_a]" w cid]
  have 5: "tester_step w n cid ?s4 ?s5" by simp
  have 6: "tester_step w n cid ?s5 ?s6"
    by (rule tester_step.send_call [OF assms(2), where l = lock_a and p = "[]"]) simp_all
  have "?s6 = crowd cid 0"
    by (auto simp: crowd_def tester_init_def fun_eq_iff)
  with tester_run.more_step [OF tester_run.more_step [OF tester_run.more_step [OF tester_run.more_step
      [OF tester_run.more_step [OF tester_run.more_step [OF tester_run.no_step 1] 2] 3] 4] 5] 6]
  show ?thesis by simp
qed

lemma crowd_grows:
  assumes "k < w" "Suc k < n"
  shows "tester_run w n cid (crowd cid k) (crowd cid (Suc k))"
proof -
  let ?s = "crowd cid k"
  let ?s1 = "?s\<lparr>stat := (stat ?s)(Suc k := Sent)\<rparr>"
  have 1: "tester_step w n cid ?s ?s1"
    by (rule tester_step.send_call [OF assms(2), where l = lock_a and p = "tl test2"])
      (simp_all add: crowd_def test2_eq)
  have "{i. i < n \<and> stat ?s1 i = Serving} = {i. i < n \<and> stat ?s i = Serving}"
    by (auto simp: crowd_def split: if_splits)
  then have "served n ?s1 = k" using served_crowd [of k n cid] assms by (simp add: served_def)
  then have run: "may_run w n ?s1 (Suc k)" using assms by (simp add: may_run_def)
  let ?m = "(mon ?s1)\<lparr>parked := (parked (mon ?s1))(Suc k \<mapsto> (cid (Suc k), lock_a, False))\<rparr>"
  have "grant_enter (cid (Suc k)) lock_a (locks (mon ?s1)) = Inr None"
    by (simp add: crowd_def lock_defs)
  then have "monitor_step (mon ?s1) (Blocked (Suc k) (cid (Suc k)) lock_a) ?m"
    by (intro monitor_step.enter_blocked) (simp_all add: crowd_def)
  from tester_step.waits [where cid = cid, OF assms(2) run _ this, of "tl test2"]
  have 2: "tester_step w n cid ?s1 (?s1\<lparr>mon := ?m, stat := (stat ?s1)(Suc k := Serving)\<rparr>)"
    by (simp add: crowd_def test2_eq)
  have "?s1\<lparr>mon := ?m, stat := (stat ?s1)(Suc k := Serving)\<rparr> = crowd cid (Suc k)"
    by (auto simp: crowd_def fun_eq_iff)
  with tester_run.more_step [OF tester_run.more_step [OF tester_run.no_step 1] 2] show ?thesis by simp
qed

lemma crowd_reached: "k \<le> w \<Longrightarrow> 0 < w \<Longrightarrow> k < n \<Longrightarrow> tester_run w n cid (tester_init (\<lambda>_. test2)) (crowd cid k)"
proof (induction k)
  case 0
  then show ?case by (simp add: crowd_start)
next
  case (Suc k)
  then have "tester_run w n cid (tester_init (\<lambda>_. test2)) (crowd cid k)" by simp
  moreover have "tester_run w n cid (crowd cid k) (crowd cid (Suc k))"
    by (rule crowd_grows) (use Suc in simp_all)
  ultimately show ?case by (rule tester_run_trans)
qed

text \<open>Once all \<open>w\<close> dispatch threads wait for the lock, nothing changes any more.\<close>

lemma crowd_stuck:
  assumes "tester_run w (Suc w) cid s s'" "tester_inv (Suc w) cid L s"
    and "prog s = prog (crowd cid w)" "stat s = stat (crowd cid w)"
  shows "prog s' = prog (crowd cid w) \<and> stat s' = stat (crowd cid w)"
  using assms
proof (induction rule: tester_run.induct)
  case (more_step s s' s'')
  then have st: "prog s' = prog (crowd cid w)" "stat s' = stat (crowd cid w)" by simp_all
  from tester_inv_run [OF more_step.hyps(1) more_step.prems(1)] have inv: "tester_inv (Suc w) cid L s'" .
  note d = tester_invD [OF inv]
  have "served (Suc w) s' = w"
    using served_crowd [of w "Suc w" cid] st(2) by (simp add: served_def)
  then have run: "stat s' i = Serving" if "may_run w (Suc w) s' i" for i
    using that by (simp add: may_run_def)
  have all: "stat s' i = Serving \<or> i = 0" if "i < Suc w" for i using that st(2) by (auto simp: crowd_def)
  have zero: "stat s' 0 = Sent" using st(2) by (simp add: crowd_def)
  have held: "owner (mon s') lock_a \<noteq> None"
    using own_okD(2) [OF d(2), of 0 lock_a] st(1) by (simp add: crowd_def)
  have acq: "prog s' i = test2" if "stat s' i = Serving" for i
    using that st zero by (auto simp: crowd_def)
  show ?case
    using more_step.hyps(2)
  proof (cases rule: tester_step.cases)
    case (send_call i l p)
    with all [of i] zero show ?thesis by auto
  next
    case (acquired i l p m)
    with acq [OF run [OF acquired(3)]] step_owner [OF d(1) acquired(5)] held show ?thesis
      by (simp add: test2_eq)
  next
    case (waits i l p m)
    from run [OF waits(3)] have "(stat s')(i := Serving) = stat s'" by auto
    with waits st show ?thesis by simp
  next
    case (released i l p e m)
    with acq [OF run [OF released(3)]] show ?thesis by (simp add: test2_eq)
  next
    case (reply i)
    with all [of i] zero show ?thesis by auto
  next
    case (spurious_wake i m)
    with st show ?thesis by simp
  next
    case (granted i l p)
    with all [of i] zero show ?thesis by auto
  next
    case (freed i l p)
    with all [of i] zero show ?thesis by auto
  qed
qed simp

text \<open>
  C37: one caller more than dispatch threads can deadlock the lock service. When as many
  \<open>acquire\<close> requests as there are dispatch threads wait in \<open>grant\<close>, the \<open>release\<close> of the
  owner is never served: a state is reachable from which no thread ever gets any further.
\<close>

theorem pool_exhaustion_deadlocks:
  assumes "0 < w"
  shows "\<exists>s. tester_run w (Suc w) cid (tester_init (\<lambda>_. test2)) s \<and> prog s 0 = [Release lock_a] \<and>
     (\<forall>s'. tester_run w (Suc w) cid s s' \<longrightarrow> prog s' = prog s \<and> stat s' = stat s)"
proof -
  have reach: "tester_run w (Suc w) cid (tester_init (\<lambda>_. test2)) (crowd cid w)"
    by (rule crowd_reached) (use assms in simp_all)
  have "(\<Union>i < Suc w. lid_of ` set test2) = {lock_a}" by (auto simp: test2_eq)
  then have "tester_inv (Suc w) cid {lock_a} (tester_init (\<lambda>_. test2))"
    using tester_inv_init [of "Suc w" "\<lambda>_. test2" cid] rounds_tests by simp
  from tester_inv_run [OF reach this] have "tester_inv (Suc w) cid {lock_a} (crowd cid w)" .
  from crowd_stuck [OF _ this refl refl] reach show ?thesis
    by (intro exI [of _ "crowd cid w"]) (auto simp: crowd_def)
qed

theorem pool_exhaustion_deadlocks_witness:
  "\<exists>s. tester_run 10 (Suc 10) (\<lambda>i. of_nat (client_test3 i)) (tester_init (\<lambda>_. test2)) s \<and> prog s 0 = [Release lock_a] \<and>
     (\<forall>s'. tester_run 10 (Suc 10) (\<lambda>i. of_nat (client_test3 i)) s s' \<longrightarrow> prog s' = prog s \<and> stat s' = stat s)"
  by (rule pool_exhaustion_deadlocks) simp


section \<open>Witnesses and the sequential test\<close>

lemma crowd_of_two:
  "tester_run 2 2 (\<lambda>i. of_nat (client_test2 i)) (tester_init (\<lambda>_. test2)) (crowd (\<lambda>i. of_nat (client_test2 i)) 1)"
  by (rule crowd_reached) simp_all

lemma two_names: "inj_on slot (\<Union>i < n. lid_of ` set test2)"
  by (auto simp: test2_eq inj_on_def)


lemma tester_can_finish_witness:
  "\<exists>s'. tester_run 2 2 (\<lambda>i. of_nat (client_test2 i)) (crowd (\<lambda>i. of_nat (client_test2 i)) 1) s' \<and>
     prog s' 0 = [] \<and> stat s' 1 = Local"
  using tester_can_finish [OF _ two_names _ crowd_of_two] rounds_tests by fastforce

text \<open>\<open>test1\<close> is one thread alone: each of its calls returns at once.\<close>

fun run_alone :: "i32 \<Rightarrow> lt_op list \<Rightarrow> lock_server \<Rightarrow> (u8 \<Rightarrow> int) \<Rightarrow> (lock_server \<times> (u8 \<Rightarrow> int)) option" where
  "run_alone c [] ls k = Some (ls, k)"
| "run_alone c (Acquire l # p) ls k =
     (case grant_enter c l ls of Inr (Some ls) \<Rightarrow> run_alone c p ls k | _ \<Rightarrow> None)"
| "run_alone c (Release l # p) ls k =
     (case release_section c l ls of Inr (ls, s) \<Rightarrow> run_alone c p ls k | Inl e \<Rightarrow> None)"
| "run_alone c (Check_grant l # p) ls k =
     (case check_grant l k of Some k \<Rightarrow> run_alone c p ls k | None \<Rightarrow> None)"
| "run_alone c (Check_release l # p) ls k =
     (case check_release l k of Some k \<Rightarrow> run_alone c p ls k | None \<Rightarrow> None)"

lemma test1_passes:
  "\<exists>ls. run_alone c test1 lock_server_new (\<lambda>_. 0) = Some (ls, \<lambda>_. 0) \<and> (\<forall>l. owner_of ls l = None)"
  by (simp add: test1_def lock_a_def lock_b_def lock_server_new_def lock_defs check_grant_def
      check_release_def Let_def fun_eq_iff)

end
