(* ===== verification/Timespec.thy ===== *)
theory Timespec
  imports Prelude "HOL-Library.Signed_Division"
begin

text \<open>
  The time arithmetic of \<open>rpc/rpc.cc\<close>: \<open>cmp_timespec\<close>, \<open>add_timespec\<close>, \<open>diff_timespec\<close>, and
  the wait of \<open>call1\<close> on a deadline. C divides integers towards zero (\<open>sdiv\<close>, \<open>smod\<close>).
\<close>

section \<open>The code\<close>

record timespec =
  ts_sec :: int
  ts_nsec :: int

definition cmp_timespec :: "timespec \<Rightarrow> timespec \<Rightarrow> int" where
  "cmp_timespec a b =
     (if ts_sec a > ts_sec b then 1
      else if ts_sec a < ts_sec b then - 1
      else if ts_nsec a > ts_nsec b then 1
      else if ts_nsec a < ts_nsec b then - 1
      else 0)"

text \<open>The loop of \<open>add_timespec\<close>.\<close>

function carry_nsec :: "timespec \<Rightarrow> timespec" where
  "carry_nsec r =
     (if ts_nsec r > 1000000000
      then carry_nsec (r\<lparr>ts_sec := ts_sec r + 1, ts_nsec := ts_nsec r - 1000000000\<rparr>)
      else r)"
  by auto

termination
  by (relation "measure (\<lambda>r. nat (ts_nsec r))") auto

declare carry_nsec.simps [simp del]

definition add_timespec :: "timespec \<Rightarrow> int \<Rightarrow> timespec outcome" where
  "add_timespec a b =
     (let r = \<lparr>ts_sec = ts_sec a + b sdiv 1000, ts_nsec = ts_nsec a + (b smod 1000) * 1000000\<rparr> in
      if ts_nsec r < 0 then Inl Assert_failed else Inr (carry_nsec r))"

definition diff_timespec :: "timespec \<Rightarrow> timespec \<Rightarrow> int outcome" where
  "diff_timespec e s =
     (let d = (if ts_sec e > ts_sec s then (ts_sec e - ts_sec s) * 1000 else 0) in
      if \<not> (d \<noteq> 0 \<or> ts_sec e = ts_sec s) then Inl Assert_failed
      else Inr (if ts_nsec e > ts_nsec s then d + (ts_nsec e - ts_nsec s) sdiv 1000000
                else d - (ts_nsec s - ts_nsec e) sdiv 1000000))"

section \<open>Times\<close>

text \<open>A valid time has less than a second of nanoseconds.\<close>

definition valid_ts :: "timespec \<Rightarrow> bool" where
  "valid_ts t \<longleftrightarrow> 0 \<le> ts_nsec t \<and> ts_nsec t < 1000000000"

definition nanos :: "timespec \<Rightarrow> int" where
  "nanos t = ts_sec t * 1000000000 + ts_nsec t"

lemma carry_nanos:
  "0 \<le> ts_nsec r \<Longrightarrow> nanos (carry_nsec r) = nanos r \<and> 0 \<le> ts_nsec (carry_nsec r) \<and>
     ts_nsec (carry_nsec r) \<le> 1000000000"
proof (induction r rule: carry_nsec.induct)
  case (1 r)
  show ?case
  proof (cases "ts_nsec r > 1000000000")
    case True
    with 1 show ?thesis by (subst (1 2 3) carry_nsec.simps) (simp add: nanos_def)
  next
    case False
    with "1.prems" show ?thesis by (simp add: carry_nsec.simps [of r])
  qed
qed

lemma split_ms:
  assumes "0 \<le> b"
  shows "b sdiv 1000 * 1000 + b smod 1000 = b" "0 \<le> b smod (1000 :: int)" "b smod 1000 < (1000 :: int)"
  using assms by (simp_all add: signed_divide_int_def signed_modulo_int_def sgn_if)

text \<open>
  \<open>add_timespec\<close> adds milliseconds. For a valid time and a timeout that is not negative
  it does not fail, the result is the sum, and its nanoseconds are at most one second.
\<close>

lemma add_timespec_sum:
  assumes "valid_ts a" "0 \<le> b"
  shows "\<exists>r. add_timespec a b = Inr r \<and> nanos r = nanos a + b * 1000000 \<and>
     0 \<le> ts_nsec r \<and> ts_nsec r \<le> 1000000000"
proof -
  note s = split_ms [OF assms(2)]
  let ?r = "\<lparr>ts_sec = ts_sec a + b sdiv 1000, ts_nsec = ts_nsec a + (b smod 1000) * 1000000\<rparr>"
  have pos: "0 \<le> ts_nsec ?r" using assms(1) s(2) by (simp add: valid_ts_def)
  have "nanos ?r = nanos a + (b sdiv 1000 * 1000 + b smod 1000) * 1000000"
    by (simp add: nanos_def algebra_simps)
  with carry_nanos [OF pos] pos s(1) show ?thesis
    by (simp add: add_timespec_def Let_def)
qed

text \<open>\<open>cmp_timespec\<close> orders valid times, and times that are one full second off.\<close>

lemma cmp_timespec_order:
  assumes "0 \<le> ts_nsec a" "0 \<le> ts_nsec b" "ts_nsec a < 1000000000" "ts_nsec b < 1000000000"
  shows "cmp_timespec a b = sgn (nanos a - nanos b)"
  using assms by (auto simp: cmp_timespec_def nanos_def sgn_if)

lemma diff_timespec_ms:
  assumes "valid_ts e" "valid_ts s" "ts_sec s \<le> ts_sec e"
  shows "\<exists>d. diff_timespec e s = Inr d \<and> nanos e - nanos s - d * 1000000 < 1000000 \<and>
     - 1000000 < nanos e - nanos s - d * 1000000"
proof -
  have q: "0 \<le> x - (x sdiv 1000000) * 1000000 \<and> x - (x sdiv 1000000) * 1000000 < 1000000" if "0 \<le> x" for x :: int
  proof -
    have "x sdiv 1000000 = x div 1000000" using that by (simp add: signed_divide_int_def sgn_if)
    then show ?thesis by presburger
  qed
  let ?d = "(ts_sec e - ts_sec s) * 1000 +
      (if ts_nsec e > ts_nsec s then (ts_nsec e - ts_nsec s) sdiv 1000000
       else - ((ts_nsec s - ts_nsec e) sdiv 1000000))"
  have "diff_timespec e s = Inr ?d" using assms(3) by (simp add: diff_timespec_def)
  moreover have "nanos e - nanos s - ?d * 1000000 < 1000000 \<and> - 1000000 < nanos e - nanos s - ?d * 1000000"
    using q [of "ts_nsec e - ts_nsec s"] q [of "ts_nsec s - ts_nsec e"] by (auto simp: nanos_def algebra_simps)
  ultimately show ?thesis by blast
qed

section \<open>Waiting for a deadline\<close>

text \<open>
  What \<open>pthread_cond_timedwait\<close> returns: it refuses a time that is not valid at once,
  without unlocking the mutex, so that nobody can change what the mutex protects;
  otherwise it returns after a wake-up or a timeout, and \<open>done\<close> may have been set meanwhile.
\<close>

datatype wait_answer = Woken | Timed_out | Invalid

definition timedwait :: "timespec \<Rightarrow> wait_answer \<times> bool \<Rightarrow> bool \<Rightarrow> wait_answer \<times> bool" where
  "timedwait deadline e ready =
     (if \<not> valid_ts deadline then (Invalid, ready)
      else (if fst e = Invalid then Woken else fst e, ready \<or> snd e))"

text \<open>
  The inner loop of \<open>call1\<close>, with what happens during each wait: \<^term>\<open>Some d\<close> is the value of
  \<open>ca.done\<close> when the loop is left, \<^term>\<open>None\<close> that it is still running.
\<close>

fun await_reply :: "timespec \<Rightarrow> (wait_answer \<times> bool) list \<Rightarrow> bool \<Rightarrow> bool option" where
  "await_reply deadline es True = Some True"
| "await_reply deadline [] False = None"
| "await_reply deadline (e # es) False =
     (case timedwait deadline e False of
        (Timed_out, d) \<Rightarrow> Some d
      | (_, d) \<Rightarrow> await_reply deadline es d)"

lemma await_valid:
  assumes "valid_ts t" "(Timed_out, d) \<in> set es"
  shows "await_reply t es r \<noteq> None"
  using assms(2)
proof (induction es arbitrary: r)
  case (Cons e es)
  show ?case
  proof (cases r)
    case False
    obtain a b where e: "e = (a, b)" by (cases e)
    have "(Timed_out, d) \<in> set es \<or> a = Timed_out" using Cons.prems e by auto
    then show ?thesis
      using Cons.IH [of b] False assms(1) e by (cases a) (auto simp: timedwait_def)
  qed simp
qed simp

lemma await_invalid: "\<not> valid_ts t \<Longrightarrow> await_reply t es False = None"
  by (induction es) (auto simp: timedwait_def)

text \<open>
  A deadline of exactly one second of nanoseconds is never met. \<open>add_timespec\<close> carries
  only while there are more than \<open>10^9\<close> nanoseconds, so with a timeout that is not a whole
  number of seconds a call that starts at the wrong instant gets the deadline \<open>10^9\<close> itself, which \<open>pthread_cond_timedwait\<close> refuses; since the
  loop of \<open>call1\<close> takes every answer but a timeout for a wake-up, it never ends, whatever
  arrives, and it holds the mutex that the reply needs.
\<close>

lemma full_second_deadline_hangs:
  assumes "0 \<le> b" "valid_ts a" "ts_nsec a + (b smod 1000) * 1000000 = 1000000000"
  shows "\<exists>r. add_timespec a b = Inr r \<and> (\<forall>es. await_reply r es False = None)"
proof -
  have "add_timespec a b = Inr \<lparr>ts_sec = ts_sec a + b sdiv 1000, ts_nsec = 1000000000\<rparr>"
    using assms by (simp add: add_timespec_def Let_def carry_nsec.simps)
  moreover have "\<not> valid_ts \<lparr>ts_sec = ts_sec a + b sdiv 1000, ts_nsec = 1000000000\<rparr>"
    by (simp add: valid_ts_def)
  ultimately show ?thesis using await_invalid by blast
qed

lemma full_second_deadline_hangs_witness:
  "\<exists>r. add_timespec \<lparr>ts_sec = 7, ts_nsec = 500000000\<rparr> 1500 = Inr r \<and> (\<forall>es. await_reply r es False = None)"
  by (rule full_second_deadline_hangs) (simp_all add: valid_ts_def signed_modulo_int_def signed_divide_int_def)

end
