(* ===== verification/RpcClient.thy ===== *)
theory RpcClient
  imports Stubs XidWindow Connection Timespec "HOL-Library.AList"
begin

text \<open>
  The client endpoint (\<open>rpcc\<close> in \<open>rpc/rpc.h\<close> and \<open>rpc/rpc.cc\<close>): \<open>call1\<close>, \<open>got_pdu\<close>, \<open>bind\<close>,
  \<open>cancel\<close>, \<open>get_refconn\<close> and the destructor. \<open>call1\<close> is cut where it takes and gives back
  its mutexes, and the threads that run it, the replies, the cancelling thread and the death
  of connections are the steps of a relation. A \<open>caller\<close> lives on the stack of its thread,
  so that the number of the thread is its address.
\<close>

section \<open>State\<close>

text \<open>The result \<open>intret\<close> is not initialised; it is read only once \<open>done\<close> is set.\<close>

record caller =
  ca_xid :: u32
  ca_un :: unmarshall
  ca_intret :: i32
  ca_done :: bool

record rpcc =
  cl_nonce :: u32
  cl_srv_nonce :: u32
  bind_done :: bool
  next_xid :: u32
  retrans :: bool
  reachable :: bool
  chan :: "nat option"
  destroy_wait :: bool
  calls :: "(u32 \<times> nat) list"
  callers :: "nat \<Rightarrow> caller option"
  rep_window :: "u32 list"
  cl_heap :: conn_heap
  cl_sends :: "(nat \<times> cells) list"

definition to_max :: int where "to_max = 120000"

definition to_min :: int where "to_min = 1000"

definition rpcc_new :: "bool \<Rightarrow> u32 \<Rightarrow> rpcc" where
  "rpcc_new re random =
     \<lparr>cl_nonce = (if re then random else 0), cl_srv_nonce = 0, bind_done = False, next_xid = 1,
      retrans = re, reachable = True, chan = None, destroy_wait = False, calls = [],
      callers = (\<lambda>_. None), rep_window = xid_rep_window_init, cl_heap = (\<lambda>_. None), cl_sends = []\<rparr>"

definition caller_new :: "u32 \<Rightarrow> unmarshall \<Rightarrow> caller" where
  "caller_new xid un = \<lparr>ca_xid = xid, ca_un = un, ca_intret = 0, ca_done = False\<rparr>"

definition rpcc_delete :: "rpcc \<Rightarrow> rpcc outcome" where
  "rpcc_delete st =
     andthen
       (case chan st of
          None \<Rightarrow> Inr st
        | Some c \<Rightarrow> andthen (closeconn c (cl_heap st)) (\<lambda>(h, removed).
                   andthen (decref c h) (\<lambda>h. Inr (st\<lparr>cl_heap := h\<rparr>))))
       (\<lambda>st. if length (calls st) = 0 then Inr st else Inl Assert_failed)"

section \<open>bind and cancel\<close>

text \<open>What \<open>bind\<close> does with the answer of its call, whose request is \<open>call(bind, 0, r, to)\<close>.\<close>

definition bind_req :: "marshall outcome" where
  "bind_req = call_req1 put_int 0"

definition bind_end :: "i32 \<Rightarrow> i32 \<Rightarrow> rpcc \<Rightarrow> i32 \<times> rpcc" where
  "bind_end ret r st =
     (ret, if ret = 0 then st\<lparr>bind_done := True, cl_srv_nonce := r\<rparr> else st)"

text \<open>The loop of \<open>cancel\<close> over \<open>calls_\<close>, and the test around its wait: \<^term>\<open>True\<close> to wait.\<close>

primrec cancel_each :: "(u32 \<times> nat) list \<Rightarrow> (nat \<Rightarrow> caller option) \<Rightarrow> (nat \<Rightarrow> caller option) outcome" where
  "cancel_each [] cs = Inr cs"
| "cancel_each (p # ps) cs =
     (case cs (snd p) of
        None \<Rightarrow> Inl Use_after_free
      | Some ca \<Rightarrow> cancel_each ps (cs(snd p \<mapsto> ca\<lparr>ca_done := True, ca_intret := cancel_failure\<rparr>)))"

definition cancel_test :: "rpcc \<Rightarrow> bool \<times> rpcc" where
  "cancel_test st =
     (if 0 < length (calls st) then (True, st\<lparr>destroy_wait := True\<rparr>) else (False, st))"

definition cancel_enter :: "rpcc \<Rightarrow> (bool \<times> rpcc) outcome" where
  "cancel_enter st =
     andthen (cancel_each (calls st) (callers st)) (\<lambda>cs. Inr (cancel_test (st\<lparr>callers := cs\<rparr>)))"

section \<open>call1\<close>

text \<open>The first section: an error code, or the request with its header.\<close>

definition call_begin :: "nat \<Rightarrow> u32 \<Rightarrow> marshall \<Rightarrow> unmarshall \<Rightarrow> rpcc \<Rightarrow> ((i32 + marshall) \<times> rpcc) outcome" where
  "call_begin a proc req rep st =
     (if proc \<noteq> rpc_bind \<and> \<not> bind_done st \<or> proc = rpc_bind \<and> bind_done st
      then Inr (Inl bind_failure, st)
      else if destroy_wait st then Inr (Inl cancel_failure, st)
      else
        let x = next_xid st;
            st = st\<lparr>next_xid := x + 1, callers := (callers st)(a \<mapsto> caller_new x rep),
                    calls := AList.update x a (calls st)\<rparr>
        in case rep_window st of
          [] \<Rightarrow> Inl Out_of_bounds
        | f # w \<Rightarrow>
            andthen (pack_req_header \<lparr>rq_xid = x, rq_proc = proc, rq_clt_nonce = cl_nonce st,
                       rq_srv_nonce = cl_srv_nonce st, rq_xid_rep = f\<rparr> req)
              (\<lambda>req. Inr (Inr req, st)))"

text \<open>
  \<open>get_refconn\<close>: \<open>new\<close> is what \<open>connect_to_dst\<close> returns, a new object or a null pointer, and
  \<open>ch\<close> the connection of the caller.
\<close>

definition renew_chan :: "(nat \<times> connection) option \<Rightarrow> rpcc \<Rightarrow> rpcc outcome" where
  "renew_chan new st =
     andthen (case chan st of None \<Rightarrow> Inr True | Some c \<Rightarrow> isdead c (cl_heap st)) (\<lambda>renew.
     if \<not> renew then Inr st
     else
       andthen (case chan st of None \<Rightarrow> Inr (cl_heap st) | Some c \<Rightarrow> decref c (cl_heap st)) (\<lambda>h.
       Inr (case new of
              None \<Rightarrow> st\<lparr>cl_heap := h, chan := None\<rparr>
            | Some (c, obj) \<Rightarrow> st\<lparr>cl_heap := h(c \<mapsto> obj), chan := Some c\<rparr>)))"

definition get_refconn :: "(nat \<times> connection) option \<Rightarrow> nat option \<Rightarrow> rpcc \<Rightarrow> (nat option \<times> rpcc) outcome" where
  "get_refconn new ch st =
     andthen (renew_chan new st) (\<lambda>st.
     case chan st of
       None \<Rightarrow> Inr (ch, st)
     | Some c \<Rightarrow>
         andthen (case ch of None \<Rightarrow> Inr (cl_heap st) | Some d \<Rightarrow> decref d (cl_heap st)) (\<lambda>h.
         andthen (incref c h) (\<lambda>h. Inr (Some c, st\<lparr>cl_heap := h\<rparr>))))"

definition transmit :: "(nat \<times> connection) option \<Rightarrow> nat option \<Rightarrow> marshall \<Rightarrow> rpcc \<Rightarrow> (nat option \<times> rpcc) outcome" where
  "transmit new ch req st =
     andthen (get_refconn new ch st) (\<lambda>(ch, st).
     Inr (ch, case ch of
                None \<Rightarrow> st
              | Some c \<Rightarrow> if reachable st then st\<lparr>cl_sends := cl_sends st @ [(c, written req)]\<rparr> else st))"

text \<open>
  The deadline of a round, and the final deadline with the mark (\<open>tv_sec = 0\<close>) that this is
  the last round. Doubling an \<open>int\<close> out of its range is undefined.
\<close>

definition next_deadline :: "timespec \<Rightarrow> int \<Rightarrow> timespec \<Rightarrow> (timespec \<times> timespec) outcome" where
  "next_deadline now ms final =
     andthen (add_timespec now ms) (\<lambda>d.
     if cmp_timespec d final > 0 then Inr (final, final\<lparr>ts_sec := 0\<rparr>) else Inr (d, final))"

definition double_to :: "int \<Rightarrow> int outcome" where
  "double_to ms = (if 2 * ms > int int_max then Inl Int_overflow else Inr (2 * ms))"

definition retransmit :: "nat option \<Rightarrow> rpcc \<Rightarrow> bool outcome" where
  "retransmit ch st =
     (if \<not> retrans st then Inr False
      else case ch of None \<Rightarrow> Inr True | Some c \<Rightarrow> isdead c (cl_heap st))"

text \<open>
  The last sections: the erased entry can no longer be reached by \<open>got_pdu\<close> or \<open>cancel\<close>, so
  what is read afterwards is what the caller holds now. The result says whether
  \<open>destroy_wait_c_\<close> was signalled.
\<close>

definition call_end :: "nat \<Rightarrow> nat option \<Rightarrow> rpcc \<Rightarrow> (i32 \<times> unmarshall \<times> bool \<times> rpcc) outcome" where
  "call_end a ch st =
     (case callers st a of
        None \<Rightarrow> Inl Use_after_free
      | Some ca \<Rightarrow>
          andthen (update_xid_rep (ca_xid ca) (rep_window st)) (\<lambda>w.
          andthen (case ch of None \<Rightarrow> Inr (cl_heap st) | Some c \<Rightarrow> decref c (cl_heap st)) (\<lambda>h.
          Inr (if ca_done ca then ca_intret ca else timeout_failure, ca_un ca, destroy_wait st,
               st\<lparr>calls := AList.delete (ca_xid ca) (calls st), rep_window := w,
                  callers := (callers st)(a := None), cl_heap := h\<rparr>))))"

section \<open>got_pdu\<close>

definition got_reply :: "u8 list \<Rightarrow> rpcc \<Rightarrow> rpcc outcome" where
  "got_reply pdu st =
     (let (h, rep) = unpack_reply_header (unmarshall_of pdu)
      in if \<not> uok rep then Inr st
      else
        andthen (update_xid_rep (rp_xid h) (rep_window st)) (\<lambda>w.
        let st = st\<lparr>rep_window := w\<rparr> in
        case map_of (calls st) (rp_xid h) of
          None \<Rightarrow> Inr st
        | Some a \<Rightarrow>
            (case callers st a of
               None \<Rightarrow> Inl Use_after_free
             | Some ca \<Rightarrow>
                 Inr (if \<not> ca_done ca
                      then st\<lparr>callers := (callers st)(a \<mapsto>
                        ca\<lparr>ca_un := fst (take_in (ca_un ca) rep), ca_intret := rp_ret h, ca_done := True\<rparr>)\<rparr>
                      else st))))"

section \<open>Threads\<close>

text \<open>
  Where a thread is in \<open>call1\<close>: outside, at the top of the loop with its request, \<open>ch\<close>,
  \<open>transmit\<close>, \<open>curr_to\<close> and \<open>finaldeadline\<close>, waiting for a deadline, or after the loop. The
  one cancelling thread waits for \<open>destroy_wait_c_\<close>; the flag says that it was signalled.
\<close>

datatype call_phase =
    Idle
  | Top marshall "nat option" bool int timespec
  | Waits marshall "nat option" int timespec timespec
  | Leaves "nat option"

datatype cancel_phase = No_cancel | Cancel_waits bool | Cancel_done

record clt_sys =
  clt :: rpcc
  threads :: "nat \<Rightarrow> call_phase"
  canceller :: cancel_phase

datatype clt_event =
    Refused nat i32
  | Begun nat u32 marshall
  | Local nat
  | Returned nat u32 i32 unmarshall
  | Reply "u8 list"
  | Bound i32 i32
  | Cancels
  | Cancel_wakes
  | Dies nat

definition reply_of :: "u8 list \<Rightarrow> reply_header option" where
  "reply_of pdu = (let (h, u) = unpack_reply_header (unmarshall_of pdu) in if uok u then Some h else None)"

definition fresh_conn_of :: "(nat \<times> connection) option \<Rightarrow> conn_heap \<Rightarrow> bool" where
  "fresh_conn_of new h =
     (case new of None \<Rightarrow> True
      | Some (c, obj) \<Rightarrow> h c = None \<and> obj = connection_new (cn_fd obj) (cn_lossy obj) (cn_sec obj, cn_usec obj))"

definition signal_canceller :: "bool \<Rightarrow> cancel_phase \<Rightarrow> cancel_phase" where
  "signal_canceller b p = (case p of Cancel_waits w \<Rightarrow> Cancel_waits (w \<or> b) | _ \<Rightarrow> p)"

definition cancel_goes :: "bool \<Rightarrow> cancel_phase" where
  "cancel_goes w = (if w then Cancel_waits False else Cancel_done)"

text \<open>
  A step of a thread, of the poll thread that delivers a reply or closes a connection, or of
  the canceller. The server only answers requests that were sent; requests are built by the
  stubs, and a new connection is a new object. A wait also ends spuriously, without effect.
\<close>

inductive clt_step :: "clt_sys \<Rightarrow> clt_event \<Rightarrow> clt_sys \<Rightarrow> bool" where
  refused: "threads s a = Idle \<Longrightarrow> call_begin a proc req un (clt s) = Inr (Inl r, st) \<Longrightarrow>
     clt_step s (Refused a r) (s\<lparr>clt := st\<rparr>)"
| begins: "threads s a = Idle \<Longrightarrow> body req args \<Longrightarrow>
     call_begin a proc req un (clt s) = Inr (Inr msg, st) \<Longrightarrow> add_timespec now limit = Inr fin \<Longrightarrow>
     clt_step s (Begun a (next_xid (clt s)) msg)
       (s\<lparr>clt := st, threads := (threads s)(a := Top msg None True to_min fin)\<rparr>)"
| transmits: "threads s a = Top msg ch True ms fin \<Longrightarrow> fresh_conn_of new (cl_heap (clt s)) \<Longrightarrow>
     transmit new ch msg (clt s) = Inr (ch', st) \<Longrightarrow>
     clt_step s (Local a) (s\<lparr>clt := st, threads := (threads s)(a := Top msg ch' False ms fin)\<rparr>)"
| gives_up: "threads s a = Top msg ch False ms fin \<Longrightarrow> ts_sec fin = 0 \<Longrightarrow>
     clt_step s (Local a) (s\<lparr>threads := (threads s)(a := Leaves ch)\<rparr>)"
| plans: "threads s a = Top msg ch False ms fin \<Longrightarrow> ts_sec fin \<noteq> 0 \<Longrightarrow>
     next_deadline now ms fin = Inr (d, fin') \<Longrightarrow>
     clt_step s (Local a) (s\<lparr>threads := (threads s)(a := Waits msg ch ms d fin')\<rparr>)"
| answered: "threads s a = Waits msg ch ms d fin \<Longrightarrow> callers (clt s) a = Some ca \<Longrightarrow> ca_done ca \<Longrightarrow>
     clt_step s (Local a) (s\<lparr>threads := (threads s)(a := Leaves ch)\<rparr>)"
| times_out: "threads s a = Waits msg ch ms d fin \<Longrightarrow> callers (clt s) a = Some ca \<Longrightarrow> \<not> ca_done ca \<Longrightarrow>
     valid_ts d \<Longrightarrow> retransmit ch (clt s) = Inr again \<Longrightarrow> double_to ms = Inr ms' \<Longrightarrow>
     clt_step s (Local a) (s\<lparr>threads := (threads s)(a := Top msg ch again ms' fin)\<rparr>)"
| leaves: "threads s a = Leaves ch \<Longrightarrow> callers (clt s) a = Some ca \<Longrightarrow>
     call_end a ch (clt s) = Inr (ret, un, sig, st) \<Longrightarrow>
     clt_step s (Returned a (ca_xid ca) ret un)
       (s\<lparr>clt := st, threads := (threads s)(a := Idle), canceller := signal_canceller sig (canceller s)\<rparr>)"
| replies: "got_reply pdu (clt s) = Inr st \<Longrightarrow>
     (case reply_of pdu of None \<Rightarrow> True | Some h \<Rightarrow> rp_xid h < next_xid (clt s)) \<Longrightarrow>
     clt_step s (Reply pdu) (s\<lparr>clt := st\<rparr>)"
| bound: "bind_end ret r (clt s) = (ret, st) \<Longrightarrow> clt_step s (Bound ret r) (s\<lparr>clt := st\<rparr>)"
| cancels: "canceller s = No_cancel \<Longrightarrow> cancel_enter (clt s) = Inr (w, st) \<Longrightarrow>
     clt_step s Cancels (s\<lparr>clt := st, canceller := cancel_goes w\<rparr>)"
| cancel_wakes: "canceller s = Cancel_waits b \<Longrightarrow> cancel_test (clt s) = (w, st) \<Longrightarrow>
     clt_step s Cancel_wakes (s\<lparr>clt := st, canceller := cancel_goes w\<rparr>)"
| dies: "closeconn c (cl_heap (clt s)) = Inr (h, removed) \<Longrightarrow>
     clt_step s (Dies c) (s\<lparr>clt := (clt s)\<lparr>cl_heap := h\<rparr>\<rparr>)"

inductive_cases clt_stepE: "clt_step s e s'"

inductive clt_run :: "clt_sys \<Rightarrow> clt_event list \<Rightarrow> clt_sys \<Rightarrow> bool" where
  clt_start: "clt_run s [] s"
| clt_next: "clt_run s es s' \<Longrightarrow> clt_step s' e s'' \<Longrightarrow> clt_run s (es @ [e]) s''"

definition clt_init :: "bool \<Rightarrow> u32 \<Rightarrow> clt_sys" where
  "clt_init re random = \<lparr>clt = rpcc_new re random, threads = (\<lambda>_. Idle), canceller = No_cancel\<rparr>"

end
