(* ===== verification/ClientCalls.thy ===== *)
theory ClientCalls
  imports RpcClient
begin

text \<open>
  The histories of the client endpoint: invariants of \<open>rpcc\<close> and of its threads, the answer
  of every call, \<open>cancel\<close>, the reference counts of connections, and the number of rounds of
  a call that gets no reply.
\<close>

section \<open>What the entries and the window stand for\<close>

text \<open>
  With \<open>n\<close> calls begun, fewer than the numbers there are: the map \<open>calls_\<close> and the callers
  on the stacks are the same, the numbers in the window were given out, and no call that
  waits for its reply is acknowledged.
\<close>

definition waiting :: "rpcc \<Rightarrow> nat \<Rightarrow> u32 \<Rightarrow> bool" where
  "waiting st a x \<longleftrightarrow> (\<exists>ca. callers st a = Some ca \<and> ca_xid ca = x \<and> \<not> ca_done ca)"

definition registered :: "rpcc \<Rightarrow> bool" where
  "registered st \<longleftrightarrow> distinct (map fst (calls st)) \<and>
     (\<forall>x a. map_of (calls st) x = Some a \<longleftrightarrow> (\<exists>ca. callers st a = Some ca \<and> ca_xid ca = x))"

definition window_inv :: "rpcc \<Rightarrow> bool" where
  "window_inv st \<longleftrightarrow> window_ok (rep_window st) \<and> (\<forall>x \<in> acked (rep_window st). x < next_xid st) \<and>
     (\<forall>a ca. callers st a = Some ca \<longrightarrow> ca_xid ca < next_xid st) \<and>
     (\<forall>a x. waiting st a x \<longrightarrow> x \<notin> acked (rep_window st))"

definition core_inv :: "rpcc \<Rightarrow> bool" where
  "core_inv st \<longleftrightarrow> registered st \<and> window_inv st"

lemma registered_unique:
  assumes "registered st" "callers st a = Some ca" "callers st b = Some cb" "ca_xid ca = ca_xid cb"
  shows "a = b"
  using assms unfolding registered_def by (metis option.inject)

lemma registered_lookup:
  "registered st \<Longrightarrow> callers st a = Some ca \<Longrightarrow> map_of (calls st) (ca_xid ca) = Some a"
  unfolding registered_def by blast

lemma registered_entry:
  "registered st \<Longrightarrow> map_of (calls st) x = Some a \<Longrightarrow> \<exists>ca. callers st a = Some ca \<and> ca_xid ca = x"
  unfolding registered_def by blast

lemma registered_cong:
  assumes "registered st" "calls st' = calls st"
    and "\<forall>b. map_option ca_xid (callers st' b) = map_option ca_xid (callers st b)"
  shows "registered st'"
proof -
  have e: "(\<exists>ca. callers s a = Some ca \<and> ca_xid ca = x) \<longleftrightarrow> map_option ca_xid (callers s a) = Some x"
    for s :: rpcc and a x by auto
  from assms show ?thesis unfolding registered_def e by simp
qed

lemma core_inv_new: "core_inv (rpcc_new re random)"
  by (simp add: core_inv_def registered_def window_inv_def waiting_def rpcc_new_def window_ok_init)

text \<open>The parts that connections and binding change are not looked at.\<close>

definition same_calls :: "rpcc \<Rightarrow> rpcc \<Rightarrow> bool" where
  "same_calls st st' \<longleftrightarrow> callers st' = callers st \<and> calls st' = calls st \<and>
     rep_window st' = rep_window st \<and> next_xid st' = next_xid st \<and> destroy_wait st' = destroy_wait st"

lemma same_calls_core: "same_calls st st' \<Longrightarrow> core_inv st \<Longrightarrow> core_inv st'"
  by (simp add: same_calls_def core_inv_def registered_def window_inv_def waiting_def)

lemma bind_end_same: "bind_end ret r st = (ret', st') \<Longrightarrow> same_calls st st'"
  by (auto simp: bind_end_def same_calls_def split: if_splits)

lemma renew_chan_same: "renew_chan new st = Inr st' \<Longrightarrow> same_calls st st'"
  unfolding renew_chan_def same_calls_def
  by (simp only: andthen_Inr_iff) (auto simp: andthen_Inr_iff simp del: not_None_eq split: if_split_asm option.split_asm)

lemma same_calls_upd [simp]:
  "same_calls st (st'\<lparr>cl_heap := h\<rparr>) = same_calls st st'"
  "same_calls st (st'\<lparr>cl_sends := ss\<rparr>) = same_calls st st'"
  by (simp_all add: same_calls_def)

lemma get_refconn_same:
  assumes "get_refconn new ch st = Inr (ch', st')"
  shows "same_calls st st'"
proof -
  from assms obtain s1 where s1: "renew_chan new st = Inr s1"
    and r: "(case chan s1 of None \<Rightarrow> Inr (ch, s1)
      | Some c \<Rightarrow> andthen (case ch of None \<Rightarrow> Inr (cl_heap s1) | Some d \<Rightarrow> decref d (cl_heap s1)) (\<lambda>h.
         andthen (incref c h) (\<lambda>h. Inr (Some c, s1\<lparr>cl_heap := h\<rparr>)))) = Inr (ch', st')"
    unfolding get_refconn_def by (auto simp only: andthen_Inr_iff)
  from r have "\<exists>h. st' = s1\<lparr>cl_heap := h\<rparr>" by (cases "chan s1") (auto simp: andthen_Inr_iff intro: exI [of _ "cl_heap s1"])
  with renew_chan_same [OF s1] show ?thesis by auto
qed

lemma transmit_same:
  assumes "transmit new ch req st = Inr (ch', st')"
  shows "same_calls st st'"
proof -
  from assms obtain s1 where "get_refconn new ch st = Inr (ch', s1)"
    and st': "st' = (case ch' of None \<Rightarrow> s1
       | Some c \<Rightarrow> if reachable s1 then s1\<lparr>cl_sends := cl_sends s1 @ [(c, written req)]\<rparr> else s1)"
    unfolding transmit_def by (auto simp only: andthen_Inr_iff prod.case split_paired_Ex sum.inject prod.inject)
  from get_refconn_same [OF this(1)] st' show ?thesis by (simp split: option.split)
qed

text \<open>The first section of a call.\<close>

lemma call_begin_cases:
  assumes "call_begin a proc req un st = Inr (r, st')" "window_ok (rep_window st)"
  obtains e where "r = Inl e" "st' = st"
  | msg where "r = Inr msg" "\<not> destroy_wait st"
      "st' = st\<lparr>next_xid := next_xid st + 1, callers := (callers st)(a \<mapsto> caller_new (next_xid st) un),
                calls := AList.update (next_xid st) a (calls st)\<rparr>"
      "pack_req_header \<lparr>rq_xid = next_xid st, rq_proc = proc, rq_clt_nonce = cl_nonce st,
         rq_srv_nonce = cl_srv_nonce st, rq_xid_rep = hd (rep_window st)\<rparr> req = Inr msg"
proof (cases "proc \<noteq> rpc_bind \<and> \<not> bind_done st \<or> proc = rpc_bind \<and> bind_done st \<or> destroy_wait st")
  case True
  with assms(1) show thesis using that(1) by (auto simp: call_begin_def split: if_split_asm)
next
  case False
  from assms(2) obtain f w where w: "rep_window st = f # w" by (cases "rep_window st") (auto simp: window_ok_def)
  from False assms(1) w show thesis using that(2)
    by (auto simp: call_begin_def Let_def andthen_Inr_iff)
qed

lemma less_succ: "x < y \<Longrightarrow> y < y + 1 \<Longrightarrow> x < y + (1 :: u32)"
  by (rule less_trans)

lemma begin_core:
  assumes "core_inv st" "callers st a = None" "next_xid st < next_xid st + 1"
    and "st' = st\<lparr>next_xid := next_xid st + 1, callers := (callers st)(a \<mapsto> caller_new (next_xid st) un),
                calls := AList.update (next_xid st) a (calls st)\<rparr>"
  shows "core_inv st'"
proof -
  let ?x = "next_xid st"
  from assms(1) have reg: "registered st" and w: "window_inv st" by (simp_all add: core_inv_def)
  have new: "ca_xid ca \<noteq> ?x" if "callers st b = Some ca" for b ca
    using w that unfolding window_inv_def by (metis less_irrefl)
  have old: "b \<noteq> a" if "callers st b = Some ca" for b ca using that assms(2) by auto
  have "registered st'"
    using reg new old unfolding registered_def assms(4)
    by (auto simp: distinct_update update_conv' caller_new_def)
  moreover have "window_inv st'"
    using w assms(3) less_succ new unfolding window_inv_def assms(4) waiting_def
    by (auto simp: caller_new_def)
  ultimately show ?thesis by (simp add: core_inv_def)
qed

lemma end_core:
  assumes "core_inv st" "callers st a = Some ca" "call_end a ch st = Inr (ret, un, sig, st')"
  shows "core_inv st'" "ret = (if ca_done ca then ca_intret ca else timeout_failure)" "un = ca_un ca"
    "sig = destroy_wait st" "callers st' = (callers st)(a := None)" "next_xid st' = next_xid st"
    "destroy_wait st' = destroy_wait st" "calls st' = AList.delete (ca_xid ca) (calls st)"
proof -
  from assms(1) have reg: "registered st" and w: "window_inv st" by (simp_all add: core_inv_def)
  from w update_xid_rep_ok [of "rep_window st" "ca_xid ca"] obtain v
    where v: "update_xid_rep (ca_xid ca) (rep_window st) = Inr v" "window_ok v"
      "acked v = insert (ca_xid ca) (acked (rep_window st))" by (auto simp: window_inv_def)
  obtain h where
    e: "(ret, un, sig, st') = (if ca_done ca then ca_intret ca else timeout_failure, ca_un ca, destroy_wait st,
       st\<lparr>calls := AList.delete (ca_xid ca) (calls st), rep_window := v,
           callers := (callers st)(a := None), cl_heap := h\<rparr>)"
    using assms(2,3) v(1) unfolding call_end_def by (auto simp only: andthen_Inr_iff option.simps sum.inject)
  from e have st': "st' = st\<lparr>calls := AList.delete (ca_xid ca) (calls st), rep_window := v,
                  callers := (callers st)(a := None), cl_heap := h\<rparr>"
    and r: "ret = (if ca_done ca then ca_intret ca else timeout_failure)" "un = ca_un ca" "sig = destroy_wait st"
    by simp_all
  show "ret = (if ca_done ca then ca_intret ca else timeout_failure)" "un = ca_un ca"
    "sig = destroy_wait st" by (fact r)+
  show "callers st' = (callers st)(a := None)" "next_xid st' = next_xid st"
    "destroy_wait st' = destroy_wait st" "calls st' = AList.delete (ca_xid ca) (calls st)"
    by (simp_all add: st')
  have other: "ca_xid cb \<noteq> ca_xid ca" if "callers st b = Some cb" "b \<noteq> a" for b cb
    using registered_unique [OF reg that(1) assms(2)] that(2) by blast
  have "registered st'"
    using reg assms(2) other unfolding registered_def st'
    by (auto simp: distinct_delete delete_conv')
  moreover have "window_inv st'"
    using w v(2,3) assms(2) other unfolding window_inv_def st' waiting_def by (auto split: if_splits)
  ultimately show "core_inv st'" by (simp add: core_inv_def)
qed

text \<open>A reply. What the caller gets is the whole PDU, to be read behind the header.\<close>

definition reply_un :: "u8 list \<Rightarrow> unmarshall" where
  "reply_un pdu = \<lparr>ubuf = pdu, uind = RPC_HEADER_SZ, uok = RPC_HEADER_SZ \<le> length pdu\<rparr>"

definition deliver :: "u8 list \<Rightarrow> i32 \<Rightarrow> caller \<Rightarrow> caller" where
  "deliver pdu ret ca =
     (if ca_done ca then ca else ca\<lparr>ca_un := reply_un pdu, ca_intret := ret, ca_done := True\<rparr>)"

lemma ubuf_unpack: "ubuf (snd (unpack u)) = ubuf u"
  by (simp add: unpack_def urawbyte_def Let_def)

lemma unpack_reply_ubuf: "ubuf (snd (unpack_reply_header u)) = ubuf u"
  by (simp add: unpack_reply_header_def Let_def split_beta ubuf_unpack)

lemma deliver_simps [simp]:
  "ca_xid (deliver pdu r ca) = ca_xid ca" "ca_done (deliver pdu r ca)"
  by (simp_all add: deliver_def)

lemma got_reply_ignored: "reply_of pdu = None \<Longrightarrow> got_reply pdu st = Inr st"
  by (auto simp: reply_of_def got_reply_def Let_def split: prod.splits if_split_asm)

lemma got_reply_delivers:
  assumes "core_inv st" "reply_of pdu = Some h"
  shows "\<exists>w. got_reply pdu st = Inr (st\<lparr>rep_window := w, callers :=
         (case map_of (calls st) (rp_xid h) of None \<Rightarrow> callers st
          | Some a \<Rightarrow> (callers st)(a := map_option (deliver pdu (rp_ret h)) (callers st a)))\<rparr>) \<and>
     window_ok w \<and> acked w = insert (rp_xid h) (acked (rep_window st))"
proof -
  from assms(1) have reg: "registered st" and w: "window_inv st" by (simp_all add: core_inv_def)
  from w update_xid_rep_ok [of "rep_window st" "rp_xid h"] obtain v
    where v: "update_xid_rep (rp_xid h) (rep_window st) = Inr v" "window_ok v"
      "acked v = insert (rp_xid h) (acked (rep_window st))" by (auto simp: window_inv_def)
  obtain u where u: "unpack_reply_header (unmarshall_of pdu) = (h, u)" "uok u"
    using assms(2) by (auto simp: reply_of_def split: prod.splits if_split_asm)
  from unpack_reply_ubuf [of "unmarshall_of pdu"] u(1) have "ubuf u = pdu" by (simp add: unmarshall_of_def)
  then have t: "fst (take_in un u) = reply_un pdu" for un
    by (simp add: take_in_def utake_buf_def reply_un_def)
  show ?thesis
  proof (cases "map_of (calls st) (rp_xid h)")
    case None
    with u v show ?thesis by (intro exI [of _ v]) (simp add: got_reply_def)
  next
    case (Some a)
    from registered_entry [OF reg Some] obtain ca where "callers st a = Some ca" by blast
    with u v t Some show ?thesis
      by (intro exI [of _ v]) (simp add: got_reply_def deliver_def fun_upd_idem)
  qed
qed

lemma reply_core:
  assumes "core_inv st" "case reply_of pdu of None \<Rightarrow> True | Some h \<Rightarrow> rp_xid h < next_xid st"
    and "got_reply pdu st = Inr st'"
  shows "core_inv st'"
proof (cases "reply_of pdu")
  case None
  with assms show ?thesis by (simp add: got_reply_ignored)
next
  case (Some h)
  from got_reply_delivers [OF assms(1) Some] assms(3) obtain w where
    st': "st' = st\<lparr>rep_window := w, callers :=
         (case map_of (calls st) (rp_xid h) of None \<Rightarrow> callers st
          | Some a \<Rightarrow> (callers st)(a := map_option (deliver pdu (rp_ret h)) (callers st a)))\<rparr>"
    and w: "window_ok w" "acked w = insert (rp_xid h) (acked (rep_window st))" by auto
  from assms(1) have reg: "registered st" and win: "window_inv st" by (simp_all add: core_inv_def)
  have bound: "rp_xid h < next_xid st" using assms(2) Some by simp
  show ?thesis
  proof (cases "map_of (calls st) (rp_xid h)")
    case None
    then have "ca_xid ca \<noteq> rp_xid h" if "callers st b = Some ca" for b ca
      using registered_lookup [OF reg that] by auto
    with reg win w bound None show ?thesis
      unfolding core_inv_def registered_def window_inv_def waiting_def st' by auto
  next
    case (Some a)
    from registered_entry [OF reg Some] obtain ca where a: "callers st a = Some ca" "ca_xid ca = rp_xid h" by blast
    then have other: "ca_xid cb \<noteq> rp_xid h" if "callers st b = Some cb" "b \<noteq> a" for b cb
      using registered_unique [OF reg a(1) that(1)] that(2) by auto
    have c: "callers st' = (callers st)(a \<mapsto> deliver pdu (rp_ret h) ca)" using Some a(1) by (simp add: st')
    have "registered st'" using a by (intro registered_cong [OF reg]) (auto simp: c, simp add: st')
    moreover have "window_inv st'"
      using win w bound a other unfolding window_inv_def waiting_def c by (auto simp: st' split: if_split_asm)
    ultimately show ?thesis by (simp add: core_inv_def)
  qed
qed

lemma got_reply_effect:
  assumes "core_inv st" "got_reply pdu st = Inr st'"
  shows "callers st' b =
      (case reply_of pdu of
         None \<Rightarrow> callers st b
       | Some h \<Rightarrow> if map_of (calls st) (rp_xid h) = Some b
           then map_option (deliver pdu (rp_ret h)) (callers st b) else callers st b)"
    and "next_xid st' = next_xid st" "calls st' = calls st" "destroy_wait st' = destroy_wait st"
    and "cl_heap st' = cl_heap st" "chan st' = chan st"
proof -
  let ?P = "callers st' b =
      (case reply_of pdu of
         None \<Rightarrow> callers st b
       | Some h \<Rightarrow> if map_of (calls st) (rp_xid h) = Some b
           then map_option (deliver pdu (rp_ret h)) (callers st b) else callers st b) \<and>
    next_xid st' = next_xid st \<and> calls st' = calls st \<and> destroy_wait st' = destroy_wait st \<and>
    cl_heap st' = cl_heap st \<and> chan st' = chan st"
  have ?P
  proof (cases "reply_of pdu")
    case None
    then show ?thesis using got_reply_ignored [of pdu st] assms(2) by simp
  next
    case (Some h)
    from got_reply_delivers [OF assms(1) Some] assms(2) obtain w
      where "st' = st\<lparr>rep_window := w, callers :=
         (case map_of (calls st) (rp_xid h) of None \<Rightarrow> callers st
          | Some a \<Rightarrow> (callers st)(a := map_option (deliver pdu (rp_ret h)) (callers st a)))\<rparr>" by auto
    then show ?thesis using Some by (cases "map_of (calls st) (rp_xid h)") simp_all
  qed
  then show "callers st' b =
      (case reply_of pdu of
         None \<Rightarrow> callers st b
       | Some h \<Rightarrow> if map_of (calls st) (rp_xid h) = Some b
           then map_option (deliver pdu (rp_ret h)) (callers st b) else callers st b)"
    and "next_xid st' = next_xid st" "calls st' = calls st" "destroy_wait st' = destroy_wait st"
    and "cl_heap st' = cl_heap st" "chan st' = chan st"
    by blast+
qed

text \<open>Cancelling marks every caller and nothing else.\<close>

definition cancelled :: "caller \<Rightarrow> caller" where
  "cancelled ca = ca\<lparr>ca_done := True, ca_intret := cancel_failure\<rparr>"

lemma cancelled_simps [simp]:
  "ca_xid (cancelled ca) = ca_xid ca" "ca_done (cancelled ca)" "ca_intret (cancelled ca) = cancel_failure"
  "ca_un (cancelled ca) = ca_un ca" "cancelled (cancelled ca) = cancelled ca"
  by (simp_all add: cancelled_def)

lemma cancel_each_marks:
  "\<forall>p \<in> set ps. cs (snd p) \<noteq> None \<Longrightarrow>
     cancel_each ps cs = Inr (\<lambda>a. if a \<in> snd ` set ps then map_option cancelled (cs a) else cs a)"
proof (induction ps arbitrary: cs)
  case (Cons p ps)
  from Cons.prems obtain ca where ca: "cs (snd p) = Some ca" by auto
  have "cancel_each (p # ps) cs = cancel_each ps (cs(snd p \<mapsto> cancelled ca))"
    by (simp add: ca cancelled_def)
  also have "\<dots> = Inr (\<lambda>a. if a \<in> snd ` set ps then map_option cancelled ((cs(snd p \<mapsto> cancelled ca)) a)
       else (cs(snd p \<mapsto> cancelled ca)) a)"
    using Cons.prems by (intro Cons.IH) auto
  also have "\<dots> = Inr (\<lambda>a. if a \<in> snd ` set (p # ps) then map_option cancelled (cs a) else cs a)"
    using ca by (auto simp: fun_eq_iff)
  finally show ?case .
qed simp

lemma cancel_enter_marks:
  assumes "core_inv st"
  shows "cancel_enter st = Inr (calls st \<noteq> [], st\<lparr>callers := (\<lambda>a. map_option cancelled (callers st a)),
     destroy_wait := (destroy_wait st \<or> calls st \<noteq> [])\<rparr>)"
proof -
  from assms have reg: "registered st" by (simp add: core_inv_def)
  then have d: "distinct (map fst (calls st))" by (simp add: registered_def)
  have entry: "\<exists>ca. callers st a = Some ca \<and> ca_xid ca = x" if "(x, a) \<in> set (calls st)" for x a
    using registered_entry [OF reg] map_of_is_SomeI [OF d that] by blast
  have all: "a \<in> snd ` set (calls st)" if "callers st a = Some ca" for a ca
    using map_of_SomeD [OF registered_lookup [OF reg that]] by force
  have m: "cancel_each (calls st) (callers st) =
      Inr (\<lambda>a. if a \<in> snd ` set (calls st) then map_option cancelled (callers st a) else callers st a)"
    using entry by (intro cancel_each_marks) force
  have f: "(\<lambda>a. if a \<in> snd ` set (calls st) then map_option cancelled (callers st a) else callers st a) =
      (\<lambda>a. map_option cancelled (callers st a))"
  proof
    fix a
    show "(if a \<in> snd ` set (calls st) then map_option cancelled (callers st a) else callers st a) =
        map_option cancelled (callers st a)"
      using all [of a] by (cases "callers st a") auto
  qed
  show ?thesis unfolding cancel_enter_def m f by (simp add: cancel_test_def)
qed

lemma cancel_core:
  assumes "core_inv st" "cancel_enter st = Inr (w, st')"
  shows "core_inv st'"
proof -
  from assms have st': "st' = st\<lparr>callers := (\<lambda>a. map_option cancelled (callers st a)),
     destroy_wait := (destroy_wait st \<or> calls st \<noteq> [])\<rparr>" using cancel_enter_marks [OF assms(1)] by auto
  from assms(1) have reg: "registered st" and win: "window_inv st" by (simp_all add: core_inv_def)
  have "registered st'"
    by (intro registered_cong [OF reg]) (simp_all add: st' option.map_comp comp_def)
  moreover have "window_inv st'"
    using win unfolding window_inv_def waiting_def by (auto simp: st')
  ultimately show ?thesis by (simp add: core_inv_def)
qed

lemma core_inv_upd [simp]:
  "core_inv (st\<lparr>destroy_wait := b\<rparr>) = core_inv st"
  "core_inv (st\<lparr>cl_heap := h\<rparr>) = core_inv st"
  by (simp_all add: core_inv_def registered_def window_inv_def waiting_def)

lemma cancel_test_core: "core_inv st \<Longrightarrow> cancel_test st = (w, st') \<Longrightarrow> core_inv st'"
  by (auto simp: cancel_test_def split: if_split_asm)

section \<open>Histories\<close>

text \<open>
  The numbers given out, and the answer of a call in a history: the first reply with its
  number since it began, unless the client was cancelled since then.
\<close>

fun given_out :: "clt_event \<Rightarrow> u32 list" where
  "given_out (Begun a x msg) = [x]"
| "given_out _ = []"

definition begun :: "clt_event list \<Rightarrow> u32 list" where
  "begun es = concat (map given_out es)"

datatype verdict = Unanswered | Answered i32 "u8 list option"

fun answer_step :: "u32 \<Rightarrow> verdict \<Rightarrow> clt_event \<Rightarrow> verdict" where
  "answer_step x v (Begun a y msg) = (if y = x then Unanswered else v)"
| "answer_step x Unanswered (Reply pdu) =
     (case reply_of pdu of
        Some h \<Rightarrow> if rp_xid h = x then Answered (rp_ret h) (Some pdu) else Unanswered
      | None \<Rightarrow> Unanswered)"
| "answer_step x Unanswered Cancels = Answered cancel_failure None"
| "answer_step x (Answered r p) Cancels = Answered cancel_failure p"
| "answer_step x v _ = v"

definition answer :: "u32 \<Rightarrow> clt_event list \<Rightarrow> verdict" where
  "answer x es = foldl (answer_step x) Unanswered es"

lemma begun_simps [simp]: "begun [] = []" "begun (es @ fs) = begun es @ begun fs" "begun (e # es) = given_out e @ begun es"
  by (simp_all add: begun_def)

lemma answer_snoc [simp]: "answer x (es @ [e]) = answer_step x (answer x es) e"
  by (simp add: answer_def)

definition verdict_of :: "caller \<Rightarrow> verdict \<Rightarrow> bool" where
  "verdict_of ca v \<longleftrightarrow>
     (case v of
        Unanswered \<Rightarrow> \<not> ca_done ca
      | Answered r p \<Rightarrow> ca_done ca \<and> ca_intret ca = r \<and> (case p of None \<Rightarrow> True | Some pdu \<Rightarrow> ca_un ca = reply_un pdu))"

definition clt_inv :: "clt_event list \<Rightarrow> clt_sys \<Rightarrow> bool" where
  "clt_inv es s \<longleftrightarrow> core_inv (clt s) \<and>
     begun es = map of_nat [1..<Suc (length (begun es))] \<and>
     next_xid (clt s) = of_nat (Suc (length (begun es))) \<and>
     (\<forall>a. threads s a = Idle \<longleftrightarrow> callers (clt s) a = None)"

definition answers_inv :: "clt_event list \<Rightarrow> clt_sys \<Rightarrow> bool" where
  "answers_inv es s \<longleftrightarrow> (\<forall>a ca. callers (clt s) a = Some ca \<longrightarrow> verdict_of ca (answer (ca_xid ca) es))"

definition cancel_inv :: "clt_sys \<Rightarrow> bool" where
  "cancel_inv s \<longleftrightarrow> (\<forall>b. canceller s = Cancel_waits b \<longrightarrow>
     destroy_wait (clt s) \<and> (calls (clt s) = [] \<longrightarrow> b) \<and>
     (\<forall>a ca. callers (clt s) a = Some ca \<longrightarrow> ca_done ca))"

lemma clt_inv_init: "clt_inv [] (clt_init re random)" "answers_inv [] (clt_init re random)"
  "cancel_inv (clt_init re random)"
  by (simp_all add: clt_inv_def clt_init_def core_inv_new answers_inv_def cancel_inv_def)
    (simp_all add: rpcc_new_def)

lemma core_window_ok: "core_inv st \<Longrightarrow> window_ok (rep_window st)"
  by (simp add: core_inv_def window_inv_def)

lemma succ_no_wrap:
  assumes "Suc n < 2 ^ 32 - 1"
  shows "(of_nat (Suc n) :: u32) < of_nat (Suc n) + 1"
proof -
  have "unat (of_nat (Suc n) :: u32) = Suc n" using assms by (simp only: unat_of_nat) simp
  then show ?thesis using assms by (simp add: word_less_nat_alt unat_word_ariths unat_of_nat)
qed

text \<open>Most steps of a thread, and those of connections, change nothing about the calls.\<close>

fun quiet :: "clt_event \<Rightarrow> bool" where
  "quiet (Refused a r) = True"
| "quiet (Local a) = True"
| "quiet (Bound r t) = True"
| "quiet (Dies c) = True"
| "quiet _ = False"

lemma quiet_event: "quiet e \<Longrightarrow> given_out e = []" "quiet e \<Longrightarrow> answer_step x v e = v"
  by (cases e; cases v; simp)+

lemma quiet_step:
  assumes "clt_step s e s'" "quiet e" "core_inv (clt s)"
  shows "same_calls (clt s) (clt s') \<and> canceller s' = canceller s \<and>
     (\<forall>a. threads s' a = Idle \<longleftrightarrow> threads s a = Idle)"
  using assms(1)
proof cases
  case (refused a proc req un r st)
  from refused(4) core_window_ok [OF assms(3)] have "st = clt s" by (auto elim: call_begin_cases)
  with refused show ?thesis by (simp add: same_calls_def)
next
  case (transmits a msg ch ms fin new ch' st)
  with transmit_same [OF transmits(5)] show ?thesis by simp
next
  case (bound ret r st)
  with bind_end_same [OF bound(3)] show ?thesis by simp
qed (use assms(2) in \<open>simp_all add: same_calls_def\<close>)

lemma quiet_invs:
  assumes "clt_step s e s'" "quiet e" "core_inv (clt s)"
  shows "clt_inv es s \<Longrightarrow> clt_inv (es @ [e]) s'" "answers_inv es s \<Longrightarrow> answers_inv (es @ [e]) s'"
    "cancel_inv s \<Longrightarrow> cancel_inv s'"
proof -
  note q = quiet_step [OF assms]
  from q have same: "same_calls (clt s) (clt s')" by blast
  then have c: "callers (clt s') = callers (clt s)" "calls (clt s') = calls (clt s)"
    "next_xid (clt s') = next_xid (clt s)" "destroy_wait (clt s') = destroy_wait (clt s)"
    by (simp_all add: same_calls_def)
  show "clt_inv es s \<Longrightarrow> clt_inv (es @ [e]) s'"
    using same_calls_core [OF same] q by (auto simp: clt_inv_def c quiet_event(1) [OF assms(2)])
  show "answers_inv es s \<Longrightarrow> answers_inv (es @ [e]) s'"
    by (simp add: answers_inv_def c quiet_event(2) [OF assms(2)])
  show "cancel_inv s \<Longrightarrow> cancel_inv s'" using q by (auto simp: cancel_inv_def c)
qed

lemma cancel_test_same:
  assumes "cancel_test st = (w, st')"
  shows "callers st' = callers st" "calls st' = calls st" "next_xid st' = next_xid st"
    "w \<longleftrightarrow> calls st \<noteq> []" "w \<Longrightarrow> destroy_wait st'"
  using assms by (auto simp: cancel_test_def split: if_split_asm)

lemma clt_step_inv:
  assumes "clt_step s e s'" "clt_inv es s" "length (begun (es @ [e])) < 2 ^ 32 - 1"
  shows "clt_inv (es @ [e]) s'"
proof (cases "quiet e")
  case True
  from assms(2) have "core_inv (clt s)" by (simp add: clt_inv_def)
  then show ?thesis by (rule quiet_invs(1) [OF assms(1) True _ assms(2)])
next
  case False
  from assms(2) have core: "core_inv (clt s)" by (simp add: clt_inv_def)
  from assms(1) show ?thesis
  proof cases
    case (begins a req args proc un msg st now limit fin)
    from assms(2) have x: "next_xid (clt s) = of_nat (Suc (length (begun es)))"
      and idle: "callers (clt s) a = None" using begins(3) by (auto simp: clt_inv_def)
    from begins(5) core_window_ok [OF core] have
      st: "st = (clt s)\<lparr>next_xid := next_xid (clt s) + 1,
           callers := (callers (clt s))(a \<mapsto> caller_new (next_xid (clt s)) un),
           calls := AList.update (next_xid (clt s)) a (calls (clt s))\<rparr>"
      by (auto elim: call_begin_cases)
    have "Suc (length (begun es)) < 2 ^ 32 - 1" using assms(3) begins(1) by simp
    then have "next_xid (clt s) < next_xid (clt s) + 1" unfolding x by (rule succ_no_wrap)
    from begin_core [OF core idle this st] have "core_inv st" .
    moreover have "callers st = (callers (clt s))(a \<mapsto> caller_new (next_xid (clt s)) un)"
      "next_xid st = next_xid (clt s) + 1" by (simp_all add: st)
    ultimately show ?thesis
      using assms(2) begins(1,2) by (auto simp: clt_inv_def)
  next
    case (leaves a ch ca ret un sig st)
    from end_core [OF core leaves(4,5)] show ?thesis
      using assms(2) leaves(1,2) by (auto simp: clt_inv_def)
  next
    case (replies pdu st)
    have "callers st a = None \<longleftrightarrow> callers (clt s) a = None" for a
      by (simp add: got_reply_effect(1) [OF core replies(3)] split: option.split)
    with got_reply_effect(2) [OF core replies(3)] reply_core [OF core replies(4,3)] show ?thesis
      using assms(2) replies(1,2) by (auto simp: clt_inv_def)
  next
    case (cancels w st)
    with cancel_core [OF core cancels(4)] cancel_enter_marks [OF core] show ?thesis
      using assms(2) by (auto simp: clt_inv_def)
  next
    case (cancel_wakes b w st)
    from cancel_test_core [OF core cancel_wakes(4)] cancel_test_same [OF cancel_wakes(4)] show ?thesis
      using assms(2) by (simp add: clt_inv_def cancel_wakes(1,2))
  qed (use False in simp_all)
qed

lemma answers_step:
  assumes "clt_step s e s'" "clt_inv es s" "answers_inv es s"
  shows "answers_inv (es @ [e]) s'"
proof (cases "quiet e")
  case True
  from assms(2) have "core_inv (clt s)" by (simp add: clt_inv_def)
  then show ?thesis by (rule quiet_invs(2) [OF assms(1) True _ assms(3)])
next
  case False
  from assms(2) have core: "core_inv (clt s)" by (simp add: clt_inv_def)
  have old: "verdict_of ca (answer (ca_xid ca) es)" if "callers (clt s) a = Some ca" for a ca
    using assms(3) that by (simp add: answers_inv_def)
  from assms(1) show ?thesis
  proof cases
    case (begins a req args proc un msg st now limit fin)
    from begins(5) core_window_ok [OF core]
    have c: "callers st = (callers (clt s))(a \<mapsto> caller_new (next_xid (clt s)) un)"
      by (auto elim: call_begin_cases)
    have "ca_xid ca \<noteq> next_xid (clt s)" if "callers (clt s) b = Some ca" for b ca
      using core that unfolding core_inv_def window_inv_def by (metis less_irrefl)
    then have "verdict_of ca (answer (ca_xid ca) (es @ [e]))" if "callers st b = Some ca" for b ca
    proof (cases "b = a")
      case True
      with that have "ca = caller_new (next_xid (clt s)) un" by (simp add: c)
      with begins(1) show ?thesis by (simp add: caller_new_def verdict_of_def)
    next
      case False
      with that have "callers (clt s) b = Some ca" by (simp add: c)
      with old [OF this] \<open>\<And>b ca. callers (clt s) b = Some ca \<Longrightarrow> ca_xid ca \<noteq> next_xid (clt s)\<close> [OF this] begins(1)
      show ?thesis by simp
    qed
    then show ?thesis using begins(2) by (simp add: answers_inv_def)
  next
    case (leaves a ch ca ret un sig st)
    have "answer_step x v e = v" for x v by (cases v) (simp_all add: leaves(1))
    with end_core(5) [OF core leaves(4,5)] old show ?thesis
      using leaves(1,2) by (auto simp: answers_inv_def)
  next
    case (replies pdu st)
    have "verdict_of ca (answer (ca_xid ca) (es @ [Reply pdu]))" if ca: "callers st a = Some ca" for a ca
    proof (cases "reply_of pdu")
      case None
      then have "answer_step x v (Reply pdu) = v" for x v by (cases v) simp_all
      with None ca old show ?thesis by (simp add: got_reply_effect(1) [OF core replies(3)])
    next
      case (Some h)
      from core have reg: "registered (clt s)" by (simp add: core_inv_def)
      show ?thesis
      proof (cases "map_of (calls (clt s)) (rp_xid h) = Some a")
        case True
        from registered_entry [OF reg this] obtain cb where
          cb: "callers (clt s) a = Some cb" "ca_xid cb = rp_xid h" by blast
        then have e: "ca = deliver pdu (rp_ret h) cb"
          using ca Some True by (simp add: got_reply_effect(1) [OF core replies(3)])
        from old [OF cb(1)] Some cb(2) show ?thesis
          by (cases "answer (rp_xid h) es") (auto simp: e verdict_of_def deliver_def)
      next
        case False
        then have a: "callers (clt s) a = Some ca"
          using ca Some by (simp add: got_reply_effect(1) [OF core replies(3)])
        with False registered_lookup [OF reg a] have "ca_xid ca \<noteq> rp_xid h" by auto
        with old [OF a] Some show ?thesis by (cases "answer (ca_xid ca) es") simp_all
      qed
    qed
    then show ?thesis using replies(1,2) by (simp add: answers_inv_def)
  next
    case (cancels w st)
    have c: "callers st = (\<lambda>a. map_option cancelled (callers (clt s) a))"
      using cancels(4) cancel_enter_marks [OF core] by auto
    have "verdict_of (cancelled ca) (answer_step (ca_xid ca) v Cancels)" if "verdict_of ca v" for ca v
      using that by (cases v) (auto simp: verdict_of_def split: option.split_asm)
    with old show ?thesis using cancels(1,2) by (auto simp: answers_inv_def c)
  next
    case (cancel_wakes b w st)
    have "answer_step x v e = v" for x v by (cases v) (simp_all add: cancel_wakes(1))
    with cancel_test_same(1) [OF cancel_wakes(4)] old show ?thesis
      by (simp add: answers_inv_def cancel_wakes(1,2))
  qed (use False in simp_all)
qed

lemma cancel_step:
  assumes "clt_step s e s'" "clt_inv es s" "cancel_inv s"
  shows "cancel_inv s'"
proof (cases "quiet e")
  case True
  from assms(2) have "core_inv (clt s)" by (simp add: clt_inv_def)
  then show ?thesis by (rule quiet_invs(3) [OF assms(1) True _ assms(3)])
next
  case False
  from assms(2) have core: "core_inv (clt s)" by (simp add: clt_inv_def)
  from assms(1) show ?thesis
  proof cases
    case (begins a req args proc un msg st now limit fin)
    from begins(5) core_window_ok [OF core] have "\<not> destroy_wait (clt s)" by (auto elim: call_begin_cases)
    with assms(3) begins show ?thesis by (simp add: cancel_inv_def)
  next
    case (leaves a ch ca ret un sig st)
    note e = end_core [OF core leaves(4,5)]
    show ?thesis
    proof (cases "canceller s")
      case (Cancel_waits b)
      with assms(3) have "destroy_wait (clt s)" "\<forall>a ca. callers (clt s) a = Some ca \<longrightarrow> ca_done ca"
        by (simp_all add: cancel_inv_def)
      with Cancel_waits e leaves(2) show ?thesis by (auto simp: cancel_inv_def signal_canceller_def)
    qed (use leaves(2) in \<open>simp_all add: cancel_inv_def signal_canceller_def\<close>)
  next
    case (replies pdu st)
    have "ca_done ca" if "callers st a = Some ca" "\<forall>a ca. callers (clt s) a = Some ca \<longrightarrow> ca_done ca" for a ca
      using that by (auto simp: got_reply_effect(1) [OF core replies(3)] split: option.split_asm if_split_asm)
    with assms(3) got_reply_effect(3,4) [OF core replies(3)] show ?thesis
      using replies(2) by (auto simp: cancel_inv_def)
  next
    case (cancels w st)
    with cancel_enter_marks [OF core] show ?thesis
      by (auto simp: cancel_inv_def cancel_goes_def split: if_split_asm)
  next
    case (cancel_wakes b w st)
    with assms(3) cancel_test_same [OF cancel_wakes(4)] show ?thesis
      by (auto simp: cancel_inv_def cancel_goes_def)
  qed (use False in simp_all)
qed

lemma clt_run_inv:
  assumes "clt_run s0 es s" "s0 = clt_init re random" "length (begun es) < 2 ^ 32 - 1"
  shows "clt_inv es s \<and> answers_inv es s \<and> cancel_inv s"
  using assms
proof (induction rule: clt_run.induct)
  case clt_start
  then show ?case by (simp add: clt_inv_init)
next
  case (clt_next s es s' e s'')
  then have "clt_inv es s'" "answers_inv es s'" "cancel_inv s'" by simp_all
  with clt_next.hyps(2) clt_next.prems show ?case
    using clt_step_inv answers_step cancel_step by blast
qed

lemma xids_distinct: "n < 2 ^ 32 - 1 \<Longrightarrow> distinct (map of_nat [1..<Suc n] :: u32 list)"
proof -
  assume n: "n < 2 ^ 32 - 1"
  have "inj_on (of_nat :: nat \<Rightarrow> u32) {1..<Suc n}"
  proof (rule inj_onI)
    fix i j assume "i \<in> {1..<Suc n}" "j \<in> {1..<Suc n}" "(of_nat i :: u32) = of_nat j"
    then have "i mod 2 ^ 32 = j mod 2 ^ 32" "i < 2 ^ 32" "j < 2 ^ 32"
      using n by (simp_all add: word_unat_eq_iff unat_of_nat)
    then show "i = j" by simp
  qed
  then show ?thesis unfolding distinct_map by (simp only: set_upt distinct_upt simp_thms)
qed

text \<open>What the header of a new request says.\<close>

lemma begun_request:
  assumes "clt_step s (Begun a x msg) s'" "clt_inv es s"
  shows "\<exists>h args. sent msg (enc_req_header h) args \<and> rq_xid h = x \<and> x = next_xid (clt s) \<and>
     rq_clt_nonce h = cl_nonce (clt s) \<and> rq_srv_nonce h = cl_srv_nonce (clt s) \<and>
     rq_xid_rep h = hd (rep_window (clt s)) \<and>
     callers (clt s') = (callers (clt s))(a := callers (clt s') a) \<and> waiting (clt s') a x"
  using assms(1)
proof cases
  case (begins req args proc un st now limit fin)
  from assms(2) have core: "core_inv (clt s)" by (simp add: clt_inv_def)
  let ?h = "\<lparr>rq_xid = next_xid (clt s), rq_proc = proc, rq_clt_nonce = cl_nonce (clt s),
       rq_srv_nonce = cl_srv_nonce (clt s), rq_xid_rep = hd (rep_window (clt s))\<rparr>"
  from begins(5) core_window_ok [OF core] have p: "pack_req_header ?h req = Inr msg"
    and c: "callers st = (callers (clt s))(a \<mapsto> caller_new (next_xid (clt s)) un)"
    by (auto elim: call_begin_cases)
  from pack_req_header_sent [OF begins(4), of ?h] p have "sent msg (enc_req_header ?h) args" by auto
  with begins(1,2) c show ?thesis
    by (intro exI [of _ ?h] exI [of _ args]) (simp add: waiting_def caller_new_def)
qed

section \<open>References to connections\<close>

text \<open>
  The reference count of a connection is the number of its holders: \<open>chan_\<close> and the threads
  whose \<open>ch\<close> it is. A connection that is not dead is \<open>chan_\<close>, and no object is left that
  nobody refers to.
\<close>

definition ref_entry :: "nat \<Rightarrow> bool \<Rightarrow> connection option \<Rightarrow> bool" where
  "ref_entry n own e \<longleftrightarrow>
     (case e of
        None \<Rightarrow> \<not> own \<and> n = 0
      | Some obj \<Rightarrow> cn_refno obj = int n + of_bool own \<and> 0 < cn_refno obj \<and>
          (cn_dead obj \<or> own) \<and> cb_buf (cn_wpdu obj) = None)"

definition refs_ok :: "(nat \<Rightarrow> nat) \<Rightarrow> nat option \<Rightarrow> conn_heap \<Rightarrow> bool" where
  "refs_ok k ch h \<longleftrightarrow> (\<forall>c. ref_entry (k c) (ch = Some c) (h c))"

lemma ref_entry_simps [simp]:
  "ref_entry n own None \<longleftrightarrow> \<not> own \<and> n = 0"
  "ref_entry n own (Some obj) \<longleftrightarrow> cn_refno obj = int n + of_bool own \<and> 0 < cn_refno obj \<and>
     (cn_dead obj \<or> own) \<and> cb_buf (cn_wpdu obj) = None"
  by (simp_all add: ref_entry_def)

lemma refs_okD: "refs_ok k ch h \<Longrightarrow> ref_entry (k c) (ch = Some c) (h c)"
  by (simp add: refs_ok_def)

lemma refs_ok_upd: "refs_ok k ch h \<Longrightarrow> ref_entry n (ch = Some c) e \<Longrightarrow> refs_ok (k(c := n)) ch (h(c := e))"
  by (simp add: refs_ok_def)

lemma refs_ok_upd1: "refs_ok k ch h \<Longrightarrow> ref_entry (k c) (ch = Some c) e \<Longrightarrow> refs_ok k ch (h(c := e))"
  by (simp add: refs_ok_def)

lemma refs_ok_chan:
  assumes "refs_ok k ch h" "ch = Some c \<or> ch = None" "ch' = Some c \<or> ch' = None"
    and "ref_entry (k c) (ch' = Some c) e"
  shows "refs_ok k ch' (h(c := e))"
  unfolding refs_ok_def
proof
  fix d
  from assms(2,3) have "d \<noteq> c \<Longrightarrow> (ch' = Some d) = (ch = Some d)" by auto
  with refs_okD [OF assms(1), of d] assms(4) show "ref_entry (k d) (ch' = Some d) ((h(c := e)) d)"
    by (cases "d = c") simp_all
qed

lemma decref_holder:
  assumes "refs_ok k ch h" "0 < k c"
  shows "\<exists>h'. decref c h = Inr h' \<and> refs_ok (k(c := k c - 1)) ch h'"
proof -
  obtain obj where obj: "h c = Some obj" using refs_okD [OF assms(1), of c] assms(2) by (cases "h c") auto
  from refs_okD [OF assms(1), of c] obj
  have d: "cn_refno obj = int (k c) + of_bool (ch = Some c)" "cn_dead obj \<or> ch = Some c"
    "cb_buf (cn_wpdu obj) = None" by simp_all
  show ?thesis
  proof (cases "cn_refno obj = 1")
    case True
    with d assms(2) have "k c = 1" "ch \<noteq> Some c" "cn_dead obj" by (cases "ch = Some c"; simp)+
    moreover from True this d(3) obj have "decref c h = Inr (h(c := None))" by (simp add: decref_def delete_conn_def)
    ultimately show ?thesis using refs_ok_upd [OF assms(1), of 0 c None] by simp
  next
    case False
    with obj d(1) assms(2) have "decref c h = Inr (h(c \<mapsto> obj\<lparr>cn_refno := cn_refno obj - 1\<rparr>))"
      by (auto simp: decref_def Let_def split: if_split_asm)
    moreover have "ref_entry (k c - 1) (ch = Some c) (Some (obj\<lparr>cn_refno := cn_refno obj - 1\<rparr>))"
      using d False assms(2) by (auto simp: of_nat_diff split: if_split_asm)
    ultimately show ?thesis using refs_ok_upd [OF assms(1)] by blast
  qed
qed

lemma decref_chan:
  assumes "refs_ok k (Some c) h" "h c = Some obj" "cn_dead obj"
  shows "\<exists>h'. decref c h = Inr h' \<and> refs_ok k None h'"
proof -
  from refs_okD [OF assms(1), of c] assms(2)
  have d: "cn_refno obj = int (k c) + 1" "cb_buf (cn_wpdu obj) = None" by simp_all
  show ?thesis
  proof (cases "cn_refno obj = 1")
    case True
    then have "decref c h = Inr (h(c := None))"
      using assms(2,3) d by (simp add: decref_def delete_conn_def)
    moreover have "k c = 0" using True d by simp
    ultimately show ?thesis using refs_ok_chan [OF assms(1), of c None None] by simp
  next
    case False
    then have "decref c h = Inr (h(c \<mapsto> obj\<lparr>cn_refno := cn_refno obj - 1\<rparr>))"
      using assms(2,3) d by (simp add: decref_def Let_def)
    moreover have "ref_entry (k c) False (Some (obj\<lparr>cn_refno := cn_refno obj - 1\<rparr>))"
      using d False assms(3) by simp
    ultimately show ?thesis using refs_ok_chan [OF assms(1), of c None] by simp
  qed
qed

lemma incref_ok:
  assumes "refs_ok k ch h" "h c = Some obj"
  shows "\<exists>h'. incref c h = Inr h' \<and> refs_ok (k(c := k c + 1)) ch h'"
proof -
  have "refs_ok (k(c := k c + 1)) ch (h(c \<mapsto> obj\<lparr>cn_refno := cn_refno obj + 1\<rparr>))"
    using refs_okD [OF assms(1), of c] assms(2) by (intro refs_ok_upd [OF assms(1)]) simp
  with assms(2) show ?thesis by (simp add: incref_def)
qed

lemma new_chan_ok:
  assumes "refs_ok k None h" "h c = None" "cn_refno obj = 1" "cb_buf (cn_wpdu obj) = None"
  shows "refs_ok k (Some c) (h(c \<mapsto> obj))"
  using refs_okD [OF assms(1), of c] assms(2-4) by (intro refs_ok_chan [OF assms(1)]) simp_all

lemma close_ok:
  assumes "refs_ok k ch h" "closeconn c h = Inr (h', removed)"
  shows "refs_ok k ch h'"
proof (cases "h c")
  case (Some obj)
  with refs_okD [OF assms(1), of c] have "refs_ok k ch (h(c \<mapsto> obj\<lparr>cn_dead := True\<rparr>))"
    by (intro refs_ok_upd1 [OF assms(1)]) simp
  with assms Some show ?thesis by (auto simp: closeconn_def split: if_split_asm)
qed (use assms in \<open>simp add: closeconn_def\<close>)

lemma renew_chan_ok:
  assumes "refs_ok k (chan st) (cl_heap st)" "fresh_conn_of new (cl_heap st)"
  shows "\<exists>st'. renew_chan new st = Inr st' \<and> refs_ok k (chan st') (cl_heap st')"
proof -
  have fresh: "cn_refno obj = 1 \<and> cb_buf (cn_wpdu obj) = None \<and> cl_heap st c = None" if "new = Some (c, obj)" for c obj
  proof -
    from assms(2) that have "obj = connection_new (cn_fd obj) (cn_lossy obj) (cn_sec obj, cn_usec obj)"
      "cl_heap st c = None" by (simp_all add: fresh_conn_of_def)
    then show ?thesis by (metis charbuf.select_convs(1) charbuf_empty_def connection.select_convs(3,8) connection_new_def)
  qed
  have old: "\<exists>h. (case chan st of None \<Rightarrow> Inr (cl_heap st) | Some c \<Rightarrow> decref c (cl_heap st)) = Inr h \<and>
      refs_ok k None h \<and> (\<forall>c. cl_heap st c = None \<longrightarrow> h c = None)"
    if "(case chan st of None \<Rightarrow> Inr True | Some c \<Rightarrow> isdead c (cl_heap st)) = Inr True"
  proof (cases "chan st")
    case None
    with assms(1) show ?thesis by simp
  next
    case (Some c)
    with that obtain obj where obj: "cl_heap st c = Some obj" "cn_dead obj"
      by (auto simp: isdead_def split: option.split_asm)
    with decref_chan [where h = "cl_heap st" and c = c and obj = obj and k = k] assms(1) Some obtain h
      where h: "decref c (cl_heap st) = Inr h" "refs_ok k None h" by auto
    have "h e = None" if "cl_heap st e = None" for e
      using h(1) obj that by (auto simp: decref_def delete_conn_def Let_def split: if_split_asm)
    with h Some show ?thesis by simp
  qed
  obtain renew where renew: "(case chan st of None \<Rightarrow> Inr True | Some c \<Rightarrow> isdead c (cl_heap st)) = Inr renew"
    
  proof (cases "chan st")
    case (Some c)
    with refs_okD [OF assms(1), of c] obtain obj where "cl_heap st c = Some obj" by (cases "cl_heap st c") auto
    with that Some show thesis by (simp add: isdead_def)
  qed (use that in simp)
  show ?thesis
  proof (cases renew)
    case False
    with renew assms(1) show ?thesis by (simp add: renew_chan_def)
  next
    case True
    with renew old obtain h where h: "(case chan st of None \<Rightarrow> Inr (cl_heap st) | Some c \<Rightarrow> decref c (cl_heap st)) = Inr h"
      "refs_ok k None h" "\<forall>c. cl_heap st c = None \<longrightarrow> h c = None" by auto
    show ?thesis
    proof (cases new)
      case None
      with renew True h show ?thesis by (simp add: renew_chan_def)
    next
      case (Some n)
      obtain c obj where n: "n = (c, obj)" by (cases n)
      from new_chan_ok [OF h(2)] fresh Some n h(3) have "refs_ok k (Some c) (h(c \<mapsto> obj))" by simp
      with renew True h(1) Some n show ?thesis by (simp add: renew_chan_def)
    qed
  qed
qed

definition gives_back :: "nat option \<Rightarrow> (nat \<Rightarrow> nat) \<Rightarrow> nat \<Rightarrow> nat" where
  "gives_back ch k = (case ch of None \<Rightarrow> k | Some c \<Rightarrow> k(c := k c - 1))"

definition takes :: "nat option \<Rightarrow> (nat \<Rightarrow> nat) \<Rightarrow> nat \<Rightarrow> nat" where
  "takes ch k = (case ch of None \<Rightarrow> k | Some c \<Rightarrow> k(c := k c + 1))"

lemma release_ok:
  assumes "refs_ok k ch h" "\<forall>c. d = Some c \<longrightarrow> 0 < k c"
  shows "\<exists>h'. (case d of None \<Rightarrow> Inr h | Some c \<Rightarrow> decref c h) = Inr h' \<and> refs_ok (gives_back d k) ch h'"
  using decref_holder [OF assms(1)] assms by (cases d) (auto simp: gives_back_def)

lemma get_refconn_ok:
  assumes "refs_ok k (chan st) (cl_heap st)" "\<forall>c. ch = Some c \<longrightarrow> 0 < k c" "fresh_conn_of new (cl_heap st)"
  shows "\<exists>ch' st'. get_refconn new ch st = Inr (ch', st') \<and>
     refs_ok (takes ch' (gives_back ch k)) (chan st') (cl_heap st')"
proof -
  from renew_chan_ok [OF assms(1,3)] obtain s1 where s1: "renew_chan new st = Inr s1"
    "refs_ok k (chan s1) (cl_heap s1)" by blast
  show ?thesis
  proof (cases "chan s1")
    case None
    have "takes ch (gives_back ch k) = k" using assms(2) by (cases ch) (auto simp: takes_def gives_back_def)
    with s1 None show ?thesis by (simp add: get_refconn_def)
  next
    case (Some c)
    from release_ok [OF s1(2) assms(2)] obtain h
      where h: "(case ch of None \<Rightarrow> Inr (cl_heap s1) | Some d \<Rightarrow> decref d (cl_heap s1)) = Inr h"
        "refs_ok (gives_back ch k) (chan s1) h" by blast
    from refs_okD [OF h(2), of c] Some obtain obj where "h c = Some obj" by (cases "h c") auto
    from incref_ok [OF h(2) this] obtain h' where "incref c h = Inr h'"
      "refs_ok (takes (Some c) (gives_back ch k)) (chan s1) h'" by (auto simp: takes_def)
    with s1(1) h(1) Some show ?thesis by (simp add: get_refconn_def)
  qed
qed

text \<open>The holders among the threads, counted.\<close>

fun holds :: "call_phase \<Rightarrow> nat option" where
  "holds Idle = None"
| "holds (Top msg ch tr ms fin) = ch"
| "holds (Waits msg ch ms d fin) = ch"
| "holds (Leaves ch) = ch"

definition holders :: "(nat \<Rightarrow> call_phase) \<Rightarrow> nat \<Rightarrow> nat" where
  "holders t c = card {a. holds (t a) = Some c}"

definition active :: "(nat \<Rightarrow> call_phase) \<Rightarrow> nat set" where
  "active t = {a. t a \<noteq> Idle}"

definition refs_inv :: "clt_sys \<Rightarrow> bool" where
  "refs_inv s \<longleftrightarrow> finite (active (threads s)) \<and>
     refs_ok (holders (threads s)) (chan (clt s)) (cl_heap (clt s))"

lemma finite_holders: "finite (active t) \<Longrightarrow> finite {a. holds (t a) = Some c}"
  by (erule rev_finite_subset) (auto simp: active_def)

lemma finite_update: "finite (active t) \<Longrightarrow> finite (active (t(a := p)))"
  by (rule finite_subset [of _ "insert a (active t)"]) (auto simp: active_def)

lemma holders_pos:
  assumes "finite (active t)" "holds (t a) = Some c"
  shows "0 < holders t c"
  using finite_holders [OF assms(1), of c] assms(2) by (auto simp: holders_def card_gt_0_iff)

lemma holders_moves:
  assumes "finite (active t)"
  shows "holders (t(a := p)) = takes (holds p) (gives_back (holds (t a)) (holders t))"
proof
  fix c
  let ?A = "{b. b \<noteq> a \<and> holds (t b) = Some c}"
  have fin: "finite ?A" by (rule finite_subset [OF _ finite_holders [OF assms, of c]]) auto
  have old: "holders t c = card ?A + of_bool (holds (t a) = Some c)"
  proof (cases "holds (t a) = Some c")
    case True
    then have "{b. holds (t b) = Some c} = insert a ?A" by auto
    with fin True show ?thesis by (simp add: holders_def)
  next
    case False
    then have "{b. holds (t b) = Some c} = ?A" by auto
    with False show ?thesis by (simp add: holders_def)
  qed
  have new: "holders (t(a := p)) c = card ?A + of_bool (holds p = Some c)"
  proof (cases "holds p = Some c")
    case True
    then have "{b. holds ((t(a := p)) b) = Some c} = insert a ?A" by auto
    with fin True show ?thesis by (simp add: holders_def)
  next
    case False
    then have "{b. holds ((t(a := p)) b) = Some c} = ?A" by auto
    with False show ?thesis by (simp add: holders_def)
  qed
  show "holders (t(a := p)) c = takes (holds p) (gives_back (holds (t a)) (holders t)) c"
    unfolding new using old by (cases "holds p"; cases "holds (t a)") (auto simp: takes_def gives_back_def)
qed

lemma holders_same:
  assumes "finite (active t)" "holds p = holds (t a)"
  shows "holders (t(a := p)) = holders t"
proof -
  have "holds ((t(a := p)) b) = holds (t b)" for b using assms(2) by simp
  then show ?thesis unfolding holders_def by presburger
qed

lemma refs_inv_holder: "refs_inv s \<Longrightarrow> holds (threads s a) = Some c \<Longrightarrow> 0 < holders (threads s) c"
  unfolding refs_inv_def by (blast intro: holders_pos)

lemma refs_inv_init: "refs_inv (clt_init re random)"
  by (simp add: refs_inv_def clt_init_def rpcc_new_def holders_def refs_ok_def active_def)

lemma refs_inv_phase:
  assumes "refs_inv s" "holds p = holds (threads s a)" "chan st = chan (clt s)" "cl_heap st = cl_heap (clt s)"
  shows "refs_inv (s\<lparr>clt := st, threads := (threads s)(a := p), canceller := q\<rparr>)"
  using assms by (simp add: refs_inv_def finite_update holders_same)

text \<open>Sending and leaving never go wrong, and keep the counts.\<close>

lemma transmit_refs:
  assumes "refs_inv s" "threads s a = Top msg ch tr ms fin" "fresh_conn_of new (cl_heap (clt s))"
  shows "\<exists>ch' st. transmit new ch req (clt s) = Inr (ch', st) \<and>
     refs_inv (s\<lparr>clt := st, threads := (threads s)(a := Top msg' ch' tr' ms' fin')\<rparr>)"
proof -
  from assms(1) have fin: "finite (active (threads s))"
    and refs: "refs_ok (holders (threads s)) (chan (clt s)) (cl_heap (clt s))" by (simp_all add: refs_inv_def)
  have "\<forall>c. ch = Some c \<longrightarrow> 0 < holders (threads s) c"
    using refs_inv_holder [OF assms(1), of a] assms(2) by simp
  from get_refconn_ok [OF refs this assms(3)] obtain ch' s1 where
    g: "get_refconn new ch (clt s) = Inr (ch', s1)"
    and r: "refs_ok (takes ch' (gives_back ch (holders (threads s)))) (chan s1) (cl_heap s1)" by blast
  let ?st = "case ch' of None \<Rightarrow> s1
    | Some c \<Rightarrow> if reachable s1 then s1\<lparr>cl_sends := cl_sends s1 @ [(c, written req)]\<rparr> else s1"
  have "chan ?st = chan s1" "cl_heap ?st = cl_heap s1" by (simp_all split: option.split)
  with g r fin assms(2) show ?thesis
    by (simp add: transmit_def refs_inv_def finite_update holders_moves)
qed

lemma call_end_refs:
  assumes "refs_inv s" "threads s a = Leaves ch" "core_inv (clt s)" "callers (clt s) a = Some ca"
  shows "\<exists>ret un sig st. call_end a ch (clt s) = Inr (ret, un, sig, st) \<and>
     refs_inv (s\<lparr>clt := st, threads := (threads s)(a := Idle), canceller := q\<rparr>)"
proof -
  from assms(1) have fin: "finite (active (threads s))"
    and refs: "refs_ok (holders (threads s)) (chan (clt s)) (cl_heap (clt s))" by (simp_all add: refs_inv_def)
  have "\<forall>c. ch = Some c \<longrightarrow> 0 < holders (threads s) c"
    using refs_inv_holder [OF assms(1), of a] assms(2) by simp
  from release_ok [OF refs this] obtain h where
    h: "(case ch of None \<Rightarrow> Inr (cl_heap (clt s)) | Some c \<Rightarrow> decref c (cl_heap (clt s))) = Inr h"
      "refs_ok (gives_back ch (holders (threads s))) (chan (clt s)) h" by blast
  from update_xid_rep_ok [OF core_window_ok [OF assms(3)], of "ca_xid ca"] obtain w
    where "update_xid_rep (ca_xid ca) (rep_window (clt s)) = Inr w" by blast
  with h fin assms(2,4) show ?thesis
    by (simp add: call_end_def refs_inv_def finite_update holders_moves takes_def)
qed

lemma refs_step:
  assumes "clt_step s e s'" "clt_inv es s" "refs_inv s"
  shows "refs_inv s'"
proof -
  from assms(2) have core: "core_inv (clt s)" by (simp add: clt_inv_def)
  have upd: "refs_inv (s\<lparr>clt := st, canceller := q\<rparr>)" "refs_inv (s\<lparr>clt := st\<rparr>)"
    if "chan st = chan (clt s)" "cl_heap st = cl_heap (clt s)" for st q
    using assms(3) that by (simp_all add: refs_inv_def)
  have phase: "refs_inv (s\<lparr>threads := (threads s)(a := p)\<rparr>)" if "holds p = holds (threads s a)" for a p
    using assms(3) that by (simp add: refs_inv_def finite_update holders_same)
  from assms(1) show ?thesis
  proof cases
    case (refused a proc req un r st)
    from refused(4) core_window_ok [OF core] have "st = clt s" by (auto elim: call_begin_cases)
    with refused(2) assms(3) show ?thesis by simp
  next
    case (begins a req args proc un msg st now limit fin)
    from begins(5) core_window_ok [OF core] have "chan st = chan (clt s)" "cl_heap st = cl_heap (clt s)"
      by (auto elim!: call_begin_cases)
    with assms(3) begins(2,3) show ?thesis by (simp add: refs_inv_def finite_update holders_same)
  next
    case (transmits a msg ch ms fin new ch' st)
    from transmit_refs [OF assms(3) transmits(3,4), of msg] transmits(2,5) show ?thesis by auto
  next
    case (leaves a ch ca ret un sig st)
    from call_end_refs [OF assms(3) leaves(3) core leaves(4)] leaves(2,5) show ?thesis by auto
  next
    case (replies pdu st)
    with got_reply_effect(5,6) [OF core replies(3)] upd show ?thesis by simp
  next
    case (bound ret r st)
    then have "chan st = chan (clt s)" "cl_heap st = cl_heap (clt s)"
      by (auto simp: bind_end_def split: if_split_asm)
    with bound upd show ?thesis by simp
  next
    case (cancels w st)
    with cancel_enter_marks [OF core] upd show ?thesis by auto
  next
    case (cancel_wakes b w st)
    then have "chan st = chan (clt s)" "cl_heap st = cl_heap (clt s)"
      by (auto simp: cancel_test_def split: if_split_asm)
    with cancel_wakes upd show ?thesis by simp
  next
    case (dies c h removed)
    with close_ok [OF _ dies(3)] assms(3) show ?thesis by (simp add: refs_inv_def)
  qed (use phase in simp_all)
qed

section \<open>Runs\<close>

definition client_inv :: "clt_event list \<Rightarrow> clt_sys \<Rightarrow> bool" where
  "client_inv es s \<longleftrightarrow> clt_inv es s \<and> answers_inv es s \<and> cancel_inv s \<and> refs_inv s"

lemma client_step:
  "clt_step s e s' \<Longrightarrow> client_inv es s \<Longrightarrow> length (begun (es @ [e])) < 2 ^ 32 - 1 \<Longrightarrow>
     client_inv (es @ [e]) s'"
  unfolding client_inv_def using clt_step_inv answers_step cancel_step refs_step by blast

lemma client_run:
  "clt_run s0 fs s \<Longrightarrow> client_inv es s0 \<Longrightarrow> length (begun (es @ fs)) < 2 ^ 32 - 1 \<Longrightarrow>
     client_inv (es @ fs) s"
proof (induction rule: clt_run.induct)
  case (clt_next s fs s' e s'')
  then have "client_inv (es @ fs) s'" by simp
  with client_step [OF clt_next.hyps(2)] clt_next.prems(2) show ?case by (metis append_assoc)
qed simp

lemma client_init: "client_inv [] (clt_init re random)"
  by (simp add: client_inv_def clt_inv_init refs_inv_init)

lemma client_reachable:
  "clt_run (clt_init re random) es s \<Longrightarrow> length (begun es) < 2 ^ 32 - 1 \<Longrightarrow> client_inv es s"
  using client_run [OF _ client_init, of re random es s] by simp

section \<open>Cancelling\<close>

text \<open>How far a thread is from leaving once its answer is there.\<close>

fun phase_rank :: "call_phase \<Rightarrow> nat" where
  "phase_rank Idle = 0"
| "phase_rank (Top msg ch tr ms fin) = (if tr then 4 else 3)"
| "phase_rank (Waits msg ch ms d fin) = 2"
| "phase_rank (Leaves ch) = 1"

definition rank :: "(nat \<Rightarrow> call_phase) \<Rightarrow> nat" where
  "rank t = (\<Sum>a\<in>active t. phase_rank (t a))"

lemma rank_less:
  assumes "finite (active t)" "phase_rank p < phase_rank (t a)"
  shows "rank (t(a := p)) < rank t"
proof -
  let ?t = "t(a := p)"
  have a: "a \<in> active t" using assms(2) by (auto simp: active_def)
  have "rank ?t = (\<Sum>b\<in>active t. phase_rank (?t b))"
    unfolding rank_def using a by (intro sum.mono_neutral_left assms(1)) (auto simp: active_def)
  also have "\<dots> < (\<Sum>b\<in>active t. phase_rank (t b))"
    using a assms by (intro sum_strict_mono_ex1) auto
  finally show ?thesis by (simp add: rank_def)
qed

lemma no_threads:
  assumes "client_inv es s" "rank (threads s) = 0"
  shows "calls (clt s) = []"
proof (rule ccontr)
  from assms(1) have fin: "finite (active (threads s))" and core: "core_inv (clt s)"
    and idle: "\<forall>a. threads s a = Idle \<longleftrightarrow> callers (clt s) a = None"
    by (simp_all add: client_inv_def refs_inv_def clt_inv_def)
  assume "calls (clt s) \<noteq> []"
  then obtain x a where "(x, a) \<in> set (calls (clt s))" by (cases "calls (clt s)") auto
  moreover from core have reg: "registered (clt s)" by (simp add: core_inv_def)
  ultimately have "map_of (calls (clt s)) x = Some a" by (simp add: registered_def)
  from registered_entry [OF reg this] idle have "threads s a \<noteq> Idle" by auto
  then have "a \<in> active (threads s)" "0 < phase_rank (threads s a)"
    by (auto simp: active_def intro: phase_rank.elims [of "threads s a"])
  with fin assms(2) show False by (auto simp: rank_def)
qed

lemma deadline_exists: "\<exists>now d. next_deadline now ms fin = Inr d"
proof -
  have "- 1000 < ms smod 1000" using smod_int_range [of 1000 ms] by simp
  then have "0 \<le> 999999999 + ms smod 1000 * 1000000" by simp
  then have "\<exists>r. add_timespec \<lparr>ts_sec = 0, ts_nsec = 999999999\<rparr> ms = Inr r"
    by (simp add: add_timespec_def Let_def)
  then obtain r where "add_timespec \<lparr>ts_sec = 0, ts_nsec = 999999999\<rparr> ms = Inr r" by blast
  then have "next_deadline \<lparr>ts_sec = 0, ts_nsec = 999999999\<rparr> ms fin =
      Inr (if cmp_timespec r fin > 0 then (fin, fin\<lparr>ts_sec := 0\<rparr>) else (r, fin))"
    by (simp add: next_deadline_def)
  then show ?thesis by blast
qed

text \<open>While the canceller waits, every thread can go on towards the end of its call.\<close>

lemma drain_step:
  assumes "client_inv es s" "canceller s = Cancel_waits b" "threads s a \<noteq> Idle"
  shows "\<exists>e s'. clt_step s e s' \<and> given_out e = [] \<and> rank (threads s') < rank (threads s) \<and>
     (\<exists>b. canceller s' = Cancel_waits b)"
proof -
  from assms(1) have core: "core_inv (clt s)" and refs: "refs_inv s" and fin: "finite (active (threads s))"
    by (simp_all add: client_inv_def clt_inv_def refs_inv_def)
  from assms obtain ca where ca: "callers (clt s) a = Some ca" "ca_done ca"
    by (auto simp: client_inv_def clt_inv_def cancel_inv_def)
  show ?thesis
  proof (cases "threads s a")
    case Idle
    with assms(3) show ?thesis by simp
  next
    case (Top msg ch tr ms fin')
    show ?thesis
    proof (cases tr)
      case True
      have "fresh_conn_of None (cl_heap (clt s))" by (simp add: fresh_conn_of_def)
      from transmit_refs [OF refs Top this] obtain ch' st
        where "transmit None ch msg (clt s) = Inr (ch', st)" by blast
      with Top True have "clt_step s (Local a) (s\<lparr>clt := st, threads := (threads s)(a := Top msg ch' False ms fin')\<rparr>)"
        by (intro clt_step.transmits [where new = None]) (simp_all add: fresh_conn_of_def)
      moreover have "rank ((threads s)(a := Top msg ch' False ms fin')) < rank (threads s)"
        using Top True by (intro rank_less fin) simp
      ultimately show ?thesis using assms(2) by (intro exI conjI) (assumption | simp)+
    next
      case False
      show ?thesis
      proof (cases "ts_sec fin' = 0")
        case True
        with Top False have "clt_step s (Local a) (s\<lparr>threads := (threads s)(a := Leaves ch)\<rparr>)"
          by (intro clt_step.gives_up) simp_all
        moreover have "rank ((threads s)(a := Leaves ch)) < rank (threads s)"
          using Top by (intro rank_less fin) simp
        ultimately show ?thesis using assms(2) by (intro exI conjI) (assumption | simp)+
      next
        case sec: False
        from deadline_exists [of ms fin'] obtain now d fin2 where "next_deadline now ms fin' = Inr (d, fin2)" by auto
        with sec Top False have "clt_step s (Local a) (s\<lparr>threads := (threads s)(a := Waits msg ch ms d fin2)\<rparr>)"
          by (intro clt_step.plans) simp_all
        moreover have "rank ((threads s)(a := Waits msg ch ms d fin2)) < rank (threads s)"
          using Top False by (intro rank_less fin) simp
        ultimately show ?thesis using assms(2) by (intro exI conjI) (assumption | simp)+
      qed
    qed
  next
    case (Waits msg ch ms d fin')
    from clt_step.answered [OF this ca]
    have "clt_step s (Local a) (s\<lparr>threads := (threads s)(a := Leaves ch)\<rparr>)" .
    moreover have "rank ((threads s)(a := Leaves ch)) < rank (threads s)"
      using Waits by (intro rank_less fin) simp
    ultimately show ?thesis using assms(2) by (intro exI conjI) (assumption | simp)+
  next
    case (Leaves ch)
    from call_end_refs [OF refs Leaves core ca(1), of "canceller s"] obtain ret un sig st
      where "call_end a ch (clt s) = Inr (ret, un, sig, st)" by blast
    from clt_step.leaves [OF Leaves ca(1) this]
    have "clt_step s (Returned a (ca_xid ca) ret un) (s\<lparr>clt := st, threads := (threads s)(a := Idle),
      canceller := signal_canceller sig (canceller s)\<rparr>)" .
    moreover have "rank ((threads s)(a := Idle)) < rank (threads s)"
      using Leaves by (intro rank_less fin) simp
    ultimately show ?thesis using assms(2) by (intro exI conjI) (assumption | simp add: signal_canceller_def)+
  qed
qed

lemma clt_run_append: "clt_run s' fs s'' \<Longrightarrow> clt_run s es s' \<Longrightarrow> clt_run s (es @ fs) s''"
proof (induction rule: clt_run.induct)
  case (clt_next s' fs t e u)
  then show ?case using clt_run.clt_next [of s "es @ fs" t e u] by simp
qed simp

lemma clt_run_Cons:
  assumes "clt_step s e s'" "clt_run s' fs s''"
  shows "clt_run s (e # fs) s''"
proof -
  have "clt_run s [e] s'" using clt_run.clt_next [OF clt_run.clt_start assms(1)] by simp
  from clt_run_append [OF assms(2) this] show ?thesis by simp
qed

lemma drain:
  assumes "client_inv es s" "canceller s = Cancel_waits b" "length (begun es) < 2 ^ 32 - 1"
  shows "\<exists>fs s'. clt_run s fs s' \<and> begun fs = [] \<and> canceller s' = Cancel_done \<and> calls (clt s') = []"
  using assms
proof (induction "rank (threads s)" arbitrary: es s b rule: less_induct)
  case less
  show ?case
  proof (cases "calls (clt s) = []")
    case True
    then have "cancel_test (clt s) = (False, clt s)" by (simp add: cancel_test_def)
    from clt_step.cancel_wakes [OF less.prems(2) this]
    have "clt_run s [Cancel_wakes] (s\<lparr>clt := clt s, canceller := Cancel_done\<rparr>)"
      by (auto intro: clt_run_Cons clt_run.clt_start simp: cancel_goes_def)
    with True show ?thesis by (intro exI conjI) (assumption | simp)+
  next
    case False
    with no_threads [OF less.prems(1)] have "rank (threads s) \<noteq> 0" by blast
    then have "active (threads s) \<noteq> {}" unfolding rank_def by (metis sum.empty)
    then obtain a where "threads s a \<noteq> Idle" by (auto simp: active_def)
    from drain_step [OF less.prems(1,2) this] obtain e s' b' where
      e: "clt_step s e s'" "given_out e = []" "rank (threads s') < rank (threads s)"
      "canceller s' = Cancel_waits b'" by blast
    from client_step [OF e(1) less.prems(1)] less.prems(3) e(2) have "client_inv (es @ [e]) s'" by simp
    from less.hyps [OF e(3) this e(4)] less.prems(3) e(2) obtain fs s'' where
      "clt_run s' fs s''" "begun fs = []" "canceller s'' = Cancel_done" "calls (clt s'') = []" by auto
    with clt_run_Cons [OF e(1)] e(2) show ?thesis
      by (intro exI [of _ "e # fs"] exI [of _ s'']) (simp add: begun_def)
  qed
qed

section \<open>Rounds\<close>

text \<open>
  The rounds of \<open>call1\<close> when no reply comes, with the readings of the clock at the start of
  each: the number of rounds until the loop is left, or \<^term>\<open>None\<close> when the readings run out.
  \<open>waits_out\<close> says that a wait that timed out lasted until its deadline.
\<close>

primrec silent_rounds :: "timespec list \<Rightarrow> int \<Rightarrow> timespec \<Rightarrow> nat option outcome" where
  "silent_rounds [] ms fin = Inr (if ts_sec fin = 0 then Some 0 else None)"
| "silent_rounds (now # nows) ms fin =
     (if ts_sec fin = 0 then Inr (Some 0)
      else
        andthen (next_deadline now ms fin) (\<lambda>(d, fin).
        andthen (double_to ms) (\<lambda>ms.
        andthen (silent_rounds nows ms fin) (\<lambda>n. Inr (map_option Suc n)))))"

primrec waits_out :: "timespec list \<Rightarrow> int \<Rightarrow> timespec \<Rightarrow> bool" where
  "waits_out [] ms fin = True"
| "waits_out (now # nows) ms fin =
     (case next_deadline now ms fin of
        Inr (d, fin) \<Rightarrow> (case nows of [] \<Rightarrow> True | n # ns \<Rightarrow> nanos d \<le> nanos n) \<and> waits_out nows (2 * ms) fin
      | Inl e \<Rightarrow> True)"

lemma cmp_later:
  assumes "nanos b < nanos a" "ts_nsec a \<le> 1000000000" "0 \<le> ts_nsec b"
  shows "0 < cmp_timespec a b"
  using assms by (auto simp: cmp_timespec_def nanos_def)

lemma rounds_bounded:
  assumes "Suc i \<le> length nows" "\<forall>now \<in> set nows. valid_ts now" "waits_out nows ms fin"
    and "ts_sec fin \<noteq> 0" "0 \<le> ts_nsec fin" "0 < ms" "ms * 2 ^ Suc i \<le> 2097152000"
    and "nanos fin - nanos (hd nows) < (2 ^ Suc i - 1) * ms * 1000000"
  shows "\<exists>n \<le> Suc i. silent_rounds nows ms fin = Inr (Some n)"
  using assms
proof (induction i arbitrary: nows ms)
  case 0
  then obtain now ns where nows: "nows = now # ns" by (cases nows) auto
  with 0 add_timespec_sum [of now ms] obtain d where
    d: "add_timespec now ms = Inr d" "nanos d = nanos now + ms * 1000000" "0 \<le> ts_nsec d" "ts_nsec d \<le> 1000000000" by auto
  with 0 nows have "nanos fin < nanos d" by simp
  from cmp_later [OF this] d 0 have "next_deadline now ms fin = Inr (fin, fin\<lparr>ts_sec := 0\<rparr>)"
    by (simp add: next_deadline_def)
  moreover have "double_to ms = Inr (2 * ms)" using 0 by (simp add: double_to_def int_max_def)
  moreover have "silent_rounds ns (2 * ms) (fin\<lparr>ts_sec := 0\<rparr>) = Inr (Some 0)" by (cases ns) simp_all
  ultimately show ?case using 0 nows by simp
next
  case (Suc i)
  then obtain now ns where nows: "nows = now # ns" by (cases nows) auto
  with Suc.prems add_timespec_sum [of now ms] obtain d where
    d: "add_timespec now ms = Inr d" "nanos d = nanos now + ms * 1000000" "0 \<le> ts_nsec d" "ts_nsec d \<le> 1000000000" by auto
  have "(2 :: int) ^ Suc i \<ge> 1" by (rule one_le_power) simp
  then have "ms * 2 \<le> ms * 2 ^ Suc (Suc i)" using Suc.prems(6) by (intro mult_left_mono) simp_all
  then have dbl: "double_to ms = Inr (2 * ms)" using Suc.prems(7) by (simp add: double_to_def int_max_def)
  show ?case
  proof (cases "cmp_timespec d fin > 0")
    case True
    then have "next_deadline now ms fin = Inr (fin, fin\<lparr>ts_sec := 0\<rparr>)"
      using d by (simp add: next_deadline_def)
    moreover have "silent_rounds ns (2 * ms) (fin\<lparr>ts_sec := 0\<rparr>) = Inr (Some 0)" by (cases ns) simp_all
    ultimately show ?thesis using Suc.prems nows dbl by simp
  next
    case False
    then have nd: "next_deadline now ms fin = Inr (d, fin)" using d by (simp add: next_deadline_def)
    obtain n2 ns2 where ns: "ns = n2 # ns2" using Suc.prems(1) nows by (cases ns) auto
    have "nanos d \<le> nanos n2" and wo: "waits_out ns (2 * ms) fin" using Suc.prems(3) nows nd ns by simp_all
    then have "nanos fin - nanos (hd ns) \<le> nanos fin - nanos now - ms * 1000000" using d ns by simp
    also have "\<dots> < (2 ^ Suc (Suc i) - 1) * ms * 1000000 - ms * 1000000" using Suc.prems(8) nows by simp
    also have "\<dots> = (2 ^ Suc i - 1) * (2 * ms) * 1000000" by (simp add: algebra_simps)
    finally have "nanos fin - nanos (hd ns) < (2 ^ Suc i - 1) * (2 * ms) * 1000000" .
    with Suc.IH [of ns "2 * ms"] Suc.prems nows wo obtain n where
      "n \<le> Suc i" "silent_rounds ns (2 * ms) fin = Inr (Some n)" by (auto simp: algebra_simps)
    then show ?thesis using Suc.prems nows dbl nd by auto
  qed
qed

section \<open>Properties\<close>

text \<open>
  C20: a new request acknowledges no call that still waits. In every history of a client in
  which fewer than \<open>2^32 - 2\<close> calls were begun, the request of the next call carries a number that was never used,
  and the \<open>xid_rep\<close> in its header is smaller than the number of every call that has no
  reply, itself included: the server, which forgets replies up to \<open>xid_rep\<close>, keeps those that
  are needed.
\<close>

theorem new_request_keeps_waiting_calls:
  assumes "clt_run (clt_init re random) es s" "clt_step s (Begun a x msg) s'"
    and "length (begun es) < 2 ^ 32 - 2"
  shows "\<exists>h args. sent msg (enc_req_header h) args \<and> rq_xid h = x \<and> x \<notin> set (begun es) \<and>
     waiting (clt s') a x \<and> (\<forall>b y. waiting (clt s') b y \<longrightarrow> rq_xid_rep h < y)"
proof -
  have n: "length (begun (es @ [Begun a x msg])) < 2 ^ 32 - 1" using assms(3) by simp
  have inv: "client_inv es s" using client_reachable [OF assms(1)] assms(3) by simp
  then have clt: "clt_inv es s" and win: "window_inv (clt s)"
    by (simp_all add: client_inv_def clt_inv_def core_inv_def)
  from begun_request [OF assms(2) clt] obtain h args where
    h: "sent msg (enc_req_header h) args" "rq_xid h = x" "x = next_xid (clt s)"
      "rq_xid_rep h = hd (rep_window (clt s))" "waiting (clt s') a x"
    and c: "callers (clt s') = (callers (clt s))(a := callers (clt s') a)" by blast
  from client_step [OF assms(2) inv n] have "begun es @ [x] = map of_nat [1..<Suc (length (begun es @ [x]))]"
    by (simp add: client_inv_def clt_inv_def)
  with xids_distinct n have "distinct (begun es @ [x])" by fastforce
  then have new: "x \<notin> set (begun es)" by simp
  have hd: "hd (rep_window (clt s)) \<in> acked (rep_window (clt s))" by (simp add: acked_def)
  have "rq_xid_rep h < y" if "waiting (clt s') b y" for b y
  proof (cases "b = a")
    case True
    with that h(5) have "y = x" by (auto simp: waiting_def)
    with h(3,4) win hd show ?thesis by (simp add: window_inv_def)
  next
    case False
    with that c have "waiting (clt s) b y" unfolding waiting_def by (metis fun_upd_other)
    with win have "y \<notin> acked (rep_window (clt s))" by (simp add: window_inv_def)
    then show ?thesis using h(4) by (simp add: acked_def not_le)
  qed
  with h new show ?thesis by blast
qed

lemma returned_answer:
  assumes "clt_run (clt_init re random) es s" "clt_step s (Returned a x ret un) s'"
    and "length (begun es) < 2 ^ 32 - 1"
  shows "case answer x es of
       Unanswered \<Rightarrow> ret = timeout_failure
     | Answered r p \<Rightarrow> ret = r \<and> (case p of None \<Rightarrow> True | Some pdu \<Rightarrow> un = reply_un pdu)"
proof -
  from client_reachable [OF assms(1,3)] have core: "core_inv (clt s)" and ans: "answers_inv es s"
    by (simp_all add: client_inv_def clt_inv_def)
  from assms(2) show ?thesis
  proof cases
    case (leaves ch ca sig st)
    from ans leaves(4) have "verdict_of ca (answer x es)" using leaves(1) by (auto simp: answers_inv_def)
    with end_core(2,3) [OF core leaves(4,5)] show ?thesis
      by (auto simp: verdict_of_def split: verdict.split_asm)
  qed
qed

text \<open>
  C8: a call returns its answer. Whatever threads call, time out, retransmit and cancel, and
  whatever replies arrive, late, duplicated and for other calls, the result of \<open>call1\<close> is
  the one its history prescribes: the code and the bytes of the first reply with its number
  since it began, \<open>cancel_failure\<close> if the client was cancelled since then, and
  \<open>timeout_failure\<close> only if there was neither.
\<close>

theorem call_returns_its_answer:
  assumes "clt_run (clt_init re random) es s" "clt_step s (Returned a x ret un) s'"
    and "length (begun es) < 2 ^ 32 - 1"
  shows "case answer x es of
       Unanswered \<Rightarrow> ret = timeout_failure
     | Answered r p \<Rightarrow> ret = r \<and> (case p of None \<Rightarrow> True | Some pdu \<Rightarrow> un = reply_un pdu)"
  by (rule returned_answer [OF assms])

text \<open>
  C29: \<open>cancel\<close> comes to its end. While it waits, no call can begin, every call that is left
  has its answer, and if none is left the canceller was signalled; and from there the threads
  can always run so that all calls return and \<open>cancel\<close> after them.
\<close>

theorem cancel_drains:
  assumes "clt_run (clt_init re random) es s" "length (begun es) < 2 ^ 32 - 1"
    and "canceller s = Cancel_waits b"
  shows "(\<forall>a x msg s'. \<not> clt_step s (Begun a x msg) s') \<and> (\<forall>a x. \<not> waiting (clt s) a x) \<and>
     (calls (clt s) = [] \<longrightarrow> b) \<and>
     (\<exists>fs s'. clt_run s fs s' \<and> begun fs = [] \<and> canceller s' = Cancel_done \<and> calls (clt s') = [])"
proof -
  note inv = client_reachable [OF assms(1,2)]
  from inv have core: "core_inv (clt s)" by (simp add: client_inv_def clt_inv_def)
  from inv assms(3) have c: "destroy_wait (clt s)" "calls (clt s) = [] \<longrightarrow> b"
    "\<forall>a ca. callers (clt s) a = Some ca \<longrightarrow> ca_done ca"
    by (simp_all add: client_inv_def cancel_inv_def)
  have "\<not> clt_step s (Begun a x msg) s'" for a x msg s'
  proof
    assume "clt_step s (Begun a x msg) s'"
    then show False
    proof cases
      case (begins req args proc un st now limit fin)
      with c(1) core_window_ok [OF core] show False by (auto elim: call_begin_cases)
    qed
  qed
  with c drain [OF inv assms(3,2)] show ?thesis by (auto simp: waiting_def)
qed

text \<open>
  C16: the reference counts are exact. In every history each connection object that exists is
  referenced, its count is the number of calls that hold it plus one if it is the channel of
  the client, and the next transmission of a call on any (new or absent) connection, and the
  end of a call, neither fail an assertion nor touch a deleted object.
\<close>

theorem connection_references_exact:
  assumes "clt_run (clt_init re random) es s" "length (begun es) < 2 ^ 32 - 1"
  shows "(\<forall>c obj. cl_heap (clt s) c = Some obj \<longrightarrow> 0 < cn_refno obj \<and>
       cn_refno obj = int (holders (threads s) c) + of_bool (chan (clt s) = Some c)) \<and>
     (\<forall>a msg ch tr ms fin new. threads s a = Top msg ch tr ms fin \<longrightarrow> fresh_conn_of new (cl_heap (clt s)) \<longrightarrow>
        (\<exists>r. transmit new ch msg (clt s) = Inr r)) \<and>
     (\<forall>a ch. threads s a = Leaves ch \<longrightarrow> (\<exists>r. call_end a ch (clt s) = Inr r))"
proof -
  from client_reachable [OF assms] have refs: "refs_inv s" and core: "core_inv (clt s)"
    and idle: "\<forall>a. threads s a = Idle \<longleftrightarrow> callers (clt s) a = None"
    by (simp_all add: client_inv_def clt_inv_def)
  have "0 < cn_refno obj \<and> cn_refno obj = int (holders (threads s) c) + of_bool (chan (clt s) = Some c)"
    if "cl_heap (clt s) c = Some obj" for c obj
    using refs refs_okD [of "holders (threads s)" "chan (clt s)" "cl_heap (clt s)" c] that
    by (simp add: refs_inv_def)
  moreover have "\<exists>r. transmit new ch msg (clt s) = Inr r"
    if "threads s a = Top msg ch tr ms fin" "fresh_conn_of new (cl_heap (clt s))" for a msg ch tr ms fin new
    using transmit_refs [OF refs that, of msg] by blast
  moreover have "\<exists>r. call_end a ch (clt s) = Inr r" if "threads s a = Leaves ch" for a ch
  proof -
    from idle that have "callers (clt s) a \<noteq> None" by (metis call_phase.distinct(5))
    then obtain ca where "callers (clt s) a = Some ca" by blast
    from call_end_refs [OF refs that core this] show ?thesis by blast
  qed
  ultimately show ?thesis by blast
qed


section \<open>Witnesses\<close>

text \<open>A client with nonce 9 that binds: the call, its reply, and the end of the call.\<close>

definition sample_time :: timespec where
  "sample_time = \<lparr>ts_sec = 0, ts_nsec = 0\<rparr>"

definition sample_begun :: "marshall \<Rightarrow> clt_sys" where
  "sample_begun msg = \<lparr>clt = (rpcc_new True 9)\<lparr>next_xid := 2, callers := [0 \<mapsto> caller_new 1 unmarshall_empty],
       calls := [(1, 0)]\<rparr>, threads = (\<lambda>_. Idle)(0 := Top msg None True to_min sample_time), canceller = No_cancel\<rparr>"

definition sample_reply :: "u8 list" where
  "sample_reply = [0, 0, 0, 24, 0, 0, 0, 1, 0, 0, 0, 5] @ replicate 12 0"

lemma call_sample_step: "\<exists>msg. clt_step (clt_init True 9) (Begun 0 1 msg) (sample_begun msg)"
proof -
  let ?h = "\<lparr>rq_xid = 1, rq_proc = rpc_bind, rq_clt_nonce = 9, rq_srv_nonce = 0, rq_xid_rep = 0\<rparr>"
  from pack_req_header_sent [OF body_new, of ?h] obtain msg where m: "pack_req_header ?h marshall_new = Inr msg" by blast
  have "call_begin 0 rpc_bind marshall_new unmarshall_empty (clt (clt_init True 9)) =
      Inr (Inr msg, clt (sample_begun msg))"
    using m by (simp add: call_begin_def clt_init_def rpcc_new_def xid_rep_window_init_def Let_def sample_begun_def)
  moreover have "add_timespec sample_time 0 = Inr sample_time"
    by (simp add: add_timespec_def sample_time_def signed_divide_int_def signed_modulo_int_def carry_nsec.simps)
  ultimately have "clt_step (clt_init True 9) (Begun 0 (next_xid (clt (clt_init True 9))) msg)
      ((clt_init True 9)\<lparr>clt := clt (sample_begun msg),
        threads := (threads (clt_init True 9))(0 := Top msg None True to_min sample_time)\<rparr>)"
    by (intro clt_step.begins [where args = "[]"]) (simp_all add: clt_init_def body_new)
  then show ?thesis by (auto simp: clt_init_def rpcc_new_def sample_begun_def)
qed

theorem new_request_keeps_waiting_calls_witness:
  "\<exists>msg. \<exists>h args. sent msg (enc_req_header h) args \<and> rq_xid h = 1 \<and> 1 \<notin> set (begun []) \<and>
     waiting (clt (sample_begun msg)) 0 1 \<and> (\<forall>b y. waiting (clt (sample_begun msg)) b y \<longrightarrow> rq_xid_rep h < y)"
proof -
  from call_sample_step obtain msg where "clt_step (clt_init True 9) (Begun 0 1 msg) (sample_begun msg)" by blast
  from new_request_keeps_waiting_calls [OF clt_run.clt_start this] show ?thesis by auto
qed

lemma call_sample_run: "\<exists>msg. clt_run (clt_init True 9) [Begun 0 1 msg] (sample_begun msg)"
  using call_sample_step clt_run_Cons [OF _ clt_run.clt_start] by blast

lemma sample_reply_of: "reply_of sample_reply = Some \<lparr>rp_xid = 1, rp_ret = 5\<rparr>"
  unfolding sample_reply_def by code_simp

definition sample_replied :: "marshall \<Rightarrow> clt_sys" where
  "sample_replied msg = (sample_begun msg)\<lparr>clt := (clt (sample_begun msg))\<lparr>rep_window := [1],
     callers := [0 \<mapsto> deliver sample_reply 5 (caller_new 1 unmarshall_empty)]\<rparr>\<rparr>"

lemma sample_got: "got_reply sample_reply (clt (sample_begun msg)) = Inr (clt (sample_replied msg))"
proof -
  have h: "unpack_reply_header (unmarshall_of sample_reply) =
      (\<lparr>rp_xid = 1, rp_ret = 5\<rparr>, \<lparr>ubuf = sample_reply, uind = 24, uok = True\<rparr>)"
    unfolding sample_reply_def by code_simp
  have w: "update_xid_rep 1 xid_rep_window_init = Inr [1]" by code_simp
  show ?thesis
    by (simp add: got_reply_def h w sample_replied_def sample_begun_def rpcc_new_def caller_new_def
        deliver_def reply_un_def take_in_def utake_buf_def unmarshall_empty_def)
qed

text \<open>The rest of the call, without a connection, for a client of which only the window matters.\<close>

lemma call_sample_end:
  assumes "clt_run s0 es s" "threads s 0 = Top msg None True ms sample_time" "chan (clt s) = None"
    and "core_inv (clt s)" "callers (clt s) 0 = Some ca"
  shows "\<exists>fs t ret un t'. clt_run s0 (es @ [Local 0, Local 0]) t \<and> clt_step t (Returned 0 (ca_xid ca) ret un) t'"
proof -
  let ?t = "s\<lparr>threads := (threads s)(0 := Top msg None False ms sample_time)\<rparr>"
  have "transmit None None msg (clt s) = Inr (None, clt s)"
    using assms(3) by (simp add: transmit_def get_refconn_def renew_chan_def)
  from clt_step.transmits [OF assms(2) _ this] have "clt_step s (Local 0) ?t"
    by (simp add: fresh_conn_of_def)
  from clt_run.clt_next [OF assms(1) this] have r: "clt_run s0 (es @ [Local 0]) ?t" .
  have "clt_step ?t (Local 0) (?t\<lparr>threads := (threads ?t)(0 := Leaves None)\<rparr>)"
    by (rule clt_step.gives_up) (auto simp: sample_time_def)
  from clt_run.clt_next [OF r this]
  have r2: "clt_run s0 (es @ [Local 0, Local 0]) (?t\<lparr>threads := (threads ?t)(0 := Leaves None)\<rparr>)" by simp
  let ?u = "?t\<lparr>threads := (threads ?t)(0 := Leaves None)\<rparr>"
  from update_xid_rep_ok [OF core_window_ok [OF assms(4)], of "ca_xid ca"] obtain w
    where "update_xid_rep (ca_xid ca) (rep_window (clt s)) = Inr w" by blast
  with assms(5) obtain ret un sig st where "call_end 0 None (clt ?u) = Inr (ret, un, sig, st)"
    by (simp add: call_end_def)
  from clt_step.leaves [OF _ _ this, of ca] assms(5) r2 show ?thesis by auto
qed

theorem call_returns_its_answer_witness:
  "\<exists>msg s s' ret un. clt_run (clt_init True 9) ([Begun 0 1 msg, Reply sample_reply] @ [Local 0, Local 0]) s \<and>
     clt_step s (Returned 0 1 ret un) s' \<and> ret = 5 \<and> un = reply_un sample_reply"
proof -
  from call_sample_run obtain msg where m: "clt_run (clt_init True 9) [Begun 0 1 msg] (sample_begun msg)" by blast
  have "clt_step (sample_begun msg) (Reply sample_reply) ((sample_begun msg)\<lparr>clt := clt (sample_replied msg)\<rparr>)"
    by (rule clt_step.replies [OF sample_got]) (simp add: sample_reply_of sample_begun_def)
  from clt_run.clt_next [OF m this] have r: "clt_run (clt_init True 9) [Begun 0 1 msg, Reply sample_reply]
      ((sample_begun msg)\<lparr>clt := clt (sample_replied msg)\<rparr>)" by simp
  have "core_inv (clt (sample_replied msg))"
    using client_reachable [OF r] by (simp add: client_inv_def clt_inv_def)
  with call_sample_end [OF r, of msg to_min "deliver sample_reply 5 (caller_new 1 unmarshall_empty)"]
  obtain s s' ret un where s: "clt_run (clt_init True 9) ([Begun 0 1 msg, Reply sample_reply] @ [Local 0, Local 0]) s"
    "clt_step s (Returned 0 1 ret un) s'"
    by (auto simp: sample_begun_def sample_replied_def rpcc_new_def caller_new_def)
  from call_returns_its_answer [OF s] have "ret = 5 \<and> un = reply_un sample_reply"
    by (simp add: answer_def sample_reply_of)
  with s show ?thesis by blast
qed

theorem cancel_drains_witness:
  "\<exists>msg s fs s'. clt_run (clt_init True 9) [Begun 0 1 msg, Cancels] s \<and> calls (clt s) = [(1, 0)] \<and>
     clt_run s fs s' \<and> begun fs = [] \<and> canceller s' = Cancel_done \<and> calls (clt s') = []"
proof -
  from call_sample_run obtain msg where m: "clt_run (clt_init True 9) [Begun 0 1 msg] (sample_begun msg)" by blast
  have core: "core_inv (clt (sample_begun msg))"
    using client_reachable [OF m] by (simp add: client_inv_def clt_inv_def)
  have c: "calls (clt (sample_begun msg)) = [(1, 0)]" by (simp add: sample_begun_def)
  from cancel_enter_marks [OF core] c obtain st where
    st: "cancel_enter (clt (sample_begun msg)) = Inr (True, st)" "calls st = [(1, 0)]" by simp
  let ?s = "(sample_begun msg)\<lparr>clt := st, canceller := cancel_goes True\<rparr>"
  have "clt_step (sample_begun msg) Cancels ?s"
    by (rule clt_step.cancels [OF _ st(1)]) (simp add: sample_begun_def)
  from clt_run.clt_next [OF m this] have r: "clt_run (clt_init True 9) [Begun 0 1 msg, Cancels] ?s" by simp
  from cancel_drains [OF r, of False] obtain fs s' where
    "clt_run ?s fs s' \<and> begun fs = [] \<and> canceller s' = Cancel_done \<and> calls (clt s') = []"
    by (auto simp: cancel_goes_def)
  with r st(2) show ?thesis by (intro exI [of _ msg] exI [of _ ?s] exI [of _ fs] exI [of _ s']) simp
qed

theorem connection_references_exact_witness:
  "\<exists>msg. \<exists>r. transmit (Some (3, connection_new 4 0 (0, 0))) None msg (clt (sample_begun msg)) = Inr r"
proof -
  from call_sample_run obtain msg where m: "clt_run (clt_init True 9) [Begun 0 1 msg] (sample_begun msg)" by blast
  have t: "threads (sample_begun msg) 0 = Top msg None True to_min sample_time" by (simp add: sample_begun_def)
  have f: "fresh_conn_of (Some (3, connection_new 4 0 (0, 0))) (cl_heap (clt (sample_begun msg)))"
    by (simp add: fresh_conn_of_def sample_begun_def rpcc_new_def connection_new_def)
  from connection_references_exact [OF m] t f show ?thesis by simp blast
qed


end
