(* ===== verification/EndToEnd.thy ===== *)
theory EndToEnd
  imports RpcServer ClientCalls
begin

text \<open>
  One client endpoint and one server endpoint over a network that may lose, duplicate, delay
  and reorder what was sent, with other clients calling the same server: each meets what the
  other relies on, and a call that returns a handler's code was run exactly once, on its own
  arguments.
\<close>

section \<open>What a buffer says when it arrives\<close>

definition carries :: "cells \<Rightarrow> u8 list \<Rightarrow> u8 list \<Rightarrow> bool" where
  "carries bs hdr out \<longleftrightarrow> length hdr \<le> 20 \<and> length bs = 24 + length out \<and>
     take (length hdr) (drop 4 bs) = map Some hdr \<and> drop 24 bs = map Some out"

lemma sent_carries:
  assumes "sent m hdr out" "length hdr \<le> 20"
  shows "carries (written m) hdr out" "mind m = length (written m)"
proof -
  from assms(1) have b: "body m out" "wf_marshall m" by (simp_all add: sent_def body_def)
  show "mind m = length (written m)" using length_written [OF b(2)] by simp
  with assms b body_mind [OF b(1)] show "carries (written m) hdr out" by (simp add: carries_def sent_def body_def)
qed

lemma carries_wire:
  assumes "carries bs hdr out"
  shows "take (length hdr) (drop 4 (wire junk (length bs) bs)) = hdr" "drop 24 (wire junk (length bs) bs) = out"
proof -
  from assms have c: "length hdr \<le> 20" "length bs = 24 + length out"
    "take (length hdr) (drop 4 bs) = map Some hdr" "drop 24 bs = map Some out" by (simp_all add: carries_def)
  from c show "take (length hdr) (drop 4 (wire junk (length bs) bs)) = hdr" by (intro wire_section) auto
  from c have "take (length out) (drop 24 (wire junk (length bs) bs)) = out" by (intro wire_section) auto
  then show "drop 24 (wire junk (length bs) bs) = out" using c(2) by simp
qed

lemma carries_request:
  assumes "carries bs (enc_req_header h) args"
  shows "\<exists>u. unpack_req_header (unmarshall_of (wire junk (length bs) bs)) = (h, u) \<and> at_body u args"
  using carries_wire [OF assms, of junk] assms
  by (simp add: unpack_req_header_hit unmarshall_of_def at_body_def carries_def)

lemma carries_reply:
  assumes "carries bs (enc_reply_header h) out"
  shows "reply_of (wire junk (length bs) bs) = Some h" "at_body (reply_un (wire junk (length bs) bs)) out"
  using carries_wire [OF assms, of junk] assms
  by (simp_all add: reply_of_def unpack_reply_header_hit unmarshall_of_def at_body_def reply_un_def carries_def)

section \<open>The network\<close>

text \<open>
  \<open>peer c\<close> is the nonce of the client that made the connection which the server knows as \<open>c\<close>.
  A PDU arrives if it was ever sent on a connection of the two ends; what arrives from other
  clients is arbitrary, as long as they send their own nonce and acknowledge no request that
  they send. \<open>Ran\<close> records the run of a handler: client, number, procedure, the bytes of the
  arguments, the returned code and the bytes of the result.
\<close>

record 's net =
  client :: clt_sys
  server :: "'s rpcs \<times> 's job list"

datatype net_event =
    Client clt_event
  | Arrives nat "u8 list"
  | Ran u32 u32 i32 "u8 list" i32 "u8 list"
  | Elsewhere

definition own_nonce :: "(nat \<Rightarrow> u32) \<Rightarrow> nat \<Rightarrow> u8 list \<Rightarrow> bool" where
  "own_nonce peer c pdu = (let (h, u) = unpack_req_header (unmarshall_of pdu) in uok u \<longrightarrow> rq_clt_nonce h = peer c)"

inductive net_step :: "(nat \<Rightarrow> u32) \<Rightarrow> u32 \<Rightarrow> 's net \<Rightarrow> net_event \<Rightarrow> 's net \<Rightarrow> bool" for peer n where
  client_acts: "clt_step (client s) e t \<Longrightarrow> (\<And>pdu. e \<noteq> Reply pdu) \<Longrightarrow>
     net_step peer n s (Client e) (s\<lparr>client := t\<rparr>)"
| reply_arrives: "(c, bs) \<in> set (sends (fst (server s))) \<Longrightarrow> peer c = n \<Longrightarrow> pdu = wire junk (length bs) bs \<Longrightarrow>
     got_reply pdu (clt (client s)) = Inr st \<Longrightarrow>
     net_step peer n s (Client (Reply pdu)) (s\<lparr>client := (client s)\<lparr>clt := st\<rparr>\<rparr>)"
| request_arrives: "(d, bs) \<in> set (cl_sends (clt (client s))) \<Longrightarrow> peer c = n \<Longrightarrow> pdu = wire junk (length bs) bs \<Longrightarrow>
     server s = (rs, js) \<Longrightarrow> dispatch_begin c pdu rs = Inr (new, rs') \<Longrightarrow>
     net_step peer n s (Arrives c pdu) (s\<lparr>server := (rs', case new of None \<Rightarrow> js | Some j \<Rightarrow> js @ [j])\<rparr>)"
| other_arrives: "peer c \<noteq> n \<Longrightarrow> own_nonce peer c pdu \<Longrightarrow> client_ok pdu \<Longrightarrow>
     server s = (rs, js) \<Longrightarrow> dispatch_begin c pdu rs = Inr (new, rs') \<Longrightarrow>
     net_step peer n s (Arrives c pdu) (s\<lparr>server := (rs', case new of None \<Rightarrow> js | Some j \<Rightarrow> js @ [j])\<rparr>)"
| runs: "server s = (rs, xs @ j # ys) \<Longrightarrow> \<not> live (replies rs) b \<Longrightarrow> dispatch_end b j rs = Inr rs' \<Longrightarrow>
     jb_handler j (app rs) (jb_args j) marshall_new = Inr (s', ret, rep) \<Longrightarrow> body rep out \<Longrightarrow>
     net_step peer n s
       (Ran (fst (job_key j)) (snd (job_key j)) (rq_proc (jb_header j)) (drop RPC_HEADER_SZ (ubuf (jb_args j))) ret out)
       (s\<lparr>server := (rs', xs @ ys)\<rparr>)"
| elsewhere: "server s = (rs, js) \<Longrightarrow> net_step peer n s Elsewhere (s\<lparr>server := (rs\<lparr>heap := h\<rparr>, js)\<rparr>)"

inductive net_run :: "(nat \<Rightarrow> u32) \<Rightarrow> u32 \<Rightarrow> 's net \<Rightarrow> net_event list \<Rightarrow> 's net \<Rightarrow> bool" for peer n s0 where
  net_start: "net_run peer n s0 [] s0"
| net_next: "net_run peer n s0 es s \<Longrightarrow> net_step peer n s e s' \<Longrightarrow> net_run peer n s0 (es @ [e]) s'"

definition net_init :: "u32 \<Rightarrow> u32 \<Rightarrow> int \<Rightarrow> (i32 \<Rightarrow> 's handler option) \<Rightarrow> 's \<Rightarrow> 's net" where
  "net_init n nonce cnt ps s = \<lparr>client = clt_init True n, server = ((rpcs_new nonce cnt s)\<lparr>procs := ps\<rparr>, [])\<rparr>"

fun client_of :: "net_event \<Rightarrow> clt_event list" where
  "client_of (Client e) = [e]"
| "client_of _ = []"

fun server_of :: "net_event \<Rightarrow> disp_event list" where
  "server_of (Arrives c pdu) = [Begins c pdu]"
| "server_of (Ran c x p args ret out) = [Runs c x]"
| "server_of Elsewhere = [Outside]"
| "server_of _ = []"

definition client_part :: "net_event list \<Rightarrow> clt_event list" where
  "client_part es = concat (map client_of es)"

definition server_part :: "net_event list \<Rightarrow> disp_event list" where
  "server_part es = concat (map server_of es)"

lemma part_simps [simp]:
  "client_part [] = []" "client_part (e # es) = client_of e @ client_part es" "client_part (es @ fs) = client_part es @ client_part fs"
  "server_part [] = []" "server_part (e # es) = server_of e @ server_part es" "server_part (es @ fs) = server_part es @ server_part fs"
  by (simp_all add: client_part_def server_part_def)

lemma client_part_set: "e \<in> set (client_part es) \<longleftrightarrow> Client e \<in> set es"
proof (induction es)
  case (Cons f es)
  then show ?case by (cases f) auto
qed simp

section \<open>Requests, runs and replies of a history\<close>

definition requested :: "u32 \<Rightarrow> net_event list \<Rightarrow> req_header \<Rightarrow> u8 list \<Rightarrow> bool" where
  "requested n es h args \<longleftrightarrow> rq_clt_nonce h = n \<and> rq_xid_rep h < rq_xid h \<and>
     (\<exists>a msg. Client (Begun a (rq_xid h) msg) \<in> set es \<and> sent msg (enc_req_header h) args)"

definition ran :: "u32 \<Rightarrow> net_event list \<Rightarrow> u32 \<Rightarrow> i32 \<Rightarrow> u8 list \<Rightarrow> bool" where
  "ran n es x ret out \<longleftrightarrow> (\<exists>h args. requested n es h args \<and> rq_xid h = x \<and> Ran n x (rq_proc h) args ret out \<in> set es)"

definition replied :: "u32 \<Rightarrow> net_event list \<Rightarrow> u32 \<Rightarrow> i32 \<Rightarrow> u8 list \<Rightarrow> bool" where
  "replied n es x ret out \<longleftrightarrow> ran n es x ret out \<or>
     (ret = atmostonce_failure \<or> ret = oldsrv_failure) \<and> (\<exists>h args. requested n es h args \<and> rq_xid h = x)"

definition is_message :: "u32 \<Rightarrow> net_event list \<Rightarrow> cells \<Rightarrow> bool" where
  "is_message n es bs \<longleftrightarrow> (\<exists>h args. requested n es h args \<and> carries bs (enc_req_header h) args)"

definition is_reply :: "u32 \<Rightarrow> net_event list \<Rightarrow> cells \<Rightarrow> bool" where
  "is_reply n es bs \<longleftrightarrow> (\<exists>x ret out. replied n es x ret out \<and> carries bs (enc_reply_header \<lparr>rp_xid = x, rp_ret = ret\<rparr>) out)"

lemma history_grows:
  assumes "set es \<subseteq> set fs"
  shows "requested n es h args \<Longrightarrow> requested n fs h args" "ran n es x ret out \<Longrightarrow> ran n fs x ret out"
    "replied n es x ret out \<Longrightarrow> replied n fs x ret out" "is_message n es bs \<Longrightarrow> is_message n fs bs" "is_reply n es bs \<Longrightarrow> is_reply n fs bs"
proof -
  show 1: "requested n es h args \<Longrightarrow> requested n fs h args" for h args
    using assms by (auto simp: requested_def)
  then show 2: "ran n es x ret out \<Longrightarrow> ran n fs x ret out" for x ret out
    using 1 assms unfolding ran_def by blast
  show 3: "replied n es x ret out \<Longrightarrow> replied n fs x ret out" for x ret out
    using 1 2 by (auto simp: replied_def)
  show "is_message n es bs \<Longrightarrow> is_message n fs bs" using 1 unfolding is_message_def by blast
  show "is_reply n es bs \<Longrightarrow> is_reply n fs bs" using 3 unfolding is_reply_def by blast
qed

lemma ran_requested: "replied n es x ret out \<Longrightarrow> \<exists>h args. requested n es h args \<and> rq_xid h = x"
  by (auto simp: replied_def ran_def)


section \<open>The server's side\<close>

text \<open>
  Every connection that \<open>conns_\<close> names for a client is one of that client; the jobs and the
  recorded replies of our client, and what is sent to it, come from its requests.
\<close>

definition job_ok :: "(nat \<Rightarrow> u32) \<Rightarrow> u32 \<Rightarrow> net_event list \<Rightarrow> 's job \<Rightarrow> bool" where
  "job_ok peer n es j \<longleftrightarrow> peer (jb_conn j) = rq_clt_nonce (jb_header j) \<and>
     (rq_clt_nonce (jb_header j) = n \<longrightarrow> (\<exists>args. requested n es (jb_header j) args \<and> at_body (jb_args j) args))"

definition entry_replied :: "u32 \<Rightarrow> net_event list \<Rightarrow> (addr \<Rightarrow> cells) \<Rightarrow> reply_t \<Rightarrow> bool" where
  "entry_replied n es bf e \<longleftrightarrow> (rt_cb_present e \<longrightarrow>
     (\<exists>b ret out. rt_buf e = Some b \<and> ran n es (rt_xid e) ret out \<and>
        carries (take (rt_sz e) (bf b)) (enc_reply_header \<lparr>rp_xid = rt_xid e, rp_ret = ret\<rparr>) out))"

definition server_inv :: "(nat \<Rightarrow> u32) \<Rightarrow> u32 \<Rightarrow> net_event list \<Rightarrow> 's rpcs \<Rightarrow> 's job list \<Rightarrow> bool" where
  "server_inv peer n es rs js \<longleftrightarrow> reply_inv (replies rs) \<and> (\<forall>k d. conns rs k = Some d \<longrightarrow> peer d = k) \<and>
     (\<forall>j \<in> set js. job_ok peer n es j) \<and> (\<forall>e \<in> set (window_of (replies rs) n). entry_replied n es (bufs rs) e) \<and>
     (\<forall>(c, bs) \<in> set (sends rs). peer c = n \<longrightarrow> is_reply n es bs)"

lemma server_inv_grows:
  assumes "server_inv peer n es rs js" "set es \<subseteq> set fs"
  shows "server_inv peer n fs rs js"
proof -
  note g = history_grows [OF assms(2)]
  have "job_ok peer n es j \<Longrightarrow> job_ok peer n fs j" for j :: "'a job" using g(1) unfolding job_ok_def by blast
  moreover have "entry_replied n es bf e \<Longrightarrow> entry_replied n fs bf e" for bf e
    using g(2) unfolding entry_replied_def by blast
  ultimately show ?thesis using assms(1) g(5) unfolding server_inv_def by blast
qed

text \<open>What \<open>conns_\<close> names after a request has begun.\<close>

lemma note_conn_conns:
  "note_conn c k rs = Inr rs' \<Longrightarrow> conns rs' = conns rs \<or> conns rs' = (conns rs)(k \<mapsto> c)"
  by (auto simp: note_conn_def andthen_Inr_iff on_heap_def split: option.splits if_splits)

lemma answer_duplicate_conns: "answer_duplicate c xid a rs = Inr rs' \<Longrightarrow> conns rs' = conns rs"
  by (auto simp: answer_duplicate_def andthen_Inr_iff send_on_def on_heap_def
      split: prod.splits rpcstate_t.splits option.splits if_splits)

lemma begin_conns:
  assumes "dispatch_begin c pdu rs = Inr (new, rs')"
  shows "conns rs' = conns rs \<or>
     (uok (snd (unpack_req_header (unmarshall_of pdu))) \<and> conns rs' = (conns rs)(rq_clt_nonce (fst (unpack_req_header (unmarshall_of pdu))) \<mapsto> c))"
proof -
  obtain h u where h: "unpack_req_header (unmarshall_of pdu) = (h, u)" by (cases "unpack_req_header (unmarshall_of pdu)")
  show ?thesis
  proof (cases "uok u \<and> (rq_srv_nonce h = 0 \<or> rq_srv_nonce h = srv_nonce rs) \<and> procs rs (rq_proc h) \<noteq> None \<and> rq_clt_nonce h \<noteq> 0")
    case False
    with assms h show ?thesis
      by (auto simp: dispatch_begin_def Let_def andthen_Inr_iff send_on_def split: if_splits option.splits dest!: on_heap_core)
  next
    case True
    then obtain f where "procs rs (rq_proc h) = Some f" by auto
    with assms h True obtain st rs1 a st2 where rs1: "note_conn c (rq_clt_nonce h) (rs\<lparr>replies := st\<rparr>) = Inr rs1"
      and fin: "(if fst a = NEW then Inr (Some \<lparr>jb_conn = c, jb_header = h, jb_args = u, jb_handler = f\<rparr>, rs1\<lparr>replies := st2\<rparr>)
          else andthen (answer_duplicate c (rq_xid h) a (rs1\<lparr>replies := st2\<rparr>)) (\<lambda>rs. Inr (None, rs))) = Inr (new, rs')"
      by (auto simp: dispatch_begin_def Let_def andthen_Inr_iff split del: if_split)
    from fin have "conns rs' = conns rs1"
      by (auto simp: andthen_Inr_iff split: if_split_asm dest!: answer_duplicate_conns)
    with note_conn_conns [OF rs1] h True show ?thesis by auto
  qed
qed

text \<open>What is sent to a client that is answered at once, and the job that is left otherwise.\<close>

lemma answer_duplicate_sends:
  assumes "answer_duplicate c x a rs = Inr rs'"
  shows "sends rs' = sends rs \<or>
    (\<exists>b sz. a = (DONE, Some (Some b, sz)) \<and> sends rs' = sends rs @ [(c, take sz (bufs rs b))]) \<or>
    (\<exists>rep. error_reply x atmostonce_failure = Inr rep \<and> sends rs' = sends rs @ [(c, written rep)])"
  using assms
  by (auto simp: answer_duplicate_def andthen_Inr_iff send_on_def
      split: prod.splits rpcstate_t.splits option.splits if_splits dest!: on_heap_core)

lemma error_reply_carries:
  "error_reply x ret = Inr rep \<Longrightarrow> carries (written rep) (enc_reply_header \<lparr>rp_xid = x, rp_ret = ret\<rparr>) []"
  using pack_reply_header_sent [OF body_new, of "\<lparr>rp_xid = x, rp_ret = ret\<rparr>"]
  by (auto simp: error_reply_def intro!: sent_carries)

text \<open>A request of our client, or one of another client.\<close>

definition arrival_ok :: "(nat \<Rightarrow> u32) \<Rightarrow> u32 \<Rightarrow> net_event list \<Rightarrow> nat \<Rightarrow> u8 list \<Rightarrow> bool" where
  "arrival_ok peer n es c pdu \<longleftrightarrow> client_ok pdu \<and>
     (\<exists>h u. unpack_req_header (unmarshall_of pdu) = (h, u) \<and>
       (uok u \<longrightarrow> rq_clt_nonce h = peer c \<and>
         (rq_clt_nonce h = n \<longrightarrow> (\<exists>args. requested n es h args \<and> at_body u args))))"

lemma begin_sends:
  assumes "dispatch_begin c pdu rs = Inr (new, rs')" "arrival_ok peer n es c pdu" "server_inv peer n es rs js" "n \<noteq> 0"
  shows "(\<forall>(d, bs) \<in> set (sends rs'). peer d = n \<longrightarrow> is_reply n es bs) \<and>
     (\<forall>e \<in> set (window_of (replies rs') n). entry_replied n es (bufs rs') e) \<and>
     (case new of None \<Rightarrow> True | Some j \<Rightarrow> job_ok peer n es j)"
proof -
  from assms(3) have inv: "reply_inv (replies rs)" and snd: "\<forall>(d, bs) \<in> set (sends rs). peer d = n \<longrightarrow> is_reply n es bs"
    and win: "\<forall>e \<in> set (window_of (replies rs) n). entry_replied n es (bufs rs) e" by (simp_all add: server_inv_def)
  obtain h u where h: "unpack_req_header (unmarshall_of pdu) = (h, u)" by (cases "unpack_req_header (unmarshall_of pdu)")
  from assms(2) have below: "rq_clt_nonce h \<noteq> 0 \<longrightarrow> rq_xid_rep h < rq_xid h" by (simp add: arrival_ok_def client_ok_def h)
  from assms(2) have ok: "uok u \<Longrightarrow> rq_clt_nonce h = peer c \<and>
         (rq_clt_nonce h = n \<longrightarrow> (\<exists>args. requested n es h args \<and> at_body u args))" by (simp add: arrival_ok_def h)
  have err: "is_reply n es (written rep)"
    if "error_reply (rq_xid h) ret = Inr rep" "ret = atmostonce_failure \<or> ret = oldsrv_failure" "uok u" "peer c = n" for rep ret
    using error_reply_carries [OF that(1)] that ok unfolding is_reply_def replied_def by metis
  have job: "job_ok peer n es \<lparr>jb_conn = c, jb_header = h, jb_args = u, jb_handler = f\<rparr>" if "uok u" for f :: "'a handler"
    using ok [OF that] by (simp add: job_ok_def)
  show ?thesis
  proof (cases "uok u \<and> (rq_srv_nonce h = 0 \<or> rq_srv_nonce h = srv_nonce rs) \<and> procs rs (rq_proc h) \<noteq> None \<and> rq_clt_nonce h \<noteq> 0")
    case False
    with assms(1) h have "same_core rs rs' \<and> (sends rs' = sends rs \<or>
        uok u \<and> (\<exists>rep. error_reply (rq_xid h) oldsrv_failure = Inr rep \<and> sends rs' = sends rs @ [(c, written rep)])) \<and>
        (new = None \<or> uok u \<and> (\<exists>f. new = Some \<lparr>jb_conn = c, jb_header = h, jb_args = u, jb_handler = f\<rparr>))"
      by (auto simp: dispatch_begin_def Let_def andthen_Inr_iff send_on_def split: if_splits option.splits dest!: on_heap_core)
        (auto simp: same_core_def)
    with snd win err job show ?thesis by (auto simp: same_core_def split: option.splits)
  next
    case True
    then obtain f where "procs rs (rq_proc h) = Some f" by auto
    with begin_accepted [OF h _ _ this _ assms(1)] True obtain a rs1 where
      chk: "checkduplicate_and_update (rq_clt_nonce h) (rq_xid h) (rq_xid_rep h) (replies rs) = Inr (a, replies rs1)"
      and rs1: "bufs rs1 = bufs rs" "sends rs1 = sends rs"
      and fin: "if fst a = NEW then new = Some \<lparr>jb_conn = c, jb_header = h, jb_args = u, jb_handler = f\<rparr> \<and> rs' = rs1
        else new = None \<and> answer_duplicate c (rq_xid h) a rs1 = Inr rs'" by blast
    from True below have r: "rq_xid_rep h < rq_xid h" by blast
    let ?k = "kept (rq_xid_rep h) (window_of (replies rs) (rq_clt_nonce h))"
    from check_ok [OF inv r, of "rq_clt_nonce h"] chk have a: "a = answer_ref (rq_xid h) ?k"
      and st: "replies rs1 = set_window (rq_clt_nonce h) (window_ref (rq_xid h) ?k)
         ((replies rs)\<lparr>live := trimmed_live (rq_xid_rep h) (window_of (replies rs) (rq_clt_nonce h)) (live (replies rs))\<rparr>)" by simp_all
    have "window_of (replies rs1) n = (if rq_clt_nonce h = n then window_ref (rq_xid h) ?k else window_of (replies rs) n)"
      by (simp add: st)
    then have win1: "\<forall>e \<in> set (window_of (replies rs1) n). entry_replied n es (bufs rs1) e"
      using win by (auto simp: rs1 window_ref_set kept_def entry_replied_def reply_t_new_def split: if_splits)
    have same: "replies rs' = replies rs1" "bufs rs' = bufs rs1"
      using fin by (auto simp: same_core_def split: if_splits dest!: answer_duplicate_core)
    have "\<forall>(d, bs) \<in> set (sends rs'). peer d = n \<longrightarrow> is_reply n es bs"
    proof (cases "fst a = NEW")
      case True
      with fin snd show ?thesis by (simp add: rs1)
    next
      case False
      with fin have dup: "answer_duplicate c (rq_xid h) a rs1 = Inr rs'" by simp
      have dn: "is_reply n es (take sz (bufs rs1 b))" if "a = (DONE, Some (Some b, sz))" "peer c = n" for b sz
      proof -
        from that(1) a obtain e where e: "lookup_reply (rq_xid h) ?k = Some e" "rt_cb_present e" "rt_buf e = Some b" "rt_sz e = sz"
          by (auto simp: answer_ref_def split: option.splits if_splits)
        from lookup_reply_iff(2) [OF e(1)] that(2) ok \<open>uok u \<and> _\<close> have "e \<in> set (window_of (replies rs) n)"
          by (auto simp: kept_def)
        with win e rs1 show ?thesis unfolding entry_replied_def is_reply_def replied_def by fastforce
      qed
      from answer_duplicate_sends [OF dup] snd dn err True show ?thesis by (auto simp: rs1)
    qed
    with win1 same fin job True show ?thesis by (auto split: if_splits)
  qed
qed


lemma begin_server:
  assumes "dispatch_begin c pdu rs = Inr (new, rs')" "arrival_ok peer n es c pdu" "server_inv peer n es rs js" "n \<noteq> 0"
  shows "server_inv peer n es rs' (case new of None \<Rightarrow> js | Some j \<Rightarrow> js @ [j])"
proof -
  note b = begin_sends [OF assms]
  from assms(2) have "client_ok pdu" by (simp add: arrival_ok_def)
  from begin_window [OF assms(1) this] assms(3) have "reply_inv (replies rs')"
    using rw_run_inv by (auto simp: server_inv_def)
  moreover have "peer d = k" if "conns rs' k = Some d" for k d
    using begin_conns [OF assms(1)] assms(2,3) that by (auto simp: arrival_ok_def server_inv_def split: if_split_asm)
  ultimately show ?thesis using b assms(3) by (auto simp: server_inv_def split: option.splits)
qed

lemma entry_replied_cong: "rt_cb_present e \<longrightarrow> bf (the (rt_buf e)) = bf' (the (rt_buf e)) \<Longrightarrow> entry_replied n es bf e \<Longrightarrow> entry_replied n es bf' e"
  unfolding entry_replied_def by force

lemma end_server:
  assumes "dispatch_end b j rs = Inr rs'" "\<not> live (replies rs) b" "server_inv peer n es rs (xs @ j # ys)" "n \<noteq> 0"
    and "jb_handler j (app rs) (jb_args j) marshall_new = Inr (s', ret, rep0)" "body rep0 out"
    and "e = Ran (fst (job_key j)) (snd (job_key j)) (rq_proc (jb_header j)) (drop RPC_HEADER_SZ (ubuf (jb_args j))) ret out"
  shows "server_inv peer n (es @ [e]) rs' (xs @ ys)"
proof -
  let ?h = "jb_header j" and ?es = "es @ [e]"
  have inv: "server_inv peer n ?es rs (xs @ j # ys)" by (rule server_inv_grows [OF assms(3)]) auto
  from assms(3) have rinv: "reply_inv (replies rs)" by (simp add: server_inv_def)
  from assms(3) have j: "job_ok peer n es j" by (simp add: server_inv_def)
  from assms(1) obtain rs1 rep c rs2 where core: "same_core rs rs1"
    and rep: "pack_reply_header \<lparr>rp_xid = rq_xid ?h, rp_ret = ret\<rparr> rep0 = Inr rep"
    and keep: "same_core (keep_reply b ?h rep (rs1\<lparr>app := s'\<rparr>)) rs2" "sends rs2 = sends rs"
    and fin: "on_heap (decref c) (send_on c (written rep) rs2) = Inr rs'"
    and c: "conns rs2 = conns rs" "c = jb_conn j \<or> conns rs (rq_clt_nonce ?h) = Some c"
    by (rule dispatch_endE) (use assms(5) in auto)
  from pack_reply_header_sent [OF assms(6), of "\<lparr>rp_xid = rq_xid ?h, rp_ret = ret\<rparr>"] rep have "sent rep (enc_reply_header \<lparr>rp_xid = rq_xid ?h, rp_ret = ret\<rparr>) out" by auto
  note w = sent_carries [OF this, simplified]
  have r: "ran n ?es (rq_xid ?h) ret out" if "rq_clt_nonce ?h = n"
  proof -
    from j that obtain args where "requested n es ?h args" "at_body (jb_args j) args" by (auto simp: job_ok_def)
    then show ?thesis using history_grows(1) [of es ?es n ?h args] that
      by (auto simp: ran_def assms(7) job_key_def at_body_def intro!: exI [of _ ?h])
  qed
  have srv: "replies rs' = (if 0 < rq_clt_nonce ?h
      then add_reply (rq_clt_nonce ?h) (rq_xid ?h) (Some b) (mind rep) ((replies rs)\<lparr>live := (live (replies rs))(b := True)\<rparr>)
      else replies rs)" "bufs rs' = (if 0 < rq_clt_nonce ?h then (bufs rs)(b := written rep) else bufs rs)"
    "sends rs' = sends rs @ [(c, written rep)]" "conns rs' = conns rs"
    using on_heap_core [OF fin] core keep c(1) by (auto simp: same_core_def send_on_def keep_reply_def take_buf_def)
  have "reply_inv (replies rs')" using record_inv [OF rinv assms(2)] rinv by (simp add: srv)
  moreover have "entry_replied n ?es (bufs rs') f" if f: "f \<in> set (window_of (replies rs') n)" for f
  proof -
    have old: "entry_replied n ?es (bufs rs') g" if "g \<in> set (window_of (replies rs) n)" for g
    proof (rule entry_replied_cong [of _ "bufs rs"])
      from inv that show "entry_replied n ?es (bufs rs) g" by (simp add: server_inv_def)
      from reply_invD(2,3) [OF rinv that] assms(2) have "rt_cb_present g \<longrightarrow> the (rt_buf g) \<noteq> b"
        by (auto simp: entry_ok_def)
      then show "rt_cb_present g \<longrightarrow> bufs rs (the (rt_buf g)) = bufs rs' (the (rt_buf g))" by (simp add: srv(2))
    qed
    from f have "f \<in> set (window_of (replies rs) n) \<or> (rq_clt_nonce ?h = n \<and>
        (\<exists>g. rt_xid g = rq_xid ?h \<and> f = g\<lparr>rt_buf := Some b, rt_sz := mind rep, rt_cb_present := True\<rparr>))"
      by (auto simp: srv(1) add_reply_def split: if_split_asm dest!: store_reply_set)
    then show ?thesis
    proof
      assume "rq_clt_nonce ?h = n \<and> (\<exists>g. rt_xid g = rq_xid ?h \<and> f = g\<lparr>rt_buf := Some b, rt_sz := mind rep, rt_cb_present := True\<rparr>)"
      then show ?thesis using r w assms(4)
        by (auto simp: entry_replied_def srv(2) word_neq_0_conv intro!: exI [of _ ret] exI [of _ out])
    qed (rule old)
  qed
  moreover have "is_reply n ?es bs" if "(d, bs) \<in> set (sends rs')" "peer d = n" for d bs
  proof (cases "(d, bs) \<in> set (sends rs)")
    case True
    with that(2) inv show ?thesis by (auto simp: server_inv_def)
  next
    case False
    with that(1) have "d = c" "bs = written rep" by (auto simp: srv(3))
    moreover have "peer c = rq_clt_nonce ?h" using c(2) j assms(3) by (auto simp: job_ok_def server_inv_def)
    ultimately show ?thesis using r w that(2) unfolding is_reply_def replied_def by auto
  qed
  ultimately show ?thesis using inv by (auto simp: server_inv_def srv(4))
qed

lemma init_server: "server_inv peer n [] (rpcs_new nonce cnt s\<lparr>procs := ps\<rparr>) []"
  by (simp add: server_inv_def rpcs_new_def reply_inv_init) (simp add: window_of_def reply_state_init_def)


section \<open>The client's side\<close>

text \<open>What was sent and what threads have in hand are requests of the history.\<close>

fun thread_msg :: "call_phase \<Rightarrow> marshall option" where
  "thread_msg (Top m ch tr ms fin) = Some m"
| "thread_msg (Waits m ch ms d fin) = Some m"
| "thread_msg _ = None"

definition client_net :: "u32 \<Rightarrow> net_event list \<Rightarrow> clt_sys \<Rightarrow> bool" where
  "client_net n es c \<longleftrightarrow> cl_nonce (clt c) = n \<and> (\<forall>(d, bs) \<in> set (cl_sends (clt c)). is_message n es bs) \<and>
     (\<forall>a m. thread_msg (threads c a) = Some m \<longrightarrow> is_message n es (written m))"

definition same_sends :: "rpcc \<Rightarrow> rpcc \<Rightarrow> bool" where
  "same_sends st st' \<longleftrightarrow> cl_sends st' = cl_sends st \<and> cl_nonce st' = cl_nonce st"

lemma same_sends_upd [simp]:
  "same_sends st (st'\<lparr>cl_heap := h\<rparr>) = same_sends st st'" "same_sends st st"
  by (simp_all add: same_sends_def)

lemma renew_chan_sends: "renew_chan new st = Inr st' \<Longrightarrow> same_sends st st'"
  unfolding renew_chan_def same_sends_def
  by (simp only: andthen_Inr_iff) (auto simp: andthen_Inr_iff simp del: not_None_eq split: if_split_asm option.split_asm)

lemma get_refconn_sends:
  assumes "get_refconn new ch st = Inr (ch', st')"
  shows "same_sends st st'"
proof -
  from assms obtain s1 where s1: "renew_chan new st = Inr s1"
    and r: "(case chan s1 of None \<Rightarrow> Inr (ch, s1)
      | Some c \<Rightarrow> andthen (case ch of None \<Rightarrow> Inr (cl_heap s1) | Some d \<Rightarrow> decref d (cl_heap s1)) (\<lambda>h.
         andthen (incref c h) (\<lambda>h. Inr (Some c, s1\<lparr>cl_heap := h\<rparr>)))) = Inr (ch', st')"
    unfolding get_refconn_def by (auto simp only: andthen_Inr_iff)
  from r have "\<exists>h. st' = s1\<lparr>cl_heap := h\<rparr>" by (cases "chan s1") (auto simp: andthen_Inr_iff intro: exI [of _ "cl_heap s1"])
  with renew_chan_sends [OF s1] show ?thesis by auto
qed

lemma transmit_sends:
  assumes "transmit new ch req st = Inr (ch', st')"
  shows "cl_nonce st' = cl_nonce st \<and> set (cl_sends st') \<subseteq> set (cl_sends st) \<union> UNIV \<times> {written req}"
proof -
  from assms obtain s1 where "get_refconn new ch st = Inr (ch', s1)"
    and st': "st' = (case ch' of None \<Rightarrow> s1
       | Some c \<Rightarrow> if reachable s1 then s1\<lparr>cl_sends := cl_sends s1 @ [(c, written req)]\<rparr> else s1)"
    unfolding transmit_def by (auto simp only: andthen_Inr_iff prod.case split_paired_Ex sum.inject prod.inject)
  from get_refconn_sends [OF this(1)] st' show ?thesis by (auto simp: same_sends_def split: option.split)
qed

lemma call_begin_sends: "call_begin a proc req un st = Inr (r, st') \<Longrightarrow> same_sends st st'"
  by (auto simp: call_begin_def same_sends_def Let_def andthen_Inr_iff split: if_splits list.splits)

lemma call_end_sends: "call_end a ch st = Inr (ret, un, sig, st') \<Longrightarrow> same_sends st st'"
  by (auto simp: call_end_def same_sends_def andthen_Inr_iff split: option.splits)

lemma got_reply_sends:
  assumes "got_reply pdu st = Inr st'"
  shows "same_sends st st'"
proof -
  obtain h u where h: "unpack_reply_header (unmarshall_of pdu) = (h, u)" by (cases "unpack_reply_header (unmarshall_of pdu)")
  show ?thesis
  proof (cases "uok u")
    case True
    with assms h obtain w where "(case map_of (calls st) (rp_xid h) of
          None \<Rightarrow> Inr (st\<lparr>rep_window := w\<rparr>)
        | Some a \<Rightarrow> (case callers (st\<lparr>rep_window := w\<rparr>) a of
             None \<Rightarrow> Inl Use_after_free
           | Some ca \<Rightarrow> Inr (if \<not> ca_done ca
                then st\<lparr>rep_window := w, callers := (callers (st\<lparr>rep_window := w\<rparr>))(a \<mapsto>
                  ca\<lparr>ca_un := fst (take_in (ca_un ca) u), ca_intret := rp_ret h, ca_done := True\<rparr>)\<rparr>
                else st\<lparr>rep_window := w\<rparr>))) = Inr st'"
      by (auto simp: got_reply_def Let_def andthen_Inr_iff)
    then show ?thesis by (auto simp: same_sends_def split: option.split_asm if_split_asm)
  qed (use assms h in \<open>simp add: got_reply_def\<close>)
qed

lemma cancel_sends: "cancel_test st = (w, st') \<Longrightarrow> same_sends st st'" "cancel_enter st = Inr (w, st') \<Longrightarrow> same_sends st st'"
  by (auto simp: cancel_test_def cancel_enter_def same_sends_def andthen_Inr_iff split: if_splits)

lemma bind_sends: "bind_end ret r st = (ret', st') \<Longrightarrow> same_sends st st'"
  by (auto simp: bind_end_def same_sends_def split: if_splits)

lemma client_net_move:
  assumes "client_net n es c" "same_sends (clt c) (clt c')" "\<forall>a m. thread_msg (threads c' a) = Some m \<longrightarrow> thread_msg (threads c a) = Some m"
    "set es \<subseteq> set fs"
  shows "client_net n fs c'"
  using assms(1-3) history_grows(4) [OF assms(4)] unfolding client_net_def same_sends_def by simp blast

lemma requested_new:
  assumes "clt_step c (Begun a x msg) c'" "clt_inv cs c" "cl_nonce (clt c) = n"
  shows "\<exists>h args. requested n (es @ [Client (Begun a x msg)]) h args \<and> rq_xid h = x \<and> sent msg (enc_req_header h) args"
proof -
  from begun_request [OF assms(1,2)] obtain h args where
    h: "sent msg (enc_req_header h) args" "rq_xid h = x" "x = next_xid (clt c)" "rq_clt_nonce h = cl_nonce (clt c)"
      "rq_xid_rep h = hd (rep_window (clt c))" by blast
  have "hd (rep_window (clt c)) \<in> acked (rep_window (clt c))" by (simp add: acked_def)
  moreover from assms(2) have "window_inv (clt c)" by (simp add: clt_inv_def core_inv_def)
  ultimately have "rq_xid_rep h < rq_xid h" by (simp add: h(2,3,5) window_inv_def)
  with h assms(3) show ?thesis by (intro exI [of _ h] exI [of _ args]) (auto simp: requested_def)
qed

lemma client_net_step:
  assumes "clt_step c e c'" "client_net n es c" "clt_inv cs c"
  shows "client_net n (es @ [Client e]) c'"
  using assms(1)
proof (cases rule: clt_step.cases)
  case (refused a proc req un r st)
  show ?thesis by (rule client_net_move [OF assms(2)]) (use refused call_begin_sends [OF refused(4)] in auto)
next
  case (begins a req args proc un msg st now limit fin)
  from requested_new [OF assms(1) [unfolded begins(1)] assms(3), of n es] assms(2) begins(1) sent_carries(1)
  have "is_message n (es @ [Client e]) (written msg)" by (fastforce simp: client_net_def is_message_def)
  moreover from assms(2) history_grows(4) [of es "es @ [Client e]" n] have "client_net n (es @ [Client e]) c" by (auto simp: client_net_def)
  ultimately show ?thesis
    using call_begin_sends [OF begins(5)] by (auto simp: client_net_def same_sends_def begins(2))
next
  case (transmits a msg ch ms fin new ch' st)
  from assms(2) history_grows(4) [of es "es @ [Client e]" n] have c: "client_net n (es @ [Client e]) c" by (auto simp: client_net_def)
  from transmits(3) have "thread_msg (threads c a) = Some msg" by simp
  with c have "is_message n (es @ [Client e]) (written msg)" unfolding client_net_def by blast
  with c transmit_sends [OF transmits(5)] transmits(3) show ?thesis
    by (auto simp: client_net_def transmits(2) dest!: subsetD)
next
  case (plans a msg ch ms fin now d fin')
  show ?thesis by (rule client_net_move [OF assms(2)]) (use plans in auto)
next
  case (times_out a msg ch ms d fin ca again ms')
  show ?thesis by (rule client_net_move [OF assms(2)]) (use times_out in auto)
next
  case (leaves a ch ca ret un sig st)
  show ?thesis by (rule client_net_move [OF assms(2)]) (use leaves call_end_sends [OF leaves(5)] in auto)
next
  case (replies pdu st)
  show ?thesis by (rule client_net_move [OF assms(2)]) (use replies got_reply_sends [OF replies(3)] in auto)
next
  case (bound ret r st)
  show ?thesis by (rule client_net_move [OF assms(2)]) (use bound bind_sends [OF bound(3)] in auto)
next
  case (cancels w st)
  show ?thesis by (rule client_net_move [OF assms(2)]) (use cancels cancel_sends(2) [OF cancels(4)] in auto)
next
  case (cancel_wakes b w st)
  show ?thesis by (rule client_net_move [OF assms(2)]) (use cancel_wakes cancel_sends(1) [OF cancel_wakes(4)] in auto)
qed (rule client_net_move [OF assms(2)], auto)+


section \<open>Both sides\<close>

definition net_inv :: "(nat \<Rightarrow> u32) \<Rightarrow> u32 \<Rightarrow> net_event list \<Rightarrow> 's net \<Rightarrow> bool" where
  "net_inv peer n es s \<longleftrightarrow> client_inv (client_part es) (client s) \<and> client_net n es (client s) \<and>
     server_inv peer n es (fst (server s)) (snd (server s)) \<and>
     (\<forall>pdu. Client (Reply pdu) \<in> set es \<longrightarrow>
        (\<exists>x ret out. replied n es x ret out \<and> reply_of pdu = Some \<lparr>rp_xid = x, rp_ret = ret\<rparr> \<and> at_body (reply_un pdu) out))"

lemma net_invD:
  assumes "net_inv peer n es s"
  shows "client_inv (client_part es) (client s)" "clt_inv (client_part es) (client s)" "client_net n es (client s)"
    "server_inv peer n es (fst (server s)) (snd (server s))"
    "Client (Reply pdu) \<in> set es \<Longrightarrow>
       \<exists>x ret out. replied n es x ret out \<and> reply_of pdu = Some \<lparr>rp_xid = x, rp_ret = ret\<rparr> \<and> at_body (reply_un pdu) out"
  using assms by (simp_all add: net_inv_def client_inv_def)

text \<open>A step that is not a new reply keeps what is known of replies, and the side that does not move.\<close>

lemma net_inv_moves:
  assumes "net_inv peer n es s" "\<forall>pdu. e \<noteq> Client (Reply pdu)"
    and "client_inv (client_part (es @ [e])) (client s')" "client_net n (es @ [e]) (client s')"
    and "server_inv peer n (es @ [e]) (fst (server s')) (snd (server s'))"
  shows "net_inv peer n (es @ [e]) s'"
proof -
  have "set es \<subseteq> set (es @ [e])" by auto
  from history_grows(3) [OF this] net_invD(5) [OF assms(1)] assms(2)
  have "\<exists>x ret out. replied n (es @ [e]) x ret out \<and> reply_of pdu = Some \<lparr>rp_xid = x, rp_ret = ret\<rparr> \<and> at_body (reply_un pdu) out"
    if "Client (Reply pdu) \<in> set (es @ [e])" for pdu using that by (simp del: not_None_eq) blast
  with assms(3-5) show ?thesis by (simp add: net_inv_def)
qed

lemma client_stays:
  "net_inv peer n es s \<Longrightarrow> client_net n (es @ [e]) (client s)"
  using client_net_move [of n es "client s" "client s" "es @ [e]"] by (simp add: net_invD subset_insertI)

lemma server_stays:
  "net_inv peer n es s \<Longrightarrow> server_inv peer n (es @ [e]) (fst (server s)) (snd (server s))"
  by (rule server_inv_grows [OF net_invD(4)]) auto

lemma begun_below:
  assumes "clt_inv cs c" "length (begun cs) < 2 ^ 32 - 1" "x \<in> set (begun cs)"
  shows "x < next_xid (clt c)"
proof -
  define k where "k = length (begun cs)"
  from assms(1) have "begun cs = map of_nat [1..<Suc k]" and n: "next_xid (clt c) = of_nat (Suc k)"
    unfolding k_def clt_inv_def by blast+
  from this(1) have "set (begun cs) = set (map of_nat [1..<Suc k])" by (rule arg_cong)
  with assms(3) obtain i where i: "i < Suc k" "x = of_nat i" by (auto simp del: upt_Suc)
  with n assms(2) show ?thesis unfolding k_def by (simp add: word_less_nat_alt unat_of_nat del: of_nat_Suc)
qed

lemma requested_begun: "requested n es h args \<Longrightarrow> rq_xid h \<in> set (begun (client_part es))"
proof -
  assume "requested n es h args"
  then obtain a msg where "Begun a (rq_xid h) msg \<in> set (client_part es)" by (auto simp: requested_def client_part_set)
  then have "set (given_out (Begun a (rq_xid h) msg)) \<subseteq> set (begun (client_part es))" unfolding begun_def by (auto simp del: given_out.simps)
  then show ?thesis by simp
qed

text \<open>What arrives is what the receiver relies on.\<close>

lemma own_arrival:
  assumes "is_message n es bs" "peer c = n"
  shows "arrival_ok peer n es c (wire junk (length bs) bs)"
proof -
  from assms(1) obtain h args where h: "requested n es h args" "carries bs (enc_req_header h) args" by (auto simp: is_message_def)
  from carries_request [OF h(2)] obtain u where "unpack_req_header (unmarshall_of (wire junk (length bs) bs)) = (h, u)" "at_body u args" by blast
  with h(1) assms(2) show ?thesis by (auto simp: arrival_ok_def client_ok_def requested_def)
qed

lemma reply_arrival:
  assumes "is_reply n es bs"
  shows "\<exists>x ret out. replied n es x ret out \<and> reply_of (wire junk (length bs) bs) = Some \<lparr>rp_xid = x, rp_ret = ret\<rparr> \<and>
     at_body (reply_un (wire junk (length bs) bs)) out"
  using assms carries_reply unfolding is_reply_def by blast

fun client_moves :: "net_event \<Rightarrow> clt_sys \<Rightarrow> clt_sys \<Rightarrow> bool" where
  "client_moves (Client e) c c' = clt_step c e c'"
| "client_moves e c c' = (c' = c)"

lemma net_step_ok:
  assumes "net_step peer n s e s'" "net_inv peer n es s" "n \<noteq> 0" "length (begun (client_part (es @ [e]))) < 2 ^ 32 - 1"
  shows "net_inv peer n (es @ [e]) s' \<and> client_moves e (client s) (client s') \<and>
     (case server_of e of [] \<Rightarrow> server s' = server s | d # ds \<Rightarrow> ds = [] \<and> disp_step (server s) d (server s'))"
proof -
  note inv = net_invD [OF assms(2)]
  have sg: "set es \<subseteq> set (es @ [e])" by auto
  have arrives: ?thesis if "e = Arrives c pdu" "arrival_ok peer n es c pdu" "server s = (rs, js)"
    "dispatch_begin c pdu rs = Inr (new, rs')" "s' = s\<lparr>server := (rs', case new of None \<Rightarrow> js | Some j \<Rightarrow> js @ [j])\<rparr>" for c pdu rs js new rs'
  proof -
    from that(2) have "client_ok pdu" by (simp add: arrival_ok_def)
    from disp_step.begins [OF this that(4)] that(1,3,5)
    have "disp_step (server s) (Begins c pdu) (server s')" by simp
    moreover from begin_server [OF that(4,2) _ assms(3)] inv(4) that(3,5)
    have "server_inv peer n es (fst (server s')) (snd (server s'))" by simp
    then have "server_inv peer n (es @ [e]) (fst (server s')) (snd (server s'))" by (rule server_inv_grows) auto
    ultimately show ?thesis
      using net_inv_moves [OF assms(2), of e s'] client_stays [OF assms(2), of e] inv(1) that(1,5) by simp
  qed
  show ?thesis using assms(1)
  proof (cases rule: net_step.cases)
    case (client_acts e' t)
    from client_step [OF client_acts(3) inv(1)] assms(4) client_acts(1) have "client_inv (client_part (es @ [e])) t" by simp
    with client_net_step [OF client_acts(3) inv(3,2)] client_acts server_stays [OF assms(2), of e]
    show ?thesis using net_inv_moves [OF assms(2), of e s'] by simp
  next
    case (reply_arrives c bs pdu junk st)
    from inv(4) reply_arrives(3,4) have "is_reply n es bs" by (auto simp: server_inv_def)
    from reply_arrival [OF this, of junk] obtain x ret out where
      r: "replied n es x ret out" "reply_of pdu = Some \<lparr>rp_xid = x, rp_ret = ret\<rparr>" "at_body (reply_un pdu) out"
      using reply_arrives(5) by blast
    from ran_requested [OF r(1)] obtain h args where "requested n es h args" "rq_xid h = x" by blast
    with requested_begun begun_below [OF inv(2)] assms(4) reply_arrives(1) have "x < next_xid (clt (client s))" by fastforce
    with r(2) clt_step.replies [OF reply_arrives(6)] have step: "clt_step (client s) (Reply pdu) (client s')"
      by (simp add: reply_arrives(2))
    with client_step [OF step inv(1)] assms(4) reply_arrives(1) have c: "client_inv (client_part (es @ [e])) (client s')" by simp
    have "\<exists>x ret out. replied n (es @ [e]) x ret out \<and> reply_of p = Some \<lparr>rp_xid = x, rp_ret = ret\<rparr> \<and> at_body (reply_un p) out"
      if "Client (Reply p) \<in> set (es @ [e])" for p
    proof (cases "Client (Reply p) \<in> set es")
      case True
      with inv(5) history_grows(3) [OF sg] show ?thesis by blast
    next
      case False
      with that reply_arrives(1) have "p = pdu" by simp
      with r history_grows(3) [OF sg] show ?thesis by blast
    qed
    with c client_net_step [OF step inv(3,2)] server_stays [OF assms(2), of e] step reply_arrives(1,2)
    show ?thesis by (simp add: net_inv_def)
  next
    case (request_arrives d bs c pdu junk rs js new rs')
    from inv(3) request_arrives(3) have "is_message n es bs" by (auto simp: client_net_def)
    from own_arrival [where peer = peer and c = c and junk = junk, OF this request_arrives(4)] show ?thesis
      using arrives [OF request_arrives(1) _ request_arrives(6,7,2)] request_arrives(5) by simp
  next
    case (other_arrives c pdu rs js new rs')
    from other_arrives(3-5) have "arrival_ok peer n es c pdu"
      by (auto simp: arrival_ok_def own_nonce_def split: prod.splits)
    from arrives [OF other_arrives(1) this other_arrives(6,7,2)] show ?thesis .
  next
    case (runs rs xs j ys b rs' s'' ret rep out)
    from end_server [OF runs(5,4) _ assms(3) runs(6,7,1)] inv(4) runs(3)
    have "server_inv peer n (es @ [e]) rs' (xs @ ys)" by simp
    moreover from disp_step.ends [OF runs(4,5)] have "disp_step (server s) (Runs (fst (job_key j)) (snd (job_key j))) (server s')"
      by (simp add: runs(2,3))
    ultimately show ?thesis
      using net_inv_moves [OF assms(2), of e s'] client_stays [OF assms(2), of e] inv(1) runs(1,2) by simp
  next
    case (elsewhere rs js h)
    from server_stays [OF assms(2), of e] elsewhere(3) have "server_inv peer n (es @ [e]) (rs\<lparr>heap := h\<rparr>) js"
      by (simp add: server_inv_def)
    moreover have "disp_step (server s) Outside (server s')" by (simp add: elsewhere(2,3) disp_step.outside)
    ultimately show ?thesis
      using net_inv_moves [OF assms(2), of e s'] client_stays [OF assms(2), of e] inv(1) elsewhere(1,2) by simp
  qed
qed


lemma net_run_ok:
  assumes "net_run peer n s0 es s" "s0 = net_init n nonce cnt ps a" "n \<noteq> 0" "length (begun (client_part es)) < 2 ^ 32 - 1"
  shows "net_inv peer n es s \<and> clt_run (clt_init True n) (client_part es) (client s) \<and>
     disp_run (rpcs_new nonce cnt a\<lparr>procs := ps\<rparr>, []) (server_part es) (server s)"
  using assms
proof (induction rule: net_run.induct)
  case net_start
  then show ?case
    by (simp add: net_inv_def net_init_def client_init init_server client_net_def clt_run.clt_start disp_run.at_start)
      (simp add: clt_init_def rpcc_new_def)
next
  case (net_next es s e s')
  then have IH: "net_inv peer n es s" "clt_run (clt_init True n) (client_part es) (client s)"
    "disp_run (rpcs_new nonce cnt a\<lparr>procs := ps\<rparr>, []) (server_part es) (server s)" by simp_all
  from net_step_ok [OF net_next.hyps(2) IH(1) net_next.prems(2,3)]
  have ok: "net_inv peer n (es @ [e]) s'" "client_moves e (client s) (client s')"
    "case server_of e of [] \<Rightarrow> server s' = server s | d # ds \<Rightarrow> ds = [] \<and> disp_step (server s) d (server s')" by simp_all
  have "clt_run (clt_init True n) (client_part (es @ [e])) (client s')"
    using clt_run.clt_next [OF IH(2)] IH(2) ok(2) by (cases e) simp_all
  moreover have "disp_run (rpcs_new nonce cnt a\<lparr>procs := ps\<rparr>, []) (server_part (es @ [e])) (server s')"
    using disp_run.next_disp [OF IH(3)] IH(3) ok(3) by (cases e) simp_all
  ultimately show ?case using ok(1) by blast
qed

lemma answer_from_reply:
  "answer x cs = Answered r p \<Longrightarrow> r = cancel_failure \<or>
     (\<exists>pdu h. p = Some pdu \<and> Reply pdu \<in> set cs \<and> reply_of pdu = Some h \<and> rp_xid h = x \<and> rp_ret h = r)"
proof (induction cs arbitrary: r p rule: rev_induct)
  case Nil
  then show ?case by (simp add: answer_def)
next
  case (snoc e cs)
  then show ?case
  proof (cases "answer x cs")
    case Unanswered
    with snoc.prems show ?thesis by (cases e) (auto split: option.splits if_splits)
  next
    case (Answered r' p')
    with snoc.IH [OF this] snoc.prems show ?thesis by (cases e) (auto split: if_splits)
  qed
qed

lemma runs_counted:
  "length (filter (\<lambda>e. e = Runs n x) (server_part es)) = length (filter (\<lambda>e. server_of e = [Runs n x]) es)"
proof (induction es)
  case (Cons e es)
  then show ?case by (cases e) auto
qed simp

lemma single_filter: "length (filter P xs) \<le> 1 \<Longrightarrow> x \<in> set xs \<Longrightarrow> P x \<Longrightarrow> filter P xs = [x]"
  by (induction xs) (auto simp: filter_empty_conv split: if_splits)

lemma run_once:
  assumes "net_run peer n (net_init n nonce cnt ps a) es s" "n \<noteq> 0" "length (begun (client_part es)) < 2 ^ 32 - 1"
  shows "length (filter (\<lambda>e. server_of e = [Runs n x]) es) \<le> 1"
  using runs_at_most_once [OF net_run_ok [OF assms(1) refl assms(2,3), THEN conjunct2, THEN conjunct2] assms(2), of x]
  by (simp add: runs_counted)

section \<open>A call over a network that works\<close>

text \<open>
  The first call of a client that is bound: its request is sent on a new connection, arrives,
  is run and answered, the answer arrives, and the call returns.
\<close>

definition bound_client :: "u32 \<Rightarrow> u32 \<Rightarrow> rpcc" where
  "bound_client n nonce = (rpcc_new True n)\<lparr>bind_done := True, cl_srv_nonce := nonce\<rparr>"

definition first_header :: "u32 \<Rightarrow> u32 \<Rightarrow> i32 \<Rightarrow> req_header" where
  "first_header n nonce p = \<lparr>rq_xid = 1, rq_proc = p, rq_clt_nonce = n, rq_srv_nonce = nonce, rq_xid_rep = 0\<rparr>"

lemma client_sends_first:
  assumes "p \<noteq> rpc_bind" "body req args"
  shows "\<exists>msg c fin. clt_run (clt_init True n) [Bound 0 nonce, Begun 0 1 msg, Local 0] c \<and>
     cl_sends (clt c) = [(3, written msg)] \<and> sent msg (enc_req_header (first_header n nonce p)) args \<and>
     threads c 0 = Top msg (Some 3) False to_min fin \<and> ts_sec fin = 0 \<and> callers (clt c) 0 = Some (caller_new 1 unmarshall_empty) \<and>
     pack_req_header (first_header n nonce p) req = Inr msg"
proof -
  let ?h = "first_header n nonce p"
  from pack_req_header_sent [OF assms(2), of ?h] obtain msg where
    m: "pack_req_header ?h req = Inr msg" "sent msg (enc_req_header ?h) args" by blast
  let ?c1 = "(clt_init True n)\<lparr>clt := bound_client n nonce\<rparr>"
  have 1: "clt_step (clt_init True n) (Bound 0 nonce) ?c1"
    by (rule clt_step.bound) (simp add: bind_end_def bound_client_def clt_init_def)
  let ?b = "(bound_client n nonce)\<lparr>next_xid := 2, callers := [0 \<mapsto> caller_new 1 unmarshall_empty], calls := [(1, 0)]\<rparr>"
  let ?fin = "\<lparr>ts_sec = 0, ts_nsec = 0\<rparr>"
  let ?c2 = "?c1\<lparr>clt := ?b, threads := (\<lambda>_. Idle)(0 := Top msg None True to_min ?fin)\<rparr>"
  have "call_begin 0 p req unmarshall_empty (clt ?c1) = Inr (Inr msg, ?b)"
    using m(1) assms(1)
    by (simp add: call_begin_def bound_client_def first_header_def rpcc_new_def xid_rep_window_init_def Let_def)
  moreover have "add_timespec ?fin 0 = Inr ?fin"
    by (simp add: add_timespec_def signed_divide_int_def signed_modulo_int_def carry_nsec.simps)
  ultimately have "clt_step ?c1 (Begun 0 (next_xid (clt ?c1)) msg) (?c1\<lparr>clt := ?b, threads := (threads ?c1)(0 := Top msg None True to_min ?fin)\<rparr>)"
    by (intro clt_step.begins [OF _ assms(2)]) (simp_all add: clt_init_def)
  then have 2: "clt_step ?c1 (Begun 0 1 msg) ?c2" by (simp add: clt_init_def bound_client_def rpcc_new_def)
  let ?t = "?b\<lparr>cl_heap := [3 \<mapsto> (connection_new 4 0 (0, 0))\<lparr>cn_refno := 2\<rparr>], chan := Some 3, cl_sends := [(3, written msg)]\<rparr>"
  have "transmit (Some (3, connection_new 4 0 (0, 0))) None msg ?b = Inr (Some 3, ?t)"
    by (simp add: transmit_def get_refconn_def renew_chan_def bound_client_def rpcc_new_def incref_def connection_new_def)
  moreover have "fresh_conn_of (Some (3, connection_new 4 0 (0, 0))) (cl_heap (clt ?c2))"
    by (simp add: fresh_conn_of_def bound_client_def rpcc_new_def connection_new_def)
  ultimately have 3: "clt_step ?c2 (Local 0) (?c2\<lparr>clt := ?t, threads := (threads ?c2)(0 := Top msg (Some 3) False to_min ?fin)\<rparr>)"
    by (intro clt_step.transmits [of _ 0 msg None to_min ?fin]) simp_all
  from clt_run_Cons [OF 1 clt_run_Cons [OF 2 clt_run_Cons [OF 3 clt_run.clt_start]]] m
  show ?thesis by (intro exI conjI) (assumption | simp add: bound_client_def rpcc_new_def)+
qed

text \<open>The server: the connection has a reference of the poll manager and one of the job.\<close>

definition served_heap :: "nat \<Rightarrow> conn_heap" where
  "served_heap c = (\<lambda>_. None)(c \<mapsto> (connection_new 5 0 (0, 0))\<lparr>cn_refno := 2\<rparr>)"

lemma server_begins_first:
  assumes "unpack_req_header (unmarshall_of pdu) = (first_header n nonce p, u)" "uok u" "n \<noteq> 0" "ps p = Some f"
  shows "\<exists>rs. dispatch_begin c pdu ((rpcs_new nonce 0 a\<lparr>procs := ps\<rparr>)\<lparr>heap := served_heap c\<rparr>) =
       Inr (Some \<lparr>jb_conn = c, jb_header = first_header n nonce p, jb_args = u, jb_handler = f\<rparr>, rs) \<and>
     live (replies rs) = (\<lambda>_. False) \<and> counting rs = 0 \<and> app rs = a \<and> sends rs = [] \<and>
     heap rs = (\<lambda>_. None)(c \<mapsto> (connection_new 5 0 (0, 0))\<lparr>cn_refno := 3\<rparr>)"
  using assms
  by (simp add: dispatch_begin_def first_header_def rpcs_new_def find_window_def window_of_def
      reply_state_init_def note_conn_def on_heap_def incref_def served_heap_def
      checkduplicate_and_update_def set_window_def)

lemma server_ends_first:
  assumes "live (replies rs) = (\<lambda>_. False)" "counting rs = 0" "app rs = a" "sends rs = []"
    "heap rs = (\<lambda>_. None)(c \<mapsto> (connection_new 5 0 (0, 0))\<lparr>cn_refno := 3\<rparr>)"
    and "f a u marshall_new = Inr (a', ret, rep)" "0 \<le>s ret" "body rep out" "n \<noteq> 0"
  shows "\<exists>rs' m. dispatch_end 0 \<lparr>jb_conn = c, jb_header = first_header n nonce p, jb_args = u, jb_handler = f\<rparr> rs = Inr rs' \<and>
     app rs' = a' \<and> sends rs' = [(c, written m)] \<and> sent m (enc_reply_header \<lparr>rp_xid = 1, rp_ret = ret\<rparr>) out"
proof -
  from pack_reply_header_sent [OF assms(8), of "\<lparr>rp_xid = 1, rp_ret = ret\<rparr>"] obtain m where
    "pack_reply_header \<lparr>rp_xid = 1, rp_ret = ret\<rparr> rep = Inr m" "sent m (enc_reply_header \<lparr>rp_xid = 1, rp_ret = ret\<rparr>) out" by blast
  with assms show ?thesis
    by (simp add: dispatch_end_def first_header_def count_request_def keep_reply_def take_buf_def latest_conn_def
        isdead_def on_heap_def decref_def Let_def connection_new_def send_on_def add_reply_def word_neq_0_conv) blast
qed


lemma client_runs:
  "clt_run c0 cs c \<Longrightarrow> \<forall>pdu. Reply pdu \<notin> set cs \<Longrightarrow> client s0 = c0 \<Longrightarrow>
     net_run peer n s0 (map Client cs) (s0\<lparr>client := c\<rparr>)"
proof (induction rule: clt_run.induct)
  case (clt_start c0)
  then have "s0\<lparr>client := c0\<rparr> = s0" by (cases s0) simp
  then show ?case using net_run.net_start [of peer n s0] by simp
next
  case (clt_next c0 cs c e c')
  then have "net_run peer n s0 (map Client cs) (s0\<lparr>client := c\<rparr>)" by simp
  moreover from clt_next.hyps(2) clt_next.prems(1) net_step.client_acts [of "s0\<lparr>client := c\<rparr>" e c' peer n]
  have "net_step peer n (s0\<lparr>client := c\<rparr>) (Client e) (s0\<lparr>client := c'\<rparr>)" by auto
  ultimately show ?case using net_run.net_next by fastforce
qed

lemma client_gets_first:
  assumes "clt_run (clt_init True n) cs c" "length (begun cs) < 2 ^ 32 - 1" "threads c 0 = Top msg ch False to_min fin" "ts_sec fin = 0"
    and "got_reply pdu (clt c) = Inr st" "reply_of pdu = Some \<lparr>rp_xid = x, rp_ret = ret\<rparr>" "x < next_xid (clt c)"
    and "callers (clt c) 0 = Some ca0"
  shows "\<exists>d. clt_run (clt_init True n) (cs @ [Reply pdu, Local 0]) d \<and> clt_step (c\<lparr>clt := st\<rparr>) (Local 0) d \<and>
     (\<exists>r un e. clt_step d (Returned 0 (ca_xid ca0) r un) e)"
proof -
  let ?c = "c\<lparr>clt := st\<rparr>"
  let ?d = "?c\<lparr>threads := (threads ?c)(0 := Leaves ch)\<rparr>"
  have 1: "clt_step c (Reply pdu) ?c" by (rule clt_step.replies [OF assms(5)]) (simp add: assms(6,7))
  have 2: "clt_step ?c (Local 0) ?d" by (rule clt_step.gives_up) (use assms(3,4) in simp_all)
  from clt_run_append [OF clt_run_Cons [OF 1 clt_run_Cons [OF 2 clt_run.clt_start]] assms(1)]
  have r: "clt_run (clt_init True n) (cs @ [Reply pdu, Local 0]) ?d" .
  from client_reachable [OF r] assms(2) have inv: "client_inv (cs @ [Reply pdu, Local 0]) ?d" by simp
  then have core: "core_inv (clt ?d)" and refs: "refs_inv ?d"
    unfolding client_inv_def clt_inv_def by blast+
  from client_reachable [OF assms(1,2)] have core0: "core_inv (clt c)" by (simp add: client_inv_def clt_inv_def)
  from got_reply_effect(1) [OF core0 assms(5), of 0] assms(6,8) obtain ca where ca: "callers (clt ?d) 0 = Some ca" "ca_xid ca = ca_xid ca0"
    by (auto split: if_splits)
  have "threads ?d 0 = Leaves ch" by simp
  from call_end_refs [OF refs this core ca(1), of "canceller ?d"] obtain ret un sig st' where
    "call_end 0 ch (clt ?d) = Inr (ret, un, sig, st')" by blast
  from clt_step.leaves [OF _ ca(1) this] 2 r ca(2) show ?thesis by fastforce
qed


lemma net_run_append: "net_run peer n s fs t \<Longrightarrow> net_run peer n s0 es s \<Longrightarrow> net_run peer n s0 (es @ fs) t"
proof (induction rule: net_run.induct)
  case (net_next fs t e u)
  from net_run.net_next [OF net_next.IH [OF net_next.prems] net_next.hyps(2)] show ?case by simp
qed simp

lemma server_serves_first:
  assumes "n \<noteq> 0" "ps p = Some f" "peer c = n" "\<And>u. at_body u args \<Longrightarrow> f a u marshall_new = Inr (a', ret, rep)" "0 \<le>s ret" "body rep out"
    and "cl_sends (clt c1) = [(3, written msg)]" "sent msg (enc_req_header (first_header n nonce p)) args"
  shows "\<exists>pdu rs m. net_run peer n ((net_init n nonce 0 ps a)\<lparr>client := c1\<rparr>) [Elsewhere, Arrives c pdu, Ran n 1 p args ret out]
        \<lparr>client = c1, server = (rs, [])\<rparr> \<and> app rs = a' \<and> sends rs = [(c, written m)] \<and>
     sent m (enc_reply_header \<lparr>rp_xid = 1, rp_ret = ret\<rparr>) out"
proof -
  define rs0 where "rs0 = (rpcs_new nonce 0 a\<lparr>procs := ps\<rparr>)\<lparr>heap := served_heap c\<rparr>"
  let ?s = "\<lambda>rs js. \<lparr>client = c1, server = (rs, js)\<rparr>"
  have 1: "net_step peer n ((net_init n nonce 0 ps a)\<lparr>client := c1\<rparr>) Elsewhere (?s rs0 [])"
    using net_step.elsewhere [of "(net_init n nonce 0 ps a)\<lparr>client := c1\<rparr>" "rpcs_new nonce 0 a\<lparr>procs := ps\<rparr>" "[]" peer n "served_heap c"]
    by (simp add: net_init_def rs0_def)
  let ?pdu = "wire (\<lambda>_. 0) (length (written msg)) (written msg)"
  from carries_request [OF sent_carries(1) [OF assms(8)], of "\<lambda>_. 0"] obtain u where
    u: "unpack_req_header (unmarshall_of ?pdu) = (first_header n nonce p, u)" "at_body u args" by auto
  let ?j = "\<lparr>jb_conn = c, jb_header = first_header n nonce p, jb_args = u, jb_handler = f\<rparr>"
  from server_begins_first [where ps = ps and f = f and n = n and nonce = nonce and p = p and u = u and c = c and a = a, OF u(1) _ assms(1,2)] u(2)
  obtain rs1 where
    rs1: "dispatch_begin c ?pdu rs0 = Inr (Some ?j, rs1)" "live (replies rs1) = (\<lambda>_. False)" "counting rs1 = 0" "app rs1 = a" "sends rs1 = []"
      "heap rs1 = (\<lambda>_. None)(c \<mapsto> (connection_new 5 0 (0, 0))\<lparr>cn_refno := 3\<rparr>)" by (auto simp: at_body_def rs0_def)
  have 2: "net_step peer n (?s rs0 []) (Arrives c ?pdu) (?s rs1 [?j])"
    using net_step.request_arrives [of 3 "written msg" "?s rs0 []" peer c n ?pdu "\<lambda>_. 0" rs0 "[]" "Some ?j" rs1] assms(3,7) rs1(1) by simp
  from server_ends_first [of rs1 a c f u, OF rs1(2-6) assms(4) [OF u(2)] assms(5,6,1), of nonce p] obtain rs2 m where
    rs2: "dispatch_end 0 ?j rs1 = Inr rs2" "app rs2 = a'" "sends rs2 = [(c, written m)]" "sent m (enc_reply_header \<lparr>rp_xid = 1, rp_ret = ret\<rparr>) out" by blast
  have 3: "net_step peer n (?s rs1 [?j]) (Ran n 1 p args ret out) (?s rs2 [])"
    using net_step.runs [of "?s rs1 [?j]" rs1 "[]" ?j "[]" 0 rs2 a' ret rep out peer n] rs1(2,4) rs2(1) assms(4) [OF u(2)] assms(6) u(2)
    by (simp add: job_key_def first_header_def at_body_def)
  from net_run.net_next [OF net_run.net_next [OF net_run.net_next [OF net_run.net_start 1] 2] 3] rs2(2-4) show ?thesis
    by (intro exI [of _ ?pdu] exI [of _ rs2] exI [of _ m]) simp
qed

lemma first_call:
  assumes "n \<noteq> 0" "p \<noteq> rpc_bind" "ps p = Some f" "body req args" "peer c = n"
    and "\<And>u. at_body u args \<Longrightarrow> f a u marshall_new = Inr (a', ret, rep)" "0 \<le>s ret" "body rep out"
  shows "\<exists>es s s' un msg. net_run peer n (net_init n nonce 0 ps a) es s \<and>
     net_step peer n s (Client (Returned 0 1 ret un)) s' \<and> begun (client_part es) = [1] \<and> app (fst (server s')) = a' \<and> at_body un out \<and>
     Client (Begun 0 1 msg) \<in> set es \<and> pack_req_header (first_header n nonce p) req = Inr msg"
proof -
  let ?s0 = "net_init n nonce 0 ps a"
  from client_sends_first [OF assms(2,4), of n nonce] obtain msg c1 fin where
    c1: "clt_run (clt_init True n) [Bound 0 nonce, Begun 0 1 msg, Local 0] c1" "cl_sends (clt c1) = [(3, written msg)]"
      "sent msg (enc_req_header (first_header n nonce p)) args" "threads c1 0 = Top msg (Some 3) False to_min fin" "ts_sec fin = 0"
      "callers (clt c1) 0 = Some (caller_new 1 unmarshall_empty)" "pack_req_header (first_header n nonce p) req = Inr msg" by blast
  from client_runs [OF c1(1), of ?s0 peer n]
  have r1: "net_run peer n ?s0 [Client (Bound 0 nonce), Client (Begun 0 1 msg), Client (Local 0)] (?s0\<lparr>client := c1\<rparr>)"
    by (simp add: net_init_def)
  from server_serves_first [where peer = peer and c = c and ps = ps and p = p and f = f and a = a, OF assms(1,3,5-8) c1(2,3)] obtain pdu rs m where
    r2: "net_run peer n (?s0\<lparr>client := c1\<rparr>) [Elsewhere, Arrives c pdu, Ran n 1 p args ret out] \<lparr>client = c1, server = (rs, [])\<rparr>"
    and rs: "app rs = a'" "sends rs = [(c, written m)]" "sent m (enc_reply_header \<lparr>rp_xid = 1, rp_ret = ret\<rparr>) out" by blast
  let ?rep = "wire (\<lambda>_. 0) (length (written m)) (written m)"
  note cr = carries_reply [OF sent_carries(1) [OF rs(3), simplified], of "\<lambda>_. 0"]
  from client_reachable [OF c1(1)] have inv: "core_inv (clt c1)" "next_xid (clt c1) = 2" by (simp_all add: client_inv_def clt_inv_def)
  from got_reply_delivers [OF inv(1) cr(1)] obtain st where st: "got_reply ?rep (clt c1) = Inr st" by blast
  from client_gets_first [OF c1(1) _ c1(4,5) st cr(1) _ c1(6)] inv(2) obtain d r un e where
    d: "clt_run (clt_init True n) ([Bound 0 nonce, Begun 0 1 msg, Local 0] @ [Reply ?rep, Local 0]) d"
      "clt_step (c1\<lparr>clt := st\<rparr>) (Local 0) d" "clt_step d (Returned 0 1 r un) e" by (auto simp: caller_new_def)
  from returned_answer [OF d(1,3)] cr(1) have r: "r = ret" "un = reply_un ?rep" by (simp_all add: answer_def)
  let ?s = "\<lambda>c. \<lparr>client = c, server = (rs, [])\<rparr>"
  have 3: "net_step peer n (?s c1) (Client (Reply ?rep)) (?s (c1\<lparr>clt := st\<rparr>))"
    using net_step.reply_arrives [of c "written m" "?s c1" peer n ?rep "\<lambda>_. 0" st] rs(2) assms(5) st by simp
  have 4: "net_step peer n (?s (c1\<lparr>clt := st\<rparr>)) (Client (Local 0)) (?s d)"
    using net_step.client_acts [of "?s (c1\<lparr>clt := st\<rparr>)" "Local 0" d peer n] d(2) by simp
  have 5: "net_step peer n (?s d) (Client (Returned 0 1 ret un)) (?s e)"
    using net_step.client_acts [of "?s d" "Returned 0 1 r un" e peer n] d(3) r(1) by simp
  from net_run.net_next [OF net_run.net_next [OF net_run_append [OF r2 r1] 3] 4] 5 rs(1) r(2) cr(2) c1(7) show ?thesis
    by (intro exI conjI) (assumption | simp)+
qed

section \<open>What ran is what was registered\<close>

definition handled :: "(i32 \<Rightarrow> 's handler option) \<Rightarrow> i32 \<Rightarrow> u8 list \<Rightarrow> i32 \<Rightarrow> u8 list \<Rightarrow> bool" where
  "handled ps p args ret out \<longleftrightarrow> (\<exists>f a a' u rep. ps p = Some f \<and> at_body u args \<and> f a u marshall_new = Inr (a', ret, rep) \<and> body rep out)"

definition jobs_registered :: "(i32 \<Rightarrow> 's handler option) \<Rightarrow> 's rpcs \<times> 's job list \<Rightarrow> bool" where
  "jobs_registered ps v \<longleftrightarrow> procs (fst v) = ps \<and> (\<forall>j \<in> set (snd v). ps (rq_proc (jb_header j)) = Some (jb_handler j))"

lemma begin_procs: "dispatch_begin c pdu rs = Inr (new, rs') \<Longrightarrow> procs rs' = procs rs"
  by (auto simp: dispatch_begin_def Let_def andthen_Inr_iff send_on_def split: prod.splits if_splits option.splits
      dest!: on_heap_core note_conn_core answer_duplicate_core) (auto simp: same_core_def)

lemma end_procs: "dispatch_end b j rs = Inr rs' \<Longrightarrow> procs rs' = procs rs"
  by (erule dispatch_endE) (auto simp: same_core_def keep_reply_def take_buf_def send_on_def split: if_splits dest!: on_heap_core)

lemma jobs_begin:
  assumes "jobs_registered ps (rs, js)" "dispatch_begin c pdu rs = Inr (new, rs')"
  shows "jobs_registered ps (rs', case new of None \<Rightarrow> js | Some j \<Rightarrow> js @ [j])"
  using assms begin_procs [OF assms(2)] by (auto simp: jobs_registered_def split: option.split elim: begin_job)

lemma ran_is_handled:
  assumes "net_run peer n s0 es s" "s0 = net_init n nonce cnt ps a" "n \<noteq> 0" "length (begun (client_part es)) < 2 ^ 32 - 1"
  shows "jobs_registered ps (server s) \<and> (\<forall>x p args ret out. Ran n x p args ret out \<in> set es \<longrightarrow> handled ps p args ret out)"
  using assms
proof (induction rule: net_run.induct)
  case net_start
  then show ?case by (simp add: jobs_registered_def net_init_def)
next
  case (net_next es s e s')
  then have IH: "jobs_registered ps (server s)" "\<And>x p args ret out. Ran n x p args ret out \<in> set es \<Longrightarrow> handled ps p args ret out" by simp_all
  from net_run_ok [OF net_next.hyps(1) net_next.prems(1,2)] net_next.prems(3)
  have inv: "server_inv peer n es (fst (server s)) (snd (server s))" by (simp add: net_inv_def)
  from net_next.hyps(2) show ?case
  proof (cases rule: net_step.cases)
    case (runs rs xs j ys b rs' a' ret rep out)
    from IH(1) have "jobs_registered ps (rs', xs @ ys)" using end_procs [OF runs(5)] by (auto simp: jobs_registered_def runs(3))
    moreover have "handled ps p args r o1" if p: "Ran n x p args r o1 = e" for x p args r o1
    proof -
      from inv have "job_ok peer n es j" by (simp add: runs(3) server_inv_def)
      with p runs(1) have "at_body (jb_args j) args" by (auto simp: job_ok_def job_key_def at_body_def)
      moreover from IH(1) have "ps (rq_proc (jb_header j)) = Some (jb_handler j)" by (simp add: jobs_registered_def runs(3))
      ultimately show ?thesis using p runs(1,6,7) by (auto simp: handled_def)
    qed
    ultimately show ?thesis using IH(2) runs(2) by auto
  next
    case (request_arrives d bs c pdu junk rs js new rs')
    with IH(2) jobs_begin [of ps rs js c pdu new rs'] IH(1) show ?thesis by simp
  next
    case (other_arrives c pdu rs js new rs')
    with IH(2) jobs_begin [of ps rs js c pdu new rs'] IH(1) show ?thesis by simp
  qed (use IH in \<open>simp_all add: jobs_registered_def\<close>)
qed


lemma call_ran:
  assumes "net_run peer n (net_init n nonce cnt ps a) es s" "n \<noteq> 0" "length (begun (client_part es)) < 2 ^ 32 - 1"
    and "net_step peer n s (Client (Returned t x ret un)) s'"
  shows "length (filter (\<lambda>e. server_of e = [Runs n x]) es) \<le> 1 \<and>
    (0 \<le>s ret \<longrightarrow> (\<exists>h args out b msg. Client (Begun b x msg) \<in> set es \<and> sent msg (enc_req_header h) args \<and> at_body un out \<and>
       filter (\<lambda>e. server_of e = [Runs n x]) es = [Ran n x (rq_proc h) args ret out]))"
proof -
  note ok = net_run_ok [OF assms(1) refl assms(2,3)]
  have once: "length (filter (\<lambda>e. server_of e = [Runs n x]) es) \<le> 1" by (rule run_once [OF assms(1-3)])
  moreover have "\<exists>h args out b msg. Client (Begun b x msg) \<in> set es \<and> sent msg (enc_req_header h) args \<and> at_body un out \<and>
       filter (\<lambda>e. server_of e = [Runs n x]) es = [Ran n x (rq_proc h) args ret out]" if ret: "0 \<le>s ret"
  proof -
  from assms(4) obtain c where "clt_step (client s) (Returned t x ret un) c" by (cases rule: net_step.cases) auto
  from returned_answer [OF ok [THEN conjunct2, THEN conjunct1] this assms(3)]
  have a: "case answer x (client_part es) of Unanswered \<Rightarrow> ret = timeout_failure
     | Answered r p \<Rightarrow> ret = r \<and> (case p of None \<Rightarrow> True | Some pdu \<Rightarrow> un = reply_un pdu)" .
  have neg: "ret \<noteq> timeout_failure" "ret \<noteq> cancel_failure" "ret \<noteq> atmostonce_failure" "ret \<noteq> oldsrv_failure"
    using ret by (auto simp: rpc_const_defs word_sle_eq)
  with a obtain p where p: "answer x (client_part es) = Answered ret p" by (auto split: verdict.splits)
  from answer_from_reply [OF this] neg obtain pdu h where
    h: "p = Some pdu" "Client (Reply pdu) \<in> set es" "reply_of pdu = Some h" "rp_xid h = x" "rp_ret h = ret"
    by (auto simp: client_part_set)
  from net_invD(5) [OF ok [THEN conjunct1] h(2)] h(3-5) obtain out where
    r: "replied n es x ret out" "at_body (reply_un pdu) out" by auto
  from r(1) neg have "ran n es x ret out" by (auto simp: replied_def)
  then obtain hd args where q: "requested n es hd args" "rq_xid hd = x" "Ran n x (rq_proc hd) args ret out \<in> set es"
    by (auto simp: ran_def)
  from single_filter [OF once q(3)] have "filter (\<lambda>e. server_of e = [Runs n x]) es = [Ran n x (rq_proc hd) args ret out]" by simp
  with q a p h(1) r(2) show ?thesis by (auto simp: requested_def)
  qed
  ultimately show ?thesis by blast
qed

lemma distinct_concat_unique:
  "distinct (concat (map f xs)) \<Longrightarrow> d \<in> set xs \<Longrightarrow> e \<in> set xs \<Longrightarrow> x \<in> set (f d) \<Longrightarrow> x \<in> set (f e) \<Longrightarrow> d = e"
  by (induction xs) auto

lemma begun_once:
  assumes "clt_inv cs c" "length (begun cs) < 2 ^ 32 - 1" "Begun b x msg \<in> set cs" "Begun b' x msg' \<in> set cs"
  shows "msg = msg'"
proof -
  from assms(1) have "begun cs = map of_nat [1..<Suc (length (begun cs))]" unfolding clt_inv_def by blast
  with xids_distinct [OF assms(2)] have "distinct (begun cs)" by (simp only:)
  from distinct_concat_unique [OF this [unfolded begun_def] assms(3,4), of x] show ?thesis by simp
qed

lemma sent_unique:
  assumes "sent m (enc_req_header h) args" "sent m (enc_req_header h') args'"
  shows "h = h'" "args = args'"
proof -
  let ?w = "unmarshall_of (wire (\<lambda>_. 0) (length (written m)) (written m))"
  from carries_request [OF sent_carries(1) [OF assms(1)], of "\<lambda>_. 0"] obtain u where "unpack_req_header ?w = (h, u)" "at_body u args" by auto
  moreover from carries_request [OF sent_carries(1) [OF assms(2)], of "\<lambda>_. 0"] obtain v where "unpack_req_header ?w = (h', v)" "at_body v args'" by auto
  ultimately show "h = h'" "args = args'" by (simp_all add: at_body_def)
qed

lemma body_unique: "body m xs \<Longrightarrow> body m ys \<Longrightarrow> xs = ys"
  by (auto simp: body_def dest: map_injective)

lemma handled_method2:
  assumes "handled ps p (e1 a1 @ e2 a2) ret out" "ps p = Some (h1_fn2 g1 g2 pr meth)"
    and "codec p1 g1 e1 v1" "codec p2 g2 e2 v2" "v1 a1" "v2 a2" "RPC_HEADER_SZ + length (e1 a1 @ e2 a2) \<le> int_max"
  shows "\<exists>\<sigma> \<sigma>' r rep. meth a1 a2 \<sigma> = Inr (\<sigma>', ret, r) \<and> pr r marshall_new = Inr rep \<and> body rep out"
proof -
  from assms(1,2) obtain \<sigma> \<sigma>' u rep where u: "at_body u (e1 a1 @ e2 a2)" "h1_fn2 g1 g2 pr meth \<sigma> u marshall_new = Inr (\<sigma>', ret, rep)"
    "body rep out" by (auto simp: handled_def)
  have "gets (args2 g1 g2) (e1 a1 @ e2 a2 @ []) (a1, a2)"
    unfolding args2_def [abs_def] by (rule gets_andthen [OF codec.get_enc] gets_return assms)+
  with u(1,2) assms(7) have "andthen (meth a1 a2 \<sigma>) (\<lambda>(s, b, r). andthen (pr r marshall_new) (\<lambda>ret. Inr (s, b, ret))) = Inr (\<sigma>', ret, rep)"
    by (simp add: h1_fn2_def h1_run_hit [of u "e1 a1 @ e2 a2" _ "(a1, a2)"])
  with u(3) show ?thesis by (auto simp: andthen_Inr_iff)
qed

lemma reply_read:
  assumes "codec pr gr er vr" "vr r" "2 * (RPC_HEADER_SZ + length (er r)) \<le> int_max" "pr r marshall_new = Inr rep" "body rep out"
    and "at_body un out" "0 \<le>s ret"
  shows "call_m gr ret un r0 = Inr (ret, r)"
proof -
  from puts_new [OF codec.put_enc [OF assms(1,2)] assms(3)] assms(4) have "body rep (er r)" by simp
  with body_unique [OF assms(5)] have "at_body un (er r)" using assms(6) by simp
  then obtain u where "gr un = Inr (r, u)" "okdone u"
    using at_body_gets [OF _ codec.get_enc [OF assms(1,2)], of un] assms(3) by auto
  with assms(7) show ?thesis by (simp add: call_m_def word_sle_eq word_sless_alt)
qed

text \<open>A typed call of two arguments: which run its answer is from.\<close>

lemma call2_ran:
  assumes "net_run peer n (net_init n nonce cnt ps a) es s" "n \<noteq> 0" "length (begun (client_part es)) < 2 ^ 32 - 1"
    and "Client (Begun b x msg) \<in> set es" "call_req2 p1 p2 a1 a2 = Inr req" "pack_req_header h req = Inr msg"
    and "net_step peer n s (Client (Returned t x ret un)) s'" "0 \<le>s ret"
    and "codec p1 g1 e1 v1" "codec p2 g2 e2 v2" "v1 a1" "v2 a2"
    and "2 * (RPC_HEADER_SZ + (length (e1 a1) + length (e2 a2))) \<le> int_max"
  shows "\<exists>out. at_body un out \<and> handled ps (rq_proc h) (e1 a1 @ e2 a2) ret out \<and>
     filter (\<lambda>e. server_of e = [Runs n x]) es = [Ran n x (rq_proc h) (e1 a1 @ e2 a2) ret out]"
proof -
  have "puts (\<lambda>m. andthen (p1 a1 m) (p2 a2)) (e1 a1 @ e2 a2)" by (rule puts_andthen codec.put_enc assms)+
  from puts_new [OF this] assms(5,13) have "body req (e1 a1 @ e2 a2)" by (simp add: call_req2_def)
  from pack_req_header_sent [OF this, of h] assms(6) have msg: "sent msg (enc_req_header h) (e1 a1 @ e2 a2)" by simp
  from call_ran [OF assms(1-3,7)] assms(8) obtain h' args out b' msg' where
    c: "Client (Begun b' x msg') \<in> set es" "sent msg' (enc_req_header h') args" "at_body un out"
      "filter (\<lambda>e. server_of e = [Runs n x]) es = [Ran n x (rq_proc h') args ret out]" by blast
  from net_run_ok [OF assms(1) refl assms(2,3)] have "clt_inv (client_part es) (client s)"
    by (simp add: net_inv_def client_inv_def)
  from begun_once [OF this assms(3)] assms(4) c(1) have "msg' = msg" by (simp add: client_part_set)
  with sent_unique [OF msg] c(2) have h: "h' = h" "args = e1 a1 @ e2 a2" by simp_all
  from c(4) have "Ran n x (rq_proc h') args ret out \<in> set (filter (\<lambda>e. server_of e = [Runs n x]) es)" by simp
  with ran_is_handled [OF assms(1) refl assms(2,3)] h have "handled ps (rq_proc h) (e1 a1 @ e2 a2) ret out" by auto
  with c(3,4) h show ?thesis by auto
qed

section \<open>Properties\<close>

text \<open>
  C12: the two endpoints fit. What \<open>rpcs\<close> relies on of its clients holds of everything \<open>rpcc\<close>
  sends, and what \<open>rpcc\<close> relies on of the server holds of everything \<open>rpcs\<close> answers: every
  history of the two over a network that loses, repeats and reorders is, for each of them, a
  history of its own model.
\<close>

theorem endpoints_fit:
  assumes "net_run peer n (net_init n nonce cnt ps a) es s" "n \<noteq> 0" "length (begun (client_part es)) < 2 ^ 32 - 1"
  shows "clt_run (clt_init True n) (client_part es) (client s) \<and>
     disp_run (rpcs_new nonce cnt a\<lparr>procs := ps\<rparr>, []) (server_part es) (server s)"
  using net_run_ok [OF assms(1) refl assms(2,3)] by blast

text \<open>
  C2: exactly once, end to end. In every history of client, network and server the handler for
  a call runs at most once; and when the call returns a code that is not negative, it ran
  exactly once, for the procedure and on the bytes that the call sent, and what the call
  returns is the code and the bytes of that run.
\<close>

theorem call_runs_exactly_once:
  assumes "net_run peer n (net_init n nonce cnt ps a) es s" "n \<noteq> 0" "length (begun (client_part es)) < 2 ^ 32 - 1"
    and "net_step peer n s (Client (Returned t x ret un)) s'"
  shows "length (filter (\<lambda>e. server_of e = [Runs n x]) es) \<le> 1 \<and>
    (0 \<le>s ret \<longrightarrow> (\<exists>h args out b msg. Client (Begun b x msg) \<in> set es \<and> sent msg (enc_req_header h) args \<and> at_body un out \<and>
       filter (\<lambda>e. server_of e = [Runs n x]) es = [Ran n x (rq_proc h) args ret out]))"
  by (rule call_ran [OF assms])

text \<open>
  C11: the whole way of a typed call. The application calls a method of two arguments through
  \<open>rpcc::call\<close>, the server has registered it with \<open>reg\<close>: when the call comes back with a code
  that is not negative, the method was run on exactly the arguments of the caller, in some
  state of the server's object, and code and result are the ones it returned.
\<close>

theorem typed_call_returns_method_result:
  assumes "net_run peer n (net_init n nonce cnt ps a) es s" "n \<noteq> 0" "length (begun (client_part es)) < 2 ^ 32 - 1"
    and "Client (Begun b x msg) \<in> set es" "call_req2 p1 p2 a1 a2 = Inr req" "pack_req_header h req = Inr msg"
    and "ps (rq_proc h) = Some (h1_fn2 g1 g2 pr meth)"
    and "net_step peer n s (Client (Returned t x ret un)) s'" "0 \<le>s ret"
    and "codec p1 g1 e1 v1" "codec p2 g2 e2 v2" "codec pr gr er vr" "v1 a1" "v2 a2"
    and "2 * (RPC_HEADER_SZ + (length (e1 a1) + length (e2 a2))) \<le> int_max"
    and "\<And>\<sigma> \<sigma>' c r. meth a1 a2 \<sigma> = Inr (\<sigma>', c, r) \<Longrightarrow> vr r \<and> 2 * (RPC_HEADER_SZ + length (er r)) \<le> int_max"
  shows "\<exists>\<sigma> \<sigma>' r. meth a1 a2 \<sigma> = Inr (\<sigma>', ret, r) \<and> call_m gr ret un r0 = Inr (ret, r)"
proof -
  from call2_ran [OF assms(1-6,8-11,13-15)] obtain out where c: "at_body un out" "handled ps (rq_proc h) (e1 a1 @ e2 a2) ret out" by blast
  from handled_method2 [OF c(2) assms(7,10,11,13,14)] assms(15) obtain \<sigma> \<sigma>' r rep where
    r: "meth a1 a2 \<sigma> = Inr (\<sigma>', ret, r)" "pr r marshall_new = Inr rep" "body rep out" by auto
  from reply_read [OF assms(12) _ _ r(2,3) c(1) assms(9)] assms(16) [OF r(1)] r(1) show ?thesis by blast
qed


section \<open>Examples\<close>

lemma example_call:
  "\<exists>es s s' un. net_run (\<lambda>_. 7) 7 (net_init 7 99 0 (\<lambda>_. Some (\<lambda>s u m. Inr (Suc s, 0, m))) 0) es s \<and>
     net_step (\<lambda>_. 7) 7 s (Client (Returned 0 1 0 un)) s' \<and> begun (client_part es) = [1]"
  using first_call [where n = 7 and p = 23 and ps = "\<lambda>_. Some (\<lambda>s u m. Inr (Suc s, 0, m))" and peer = "\<lambda>_. 7" and nonce = 99
      and a = 0 and ret = 0 and rep = marshall_new, OF _ _ refl body_new refl refl _ body_new]
  by (force simp: rpc_bind_def)

theorem endpoints_fit_witness:
  "\<exists>es (s :: nat net). begun (client_part es) = [1] \<and> clt_run (clt_init True 7) (client_part es) (client s) \<and>
     disp_run (rpcs_new 99 0 0\<lparr>procs := \<lambda>_. Some (\<lambda>s u m. Inr (Suc s, 0, m))\<rparr>, []) (server_part es) (server s)"
proof -
  from example_call obtain es s where s:
    "net_run (\<lambda>_. 7) 7 (net_init 7 99 0 (\<lambda>_. Some (\<lambda>s u m. Inr (Suc s, 0, m))) 0) es s" "begun (client_part es) = [1]" by blast
  from endpoints_fit [OF s(1)] s(2) show ?thesis by (intro exI [of _ es] exI [of _ s]) simp
qed

theorem call_runs_exactly_once_witness:
  "\<exists>es s p args out un. net_run (\<lambda>_. 7) 7 (net_init 7 99 0 (\<lambda>_. Some (\<lambda>s u m. Inr (Suc s, 0, m))) 0) es s \<and> at_body un out \<and>
     filter (\<lambda>e. server_of e = [Runs 7 1]) es = [Ran 7 1 p args 0 out]"
proof -
  from example_call obtain es s s' un where s:
    "net_run (\<lambda>_. 7) 7 (net_init 7 99 0 (\<lambda>_. Some (\<lambda>s u m. Inr (Suc s, 0, m))) 0) es s"
    "net_step (\<lambda>_. 7) 7 s (Client (Returned 0 1 0 un)) s'" "begun (client_part es) = [1]" by blast
  from call_runs_exactly_once [OF s(1) _ _ s(2)] s(3) obtain p args out where
    "at_body un out" "filter (\<lambda>e. server_of e = [Runs 7 1]) es = [Ran 7 1 p args 0 out]" by auto
  with s(1) show ?thesis by blast
qed

text \<open>A method of two arguments that adds the first to a counter and returns the second.\<close>

definition example_method :: "u32 \<Rightarrow> u32 \<Rightarrow> nat \<Rightarrow> (nat, u32) meth_result" where
  "example_method x y s = Inr (s + unat x, 0, y)"

theorem typed_call_returns_method_result_witness:
  "\<exists>es s s' un. net_run (\<lambda>_. 7) 7 (net_init 7 99 0 (\<lambda>_. Some (h1_fn2 get_uint get_uint put_uint example_method)) 0) es s \<and>
     net_step (\<lambda>_. 7) 7 s (Client (Returned 0 1 0 un)) s' \<and> call_m get_uint 0 un 0 = Inr (0, 5)"
proof -
  let ?f = "h1_fn2 get_uint get_uint put_uint example_method"
  let ?h = "first_header 7 99 23"
  have p: "puts (\<lambda>m. andthen (put_uint x m) (put_uint y)) (enc_u32 x @ enc_u32 y)" for x y
    by (rule puts_andthen uint_codec.put_enc TrueI)+
  from puts_new [OF p, of 3 5] obtain req where req: "call_req2 put_uint put_uint 3 5 = Inr req" "body req (enc_u32 3 @ enc_u32 5)"
    by (auto simp: call_req2_def int_max_def)
  from puts_new [OF uint_codec.put_enc, of 5] obtain rep where rep: "put_uint 5 marshall_new = Inr rep" "body rep (enc_u32 5)"
    by (auto simp: int_max_def)
  have g: "gets (args2 get_uint get_uint) (enc_u32 3 @ enc_u32 5 @ []) (3, 5)"
    unfolding args2_def [abs_def] by (rule gets_andthen [OF uint_codec.get_enc] gets_return TrueI)+
  have f: "?f 0 u marshall_new = Inr (3, 0, rep)" if "at_body u (enc_u32 3 @ enc_u32 5)" for u
    using h1_run_hit [OF that, of "args2 get_uint get_uint" "(3, 5)" put_uint "\<lambda>(x, y). example_method x y" 0 marshall_new] g rep(1)
    by (simp add: h1_fn2_def int_max_def example_method_def)
  from first_call [where n = 7 and p = 23 and ps = "\<lambda>_. Some ?f" and peer = "\<lambda>_. 7" and nonce = 99 and ret = 0, OF _ _ refl req(2) refl f _ rep(2)]
  obtain es s s' un msg where s: "net_run (\<lambda>_. 7) 7 (net_init 7 99 0 (\<lambda>_. Some ?f) 0) es s"
      "net_step (\<lambda>_. 7) 7 s (Client (Returned 0 1 0 un)) s'" "begun (client_part es) = [1]"
      "Client (Begun 0 1 msg) \<in> set es" "pack_req_header ?h req = Inr msg" by (auto simp: rpc_bind_def)
  from typed_call_returns_method_result [OF s(1) _ _ s(4) req(1) s(5) refl s(2) _ uint_codec.codec_axioms uint_codec.codec_axioms
      uint_codec.codec_axioms, of 0] s(3)
  have "call_m get_uint 0 un 0 = Inr (0, 5)" by (auto simp: int_max_def example_method_def)
  with s(1,2) show ?thesis by blast
qed

end
