(* ===== verification/ThrPool.thy ===== *)
theory ThrPool
  imports Prelude "HOL-Library.Multiset"
begin

text \<open>
  The bounded queue of \<open>rpc/fifo.h\<close> and the thread pool of \<open>rpc/thr_pool.h\<close> and
  \<open>rpc/thr_pool.cc\<close> that runs the jobs in it. One pass of a thread through the loop of \<open>enq\<close>
  or \<open>deq\<close> is one function; threads, their waits on the two condition variables, the jobs
  and the destructor are the steps of a relation.
\<close>

section \<open>The queue\<close>

text \<open>\<open>max_\<close> of 0 means no limit.\<close>

record 'a fifo =
  fq :: "'a list"
  max_items :: nat

datatype enq_answer = Enq_done | Enq_waits | Enq_refused

definition fifo_new :: "nat \<Rightarrow> 'a fifo" where
  "fifo_new limit = \<lparr>fq = [], max_items = limit\<rparr>"

text \<open>The return type of \<open>size\<close> is \<open>bool\<close>.\<close>

definition fifo_size :: "'a fifo \<Rightarrow> bool" where
  "fifo_size s = (length (fq s) \<noteq> 0)"

definition enq :: "'a \<Rightarrow> bool \<Rightarrow> 'a fifo \<Rightarrow> enq_answer \<times> 'a fifo" where
  "enq e blocking s =
     (if max_items s = 0 \<or> length (fq s) < max_items s then (Enq_done, s\<lparr>fq := fq s @ [e]\<rparr>)
      else if blocking then (Enq_waits, s)
      else (Enq_refused, s))"

text \<open>\<^term>\<open>None\<close> to wait; the flag says whether \<open>has_space_c_\<close> is signalled.\<close>

definition deq :: "'a fifo \<Rightarrow> ('a \<times> bool) option \<times> 'a fifo" where
  "deq s =
     (case fq s of
        [] \<Rightarrow> (None, s)
      | e # es \<Rightarrow>
          let s = s\<lparr>fq := es\<rparr>
          in (Some (e, max_items s \<noteq> 0 \<and> length (fq s) < max_items s), s))"

text \<open>
  What a client of the queue relies on: what is put in comes out in order, and a queue that
  gives nothing is empty. \<open>contents\<close> is the sequence a queue stands for; the operations of
  a history are \<^term>\<open>Some e\<close> to put and \<^term>\<open>None\<close> to take.
\<close>

primrec run_ops :: "('e \<Rightarrow> 's \<Rightarrow> 's option) \<Rightarrow> ('s \<Rightarrow> ('e \<times> 's) option) \<Rightarrow> 'e option list \<Rightarrow> 's \<Rightarrow>
    ('e list \<times> 's) option" where
  "run_ops put get [] s = Some ([], s)"
| "run_ops put get (x # xs) s =
     (case x of
        Some e \<Rightarrow> (case put e s of None \<Rightarrow> None | Some s \<Rightarrow> run_ops put get xs s)
      | None \<Rightarrow>
          (case get s of
             None \<Rightarrow> None
           | Some (e, s) \<Rightarrow> map_option (\<lambda>(out, t). (e # out, t)) (run_ops put get xs s)))"

definition ops_put :: "'e option list \<Rightarrow> 'e list" where
  "ops_put xs = concat (map (\<lambda>x. case x of None \<Rightarrow> [] | Some e \<Rightarrow> [e]) xs)"

locale job_queue =
  fixes put :: "'e \<Rightarrow> 's \<Rightarrow> 's option"
    and get :: "'s \<Rightarrow> ('e \<times> 's) option"
    and contents :: "'s \<Rightarrow> 'e list"
  assumes put_contents: "put e s = Some s' \<Longrightarrow> contents s' = contents s @ [e]"
    and get_contents: "get s = Some (e, s') \<Longrightarrow> contents s = e # contents s'"
    and get_empty: "get s = None \<longleftrightarrow> contents s = []"
begin

lemma fifo_order:
  "run_ops put get xs s = Some (out, s') \<Longrightarrow> contents s @ ops_put xs = out @ contents s'"
proof (induction xs arbitrary: s out)
  case (Cons x xs)
  show ?case
  proof (cases x)
    case None
    with Cons.prems obtain e t out' where "get s = Some (e, t)" "run_ops put get xs t = Some (out', s')"
      "out = e # out'" by (auto split: option.split_asm)
    with Cons.IH get_contents None show ?thesis by (simp add: ops_put_def)
  next
    case (Some e)
    with Cons.prems obtain t where "put e s = Some t" "run_ops put get xs t = Some (out, s')"
      by (auto split: option.split_asm)
    with Cons.IH [of t out] put_contents Some show ?thesis by (simp add: ops_put_def)
  qed
qed (simp add: ops_put_def)

end

definition try_put :: "'a \<Rightarrow> 'a fifo \<Rightarrow> 'a fifo option" where
  "try_put e s = (case enq e False s of (Enq_done, s') \<Rightarrow> Some s' | _ \<Rightarrow> None)"

definition try_take :: "'a fifo \<Rightarrow> ('a \<times> 'a fifo) option" where
  "try_take s = (case deq s of (Some (e, b), s') \<Rightarrow> Some (e, s') | (None, s') \<Rightarrow> None)"

interpretation fifo: job_queue try_put try_take fq
  by unfold_locales
    (auto simp: try_put_def try_take_def enq_def deq_def Let_def split: if_split_asm list.splits)

lemma enq_contents:
  assumes "enq e b s = (Enq_done, s')"
  shows "fq s' = fq s @ [e]" "max_items s' = max_items s"
    "max_items s = 0 \<or> length (fq s) < max_items s"
proof -
  from assms have "try_put e s = Some s'" by (auto simp: try_put_def enq_def split: if_split_asm)
  then show "fq s' = fq s @ [e]" by (rule fifo.put_contents)
  from assms show "max_items s' = max_items s" "max_items s = 0 \<or> length (fq s) < max_items s"
    by (auto simp: enq_def split: if_split_asm)
qed

lemma deq_contents:
  assumes "deq s = (Some (e, sig), s')"
  shows "fq s = e # fq s'" "max_items s' = max_items s"
    "sig \<longleftrightarrow> max_items s \<noteq> 0 \<and> length (fq s') < max_items s"
proof -
  from assms have "try_take s = Some (e, s')" by (simp add: try_take_def)
  then show "fq s = e # fq s'" by (rule fifo.get_contents)
  from assms show "max_items s' = max_items s" "sig \<longleftrightarrow> max_items s \<noteq> 0 \<and> length (fq s') < max_items s"
    by (auto simp: deq_def Let_def split: list.split_asm)
qed

lemma deq_waits: "deq s = (None, s') \<Longrightarrow> fq s = [] \<and> s' = s"
  by (auto simp: deq_def Let_def split: list.split_asm)

lemma enq_waits: "enq e b s = (Enq_waits, s') \<Longrightarrow> max_items s \<le> length (fq s) \<and> max_items s \<noteq> 0 \<and> s' = s \<and> b"
  by (auto simp: enq_def split: if_split_asm)

section \<open>The pool\<close>

text \<open>
  A job is \<^term>\<open>Some j\<close>, with its function and argument in one, and a job without a function
  (the poison pill) is \<^term>\<open>None\<close>. A thread is outside the queue, waits for space or for an
  item (the flag: it was woken), runs a job, or has exited. The workers are the threads below
  \<open>nthreads\<close>; the thread \<open>nthreads\<close> runs the destructor, which has put so many \<open>pills\<close>; there
  are \<open>nall\<close> threads.
\<close>

datatype 'j phase =
    Out
  | Wait_space "'j option" bool
  | Wait_item bool
  | Runs 'j
  | Exited

record 'j thr_pool =
  nthreads :: nat
  blockadd :: bool
  jobq :: "'j option fifo"
  nall :: nat
  phase :: "nat \<Rightarrow> 'j phase"
  pills :: "nat option"

definition thr_pool_new :: "nat \<Rightarrow> bool \<Rightarrow> nat \<Rightarrow> 'j thr_pool" where
  "thr_pool_new sz blocking n =
     \<lparr>nthreads = sz, blockadd = blocking, jobq = fifo_new (100 * sz), nall = n,
      phase = (\<lambda>_. Out), pills = None\<rparr>"

definition addJob :: "'j \<Rightarrow> 'j thr_pool \<Rightarrow> enq_answer \<times> 'j option fifo" where
  "addJob j p = enq (Some j) (blockadd p) (jobq p)"

definition takeJob :: "'j thr_pool \<Rightarrow> ('j option \<times> bool) option \<times> 'j option fifo" where
  "takeJob p = deq (jobq p)"

text \<open>What a worker does with the job it took.\<close>

definition do_worker :: "'j option \<Rightarrow> 'j phase" where
  "do_worker j = (case j of None \<Rightarrow> Exited | Some f \<Rightarrow> Runs f)"

text \<open>\<open>pthread_cond_signal\<close> wakes one of the threads that wait, if there are any.\<close>

definition sleeps_item :: "'j phase \<Rightarrow> bool" where
  "sleeps_item ph \<longleftrightarrow> ph = Wait_item False"

definition woken_item :: "'j phase \<Rightarrow> bool" where
  "woken_item ph \<longleftrightarrow> ph = Wait_item True"

definition sleeps_space :: "'j phase \<Rightarrow> bool" where
  "sleeps_space ph \<longleftrightarrow> (case ph of Wait_space e w \<Rightarrow> \<not> w | _ \<Rightarrow> False)"

definition woken_space :: "'j phase \<Rightarrow> bool" where
  "woken_space ph \<longleftrightarrow> (case ph of Wait_space e w \<Rightarrow> w | _ \<Rightarrow> False)"

definition wake :: "'j phase \<Rightarrow> 'j phase" where
  "wake ph = (case ph of Wait_space e w \<Rightarrow> Wait_space e True | Wait_item w \<Rightarrow> Wait_item True | _ \<Rightarrow> ph)"

inductive signal :: "('j phase \<Rightarrow> bool) \<Rightarrow> nat \<Rightarrow> (nat \<Rightarrow> 'j phase) \<Rightarrow> (nat \<Rightarrow> 'j phase) \<Rightarrow> bool" where
  wakes_one: "u < n \<Longrightarrow> asleep (ph u) \<Longrightarrow> signal asleep n ph (ph(u := wake (ph u)))"
| wakes_none: "\<forall>u < n. \<not> asleep (ph u) \<Longrightarrow> signal asleep n ph ph"

datatype 'j pool_event =
    Added 'j
  | Refused 'j
  | Took 'j
  | Ran 'j
  | Died
  | Destroys
  | Pill
  | Sleeps

inductive pool_step :: "'j thr_pool \<Rightarrow> 'j pool_event \<Rightarrow> 'j thr_pool \<Rightarrow> bool" where
  adds: "pills p = None \<Longrightarrow> nthreads p \<le> t \<Longrightarrow> t < nall p \<Longrightarrow> phase p t = Out \<or> phase p t = Wait_space (Some j) True \<Longrightarrow>
     addJob j p = (Enq_done, q) \<Longrightarrow> signal sleeps_item (nall p) ((phase p)(t := Out)) ph \<Longrightarrow>
     pool_step p (Added j) (p\<lparr>jobq := q, phase := ph\<rparr>)"
| add_waits: "pills p = None \<Longrightarrow> nthreads p \<le> t \<Longrightarrow> t < nall p \<Longrightarrow> phase p t = Out \<or> phase p t = Wait_space (Some j) True \<Longrightarrow>
     addJob j p = (Enq_waits, q) \<Longrightarrow>
     pool_step p Sleeps (p\<lparr>jobq := q, phase := (phase p)(t := Wait_space (Some j) False)\<rparr>)"
| add_refused: "pills p = None \<Longrightarrow> nthreads p \<le> t \<Longrightarrow> t < nall p \<Longrightarrow> phase p t = Out \<Longrightarrow>
     addJob j p = (Enq_refused, q) \<Longrightarrow> pool_step p (Refused j) (p\<lparr>jobq := q\<rparr>)"
| takes: "t < nthreads p \<Longrightarrow> phase p t = Out \<or> phase p t = Wait_item True \<Longrightarrow>
     takeJob p = (Some (j, space), q) \<Longrightarrow>
     (if space then signal sleeps_space (nall p) ((phase p)(t := do_worker j)) ph
      else ph = (phase p)(t := do_worker j)) \<Longrightarrow>
     pool_step p (case j of None \<Rightarrow> Died | Some f \<Rightarrow> Took f) (p\<lparr>jobq := q, phase := ph\<rparr>)"
| take_waits: "t < nthreads p \<Longrightarrow> phase p t = Out \<or> phase p t = Wait_item True \<Longrightarrow>
     takeJob p = (None, q) \<Longrightarrow> pool_step p Sleeps (p\<lparr>jobq := q, phase := (phase p)(t := Wait_item False)\<rparr>)"
| finishes: "t < nthreads p \<Longrightarrow> phase p t = Runs j \<Longrightarrow>
     pool_step p (Ran j) (p\<lparr>phase := (phase p)(t := Out)\<rparr>)"
| destroys: "pills p = None \<Longrightarrow> \<forall>t \<in> {nthreads p..<nall p}. phase p t = Out \<Longrightarrow>
     pool_step p Destroys (p\<lparr>pills := Some 0\<rparr>)"
| puts_pill: "pills p = Some k \<Longrightarrow> k < nthreads p \<Longrightarrow> t = nthreads p \<Longrightarrow> phase p t = Out \<or> phase p t = Wait_space None True \<Longrightarrow>
     enq None True (jobq p) = (Enq_done, q) \<Longrightarrow> signal sleeps_item (nall p) ((phase p)(t := Out)) ph \<Longrightarrow>
     pool_step p Pill (p\<lparr>jobq := q, phase := ph, pills := Some (k + 1)\<rparr>)"
| pill_waits: "pills p = Some k \<Longrightarrow> k < nthreads p \<Longrightarrow> t = nthreads p \<Longrightarrow> phase p t = Out \<or> phase p t = Wait_space None True \<Longrightarrow>
     enq None True (jobq p) = (Enq_waits, q) \<Longrightarrow>
     pool_step p Sleeps (p\<lparr>jobq := q, phase := (phase p)(t := Wait_space None False)\<rparr>)"

inductive_cases pool_stepE: "pool_step p e p'"

inductive pool_run :: "'j thr_pool \<Rightarrow> 'j pool_event list \<Rightarrow> 'j thr_pool \<Rightarrow> bool" where
  pool_start: "pool_run p [] p"
| pool_next: "pool_run p es p' \<Longrightarrow> pool_step p' e p'' \<Longrightarrow> pool_run p (es @ [e]) p''"

section \<open>Counting threads\<close>

definition tally :: "('j phase \<Rightarrow> bool) \<Rightarrow> nat \<Rightarrow> (nat \<Rightarrow> 'j phase) \<Rightarrow> nat" where
  "tally P n ph = card {t. t < n \<and> P (ph t)}"

lemma tally_0: "tally P n ph = 0 \<longleftrightarrow> (\<forall>t < n. \<not> P (ph t))"
  by (auto simp: tally_def)

lemma tally_split: "t < n \<Longrightarrow> tally P n ph = card {u. u < n \<and> u \<noteq> t \<and> P (ph u)} + of_bool (P (ph t))"
proof -
  assume t: "t < n"
  let ?A = "{u. u < n \<and> u \<noteq> t \<and> P (ph u)}"
  have "{u. u < n \<and> P (ph u)} = (if P (ph t) then insert t ?A else ?A)" using t by auto
  then show ?thesis by (simp add: tally_def)
qed

lemma tally_upd:
  "t < n \<Longrightarrow> tally P n (ph(t := x)) + of_bool (P (ph t)) = tally P n ph + of_bool (P x)"
  using tally_split [of t n P ph] tally_split [of t n P "ph(t := x)"] by (simp add: conj_commute cong: conj_cong)

lemma tally_same: "P x = P (ph t) \<Longrightarrow> tally P n (ph(t := x)) = tally P n ph"
  by (simp add: tally_def) (metis (no_types, lifting) fun_upd_triv fun_upd_other fun_upd_same)

lemma phase_kinds [simp]:
  "\<not> sleeps_item Out" "\<not> sleeps_item (Wait_space e w)" "sleeps_item (Wait_item w) \<longleftrightarrow> \<not> w" "\<not> sleeps_item (Runs j)" "\<not> sleeps_item Exited"
  "\<not> woken_item Out" "\<not> woken_item (Wait_space e w)" "woken_item (Wait_item w) \<longleftrightarrow> w" "\<not> woken_item (Runs j)" "\<not> woken_item Exited"
  "\<not> sleeps_space Out" "sleeps_space (Wait_space e w) \<longleftrightarrow> \<not> w" "\<not> sleeps_space (Wait_item w)" "\<not> sleeps_space (Runs j)" "\<not> sleeps_space Exited"
  "\<not> woken_space Out" "woken_space (Wait_space e w) \<longleftrightarrow> w" "\<not> woken_space (Wait_item w)" "\<not> woken_space (Runs j)" "\<not> woken_space Exited"
  "wake Out = Out" "wake (Wait_space e w) = Wait_space e True" "wake (Wait_item w) = Wait_item True" "wake (Runs j) = Runs j" "wake Exited = Exited"
  by (auto simp: sleeps_item_def woken_item_def sleeps_space_def woken_space_def wake_def)

text \<open>A signal changes what its condition variable is about, and nothing else.\<close>

lemma signal_other:
  assumes "signal asleep n ph ph'" "\<And>x. asleep x \<Longrightarrow> P (wake x) = P x"
  shows "tally P m ph' = tally P m ph"
  using assms by (cases rule: signal.cases) (auto simp: tally_same)

lemma signal_item_tally:
  assumes "signal sleeps_item n ph ph'"
  shows "tally sleeps_item n ph' = tally sleeps_item n ph - 1"
    "tally sleeps_item n ph = 0 \<or> tally woken_item n ph' = Suc (tally woken_item n ph)"
    "tally woken_item n ph \<le> tally woken_item n ph'"
  using assms
proof (atomize (full), cases rule: signal.cases)
  case (wakes_one u)
  then have "ph u = Wait_item False" by (cases "ph u") auto
  with wakes_one tally_upd [of u n sleeps_item ph "wake (ph u)"] tally_upd [of u n woken_item ph "wake (ph u)"]
  show "tally sleeps_item n ph' = tally sleeps_item n ph - 1 \<and>
    (tally sleeps_item n ph = 0 \<or> tally woken_item n ph' = Suc (tally woken_item n ph)) \<and>
    tally woken_item n ph \<le> tally woken_item n ph'" by simp
next
  case wakes_none
  then have "tally sleeps_item n ph = 0" by (simp add: tally_0)
  with wakes_none show "tally sleeps_item n ph' = tally sleeps_item n ph - 1 \<and>
    (tally sleeps_item n ph = 0 \<or> tally woken_item n ph' = Suc (tally woken_item n ph)) \<and>
    tally woken_item n ph \<le> tally woken_item n ph'" by simp
qed

lemma signal_space_tally:
  assumes "signal sleeps_space n ph ph'"
  shows "tally sleeps_space n ph' = tally sleeps_space n ph - 1"
    "tally sleeps_space n ph = 0 \<or> tally woken_space n ph' = Suc (tally woken_space n ph)"
    "tally woken_space n ph \<le> tally woken_space n ph'"
  using assms
proof (atomize (full), cases rule: signal.cases)
  case (wakes_one u)
  then obtain e where "ph u = Wait_space e False" by (cases "ph u") auto
  with wakes_one tally_upd [of u n sleeps_space ph "wake (ph u)"] tally_upd [of u n woken_space ph "wake (ph u)"]
  show "tally sleeps_space n ph' = tally sleeps_space n ph - 1 \<and>
    (tally sleeps_space n ph = 0 \<or> tally woken_space n ph' = Suc (tally woken_space n ph)) \<and>
    tally woken_space n ph \<le> tally woken_space n ph'" by simp
next
  case wakes_none
  then have "tally sleeps_space n ph = 0" by (simp add: tally_0)
  with wakes_none show "tally sleeps_space n ph' = tally sleeps_space n ph - 1 \<and>
    (tally sleeps_space n ph = 0 \<or> tally woken_space n ph' = Suc (tally woken_space n ph)) \<and>
    tally woken_space n ph \<le> tally woken_space n ph'" by simp
qed

section \<open>Invariants\<close>

text \<open>Which thread can be where.\<close>

definition fits :: "'j thr_pool \<Rightarrow> nat \<Rightarrow> 'j phase \<Rightarrow> bool" where
  "fits p t ph \<longleftrightarrow>
     (if t < nthreads p then (case ph of Wait_space e w \<Rightarrow> False | _ \<Rightarrow> True)
      else case ph of
        Out \<Rightarrow> True
      | Wait_space e w \<Rightarrow> t < nall p \<and>
          (case pills p of None \<Rightarrow> e \<noteq> None | Some k \<Rightarrow> e = None \<and> t = nthreads p \<and> k < nthreads p)
      | _ \<Rightarrow> False)"

definition phase_ok :: "'j thr_pool \<Rightarrow> bool" where
  "phase_ok p \<longleftrightarrow> nthreads p < nall p \<and> (\<forall>t. fits p t (phase p t))"

definition wake_ok :: "'j thr_pool \<Rightarrow> bool" where
  "wake_ok p \<longleftrightarrow>
     (tally sleeps_item (nall p) (phase p) = 0 \<or>
        length (fq (jobq p)) \<le> tally woken_item (nall p) (phase p)) \<and>
     (tally sleeps_space (nall p) (phase p) = 0 \<or>
        max_items (jobq p) - length (fq (jobq p)) \<le> tally woken_space (nall p) (phase p)) \<and>
     (max_items (jobq p) = 0 \<longrightarrow> tally sleeps_space (nall p) (phase p) = 0)"

lemma fits_wake [simp]: "fits p t (wake ph) = fits p t ph"
  by (cases ph) (simp_all add: fits_def)

lemma fits_upd [simp]: "fits (p\<lparr>phase := ph\<rparr>) = fits p" "fits (p\<lparr>jobq := q\<rparr>) = fits p"
  "fits (p\<lparr>jobq := q, phase := ph, pills := k\<rparr>) = fits (p\<lparr>pills := k\<rparr>)"
  by (auto simp: fits_def fun_eq_iff split: phase.split option.split)

lemma fits_signal: "signal a n ph ph' \<Longrightarrow> \<forall>t. fits p t (ph t) \<Longrightarrow> \<forall>t. fits p t (ph' t)"
  by (auto elim: signal.cases)

lemma fits_update: "\<forall>u. fits p u (ph u) \<Longrightarrow> fits p t x \<Longrightarrow> \<forall>u. fits p u ((ph(t := x)) u)"
  by simp

lemma fits_do_worker: "t < nthreads p \<Longrightarrow> fits p t (do_worker j)"
  by (simp add: fits_def do_worker_def split: option.split)

lemma phase_ok_step:
  assumes "pool_step p e p'" "phase_ok p"
  shows "phase_ok p'"
proof -
  from assms(2) have n: "nthreads p < nall p" and f: "\<forall>t. fits p t (phase p t)" by (simp_all add: phase_ok_def)
  have out: "fits p t Out" for t by (simp add: fits_def)
  from assms(1) show ?thesis
  proof cases
    case (adds t j q ph)
    from fits_signal [OF adds(8) fits_update [OF f out]] n adds(2) show ?thesis by (simp add: phase_ok_def)
  next
    case (add_waits t j q)
    have "fits p t (Wait_space (Some j) False)" using add_waits(3-5) by (simp add: fits_def)
    from fits_update [OF f this] n add_waits(2) show ?thesis by (simp add: phase_ok_def)
  next
    case (add_refused t j q)
    with n f show ?thesis by (simp add: phase_ok_def)
  next
    case (takes t j space q ph)
    have w: "\<forall>u. fits p u (((phase p)(t := do_worker j)) u)"
      using takes(3) by (intro fits_update [OF f] fits_do_worker)
    have "\<forall>u. fits p u (ph u)"
    proof (cases space)
      case True
      with takes(6) have "signal sleeps_space (nall p) ((phase p)(t := do_worker j)) ph" by simp
      from fits_signal [OF this w] show ?thesis .
    qed (use takes(6) w in simp)
    with n takes(2) show ?thesis by (simp add: phase_ok_def)
  next
    case (take_waits t q)
    have "fits p t (Wait_item False)" using take_waits(3) by (simp add: fits_def)
    from fits_update [OF f this] n take_waits(2) show ?thesis by (simp add: phase_ok_def)
  next
    case (finishes t j)
    from fits_update [OF f out] n finishes(2) show ?thesis by (simp add: phase_ok_def)
  next
    case destroys
    have "fits p' t (phase p t)" for t
    proof (cases "t < nthreads p")
      case True
      then show ?thesis using f [rule_format, of t] destroys(2) by (simp add: fits_def)
    next
      case False
      then have "phase p t = Out" using destroys(4) f [rule_format, of t]
        by (cases "t < nall p") (auto simp: fits_def split: phase.split_asm)
      then show ?thesis by (simp add: fits_def)
    qed
    with n destroys(2) show ?thesis by (simp add: phase_ok_def)
  next
    case (puts_pill k t q ph)
    let ?p = "p\<lparr>pills := Some (k + 1)\<rparr>"
    have "fits ?p u (((phase p)(t := Out)) u)" for u
      using f [rule_format, of u] puts_pill(3,5) by (auto simp: fits_def split: phase.split_asm phase.split if_split_asm)
    then have "\<forall>u. fits ?p u (((phase p)(t := Out)) u)" by blast
    from fits_signal [OF puts_pill(8) this] n puts_pill(2) show ?thesis by (simp add: phase_ok_def)
  next
    case (pill_waits k t q)
    have "fits p t (Wait_space None False)" using pill_waits(3-5) n by (simp add: fits_def)
    from fits_update [OF f this] n pill_waits(2) show ?thesis by (simp add: phase_ok_def)
  qed
qed

text \<open>
  No wake-up is lost: while a thread sleeps for an item, as many others were woken as there
  are items, and the same for space.
\<close>

lemma tally_out:
  assumes "t < n" "ph t = Out \<or> ph t = Wait_space e True"
  shows "tally sleeps_item n (ph(t := Out)) = tally sleeps_item n ph" "tally woken_item n (ph(t := Out)) = tally woken_item n ph"
    "tally sleeps_space n (ph(t := Out)) = tally sleeps_space n ph" "tally woken_space n ph \<le> Suc (tally woken_space n (ph(t := Out)))"
  using assms tally_upd [OF assms(1), of woken_space ph Out] by (auto simp: tally_same)

lemma wake_put:
  assumes "wake_ok p" "phase_ok p" "t < nall p" "phase p t = Out \<or> phase p t = Wait_space e True"
    and "enq e b (jobq p) = (Enq_done, q)" "signal sleeps_item (nall p) ((phase p)(t := Out)) ph"
  shows "wake_ok (p\<lparr>jobq := q, phase := ph\<rparr>)"
proof -
  note o = tally_out [of t "nall p" "phase p" e, OF assms(3,4)] and i = signal_item_tally [OF assms(6)]
  have s: "tally sleeps_space (nall p) ph = tally sleeps_space (nall p) ((phase p)(t := Out))"
    "tally woken_space (nall p) ph = tally woken_space (nall p) ((phase p)(t := Out))"
    by (rule signal_other [OF assms(6)]; simp add: sleeps_item_def; auto)+
  from assms(1) enq_contents [OF assms(5)] o s i show ?thesis
    unfolding wake_ok_def by auto
qed

lemma signal_space_others:
  assumes "signal sleeps_space n ph ph'"
  shows "tally sleeps_item n ph' = tally sleeps_item n ph" "tally woken_item n ph' = tally woken_item n ph"
    and "tally (\<lambda>x. x = Exited) n' ph' = tally (\<lambda>x. x = Exited) n' ph"
  by (rule signal_other [OF assms]; auto simp: sleeps_space_def wake_def split: phase.split phase.split_asm)+

lemma wake_take:
  assumes "wake_ok p" "t < nall p" "phase p t = Out \<or> phase p t = Wait_item True" "takeJob p = (Some (j, space), q)"
    and "if space then signal sleeps_space (nall p) ((phase p)(t := do_worker j)) ph
      else ph = (phase p)(t := do_worker j)"
  shows "wake_ok (p\<lparr>jobq := q, phase := ph\<rparr>)"
proof -
  let ?ph = "(phase p)(t := do_worker j)" and ?n = "nall p"
  note d = deq_contents [OF assms(4) [unfolded takeJob_def]]
  have k: "\<not> sleeps_item (do_worker j)" "\<not> woken_item (do_worker j)" "\<not> sleeps_space (do_worker j)" "\<not> woken_space (do_worker j)"
    by (simp_all add: do_worker_def split: option.split)
  have o: "tally sleeps_item ?n ?ph = tally sleeps_item ?n (phase p)"
    "tally woken_item ?n (phase p) \<le> Suc (tally woken_item ?n ?ph)"
    "tally sleeps_space ?n ?ph = tally sleeps_space ?n (phase p)"
    "tally woken_space ?n ?ph = tally woken_space ?n (phase p)"
    using assms(3) k tally_upd [OF assms(2), of woken_item "phase p" "do_worker j"] by (auto simp: tally_same)
  show ?thesis
  proof (cases space)
    case True
    then have sig: "signal sleeps_space ?n ?ph ph" using assms(5) by simp
    from assms(1) d o signal_space_tally [OF sig] signal_space_others(1,2) [OF sig] show ?thesis
      unfolding wake_ok_def by auto
  next
    case False
    with assms(5) have "ph = ?ph" by simp
    with assms(1) d o False show ?thesis unfolding wake_ok_def by auto
  qed
qed

lemma wake_step:
  assumes "pool_step p e p'" "phase_ok p" "wake_ok p"
  shows "wake_ok p'"
proof -
  have n: "nthreads p < nall p" using assms(2) by (simp add: phase_ok_def)
  from assms(1) show ?thesis
  proof cases
    case (adds t j q ph)
    from wake_put [OF assms(3,2) adds(5,6) adds(7) [unfolded addJob_def] adds(8)] show ?thesis using adds(2) by simp
  next
    case (add_waits t j q)
    note w = enq_waits [OF add_waits(7) [unfolded addJob_def]]
    have "tally sleeps_item (nall p) ((phase p)(t := Wait_space (Some j) False)) = tally sleeps_item (nall p) (phase p)"
      "tally woken_item (nall p) ((phase p)(t := Wait_space (Some j) False)) = tally woken_item (nall p) (phase p)"
      using add_waits(6) by (auto simp: tally_same)
    with w add_waits(2) assms(3) show ?thesis by (simp add: wake_ok_def)
  next
    case (add_refused t j q)
    then show ?thesis using assms(3) by (auto simp: addJob_def enq_def wake_ok_def split: if_split_asm)
  next
    case (takes t j space q ph)
    from wake_take [OF assms(3) _ takes(4-6)] n takes(2,3) show ?thesis by simp
  next
    case (take_waits t q)
    note w = deq_waits [OF take_waits(5) [unfolded takeJob_def]]
    have "tally sleeps_space (nall p) ((phase p)(t := Wait_item False)) = tally sleeps_space (nall p) (phase p)"
      "tally woken_space (nall p) ((phase p)(t := Wait_item False)) = tally woken_space (nall p) (phase p)"
      using take_waits(4) by (auto simp: tally_same)
    with w take_waits(2) assms(3) show ?thesis by (simp add: wake_ok_def)
  next
    case (finishes t j)
    have "tally P (nall p) ((phase p)(t := Out)) = tally P (nall p) (phase p)" if "P (Runs j) = P Out" for P
      using that finishes(4) by (auto simp: tally_same)
    with assms(3) finishes(2) show ?thesis by (simp add: wake_ok_def)
  next
    case destroys
    with assms(3) show ?thesis by (simp add: wake_ok_def)
  next
    case (puts_pill k t q ph)
    have "t < nall p" using n puts_pill(5) by simp
    from wake_put [OF assms(3,2) this puts_pill(6-8)] puts_pill(2) show ?thesis by (simp add: wake_ok_def)
  next
    case (pill_waits k t q)
    note w = enq_waits [OF pill_waits(7)]
    have "tally sleeps_item (nall p) ((phase p)(t := Wait_space None False)) = tally sleeps_item (nall p) (phase p)"
      "tally woken_item (nall p) ((phase p)(t := Wait_space None False)) = tally woken_item (nall p) (phase p)"
      using pill_waits(6) by (auto simp: tally_same)
    with w pill_waits(2) assms(3) show ?thesis by (simp add: wake_ok_def)
  qed
qed

section \<open>Jobs\<close>

fun added_job :: "'j pool_event \<Rightarrow> 'j list" where
  "added_job (Added j) = [j]"
| "added_job _ = []"

fun taken_job :: "'j pool_event \<Rightarrow> 'j list" where
  "taken_job (Took j) = [j]"
| "taken_job _ = []"

fun ran_job :: "'j pool_event \<Rightarrow> 'j list" where
  "ran_job (Ran j) = [j]"
| "ran_job _ = []"

definition jobs :: "('j pool_event \<Rightarrow> 'j list) \<Rightarrow> 'j pool_event list \<Rightarrow> 'j list" where
  "jobs f es = concat (map f es)"

lemma jobs_simps [simp]: "jobs f [] = []" "jobs f (es @ fs) = jobs f es @ jobs f fs" "jobs f (e # es) = f e @ jobs f es"
  by (simp_all add: jobs_def)

fun running :: "'j phase \<Rightarrow> 'j multiset" where
  "running (Runs j) = {#j#}"
| "running _ = {#}"

definition exited :: "'j thr_pool \<Rightarrow> nat" where
  "exited p = tally (\<lambda>x. x = Exited) (nthreads p) (phase p)"

text \<open>
  The queue holds the jobs that were added and not taken, and behind them the pills that
  no worker took; a worker only exits when no job is left.
\<close>

definition queue_ok :: "'j pool_event list \<Rightarrow> 'j thr_pool \<Rightarrow> bool" where
  "queue_ok es p \<longleftrightarrow> (\<exists>js np. fq (jobq p) = map Some js @ replicate np None \<and>
     jobs added_job es = jobs taken_job es @ js \<and>
     (case pills p of None \<Rightarrow> np = 0 \<and> exited p = 0 | Some k \<Rightarrow> k = np + exited p \<and> k \<le> nthreads p) \<and>
     (exited p = 0 \<or> js = []))"

definition ran_ok :: "'j pool_event list \<Rightarrow> 'j thr_pool \<Rightarrow> bool" where
  "ran_ok es p \<longleftrightarrow> mset (jobs taken_job es) =
     mset (jobs ran_job es) + (\<Sum>t<nthreads p. running (phase p t))"

lemma running_wake [simp]: "running (wake x) = running x"
  by (cases x) simp_all

lemma running_signal:
  assumes "signal a n ph ph'"
  shows "(\<Sum>t<m. running (ph' t)) = (\<Sum>t<m. running (ph t))"
  using assms by (cases rule: signal.cases) (auto intro: sum.cong)

lemma sum_upd:
  fixes f :: "'a \<Rightarrow> 'b :: comm_monoid_add" and n :: nat
  assumes "t < n"
  shows "(\<Sum>u<n. f ((ph(t := x)) u)) + f (ph t) = (\<Sum>u<n. f (ph u)) + f x"
proof -
  have "(\<Sum>u<n. f ((ph(t := x)) u)) = f x + (\<Sum>u\<in>{..<n} - {t}. f (ph u))"
    using assms by (subst sum.remove [of _ t]) (auto intro: sum.cong)
  moreover have "(\<Sum>u<n. f (ph u)) = f (ph t) + (\<Sum>u\<in>{..<n} - {t}. f (ph u))"
    using assms by (subst sum.remove [of _ t]) auto
  ultimately show ?thesis by (simp add: ac_simps)
qed

lemma sum_upd_same:
  fixes f :: "'a \<Rightarrow> 'b :: comm_monoid_add"
  shows "f x = f (ph t) \<Longrightarrow> (\<Sum>u<n. f ((ph(t := x)) u)) = (\<Sum>u<n. f (ph u))"
  by (intro sum.cong) auto

lemma exited_signal:
  assumes "signal a n ph ph'" "\<And>x. a x \<Longrightarrow> sleeps_item x \<or> sleeps_space x"
  shows "tally (\<lambda>x. x = Exited) m ph' = tally (\<lambda>x. x = Exited) m ph"
  using assms(1)
proof (rule signal_other)
  fix x assume "a x"
  with assms(2) show "(wake x = Exited) = (x = Exited)" by (cases x) auto
qed

lemma queue_put:
  assumes "queue_ok es p" "fq q = fq (jobq p) @ [Some j]" "pills p = None"
    and "exited (p\<lparr>jobq := q, phase := ph\<rparr>) = exited p"
  shows "queue_ok (es @ [Added j]) (p\<lparr>jobq := q, phase := ph\<rparr>)"
proof -
  from assms(1,3) obtain js where "fq (jobq p) = map Some js" "jobs added_job es = jobs taken_job es @ js" "exited p = 0"
    by (auto simp: queue_ok_def)
  with assms show ?thesis by (intro queue_ok_def [THEN iffD2] exI [of _ "js @ [j]"] exI [of _ 0]) simp
qed

lemma queue_take:
  assumes "queue_ok es p" "fq (jobq p) = j # fq q"
    and "exited (p\<lparr>jobq := q, phase := ph\<rparr>) = exited p + of_bool (j = None)"
  shows "queue_ok (es @ [case j of None \<Rightarrow> Died | Some f \<Rightarrow> Took f]) (p\<lparr>jobq := q, phase := ph\<rparr>)"
proof -
  from assms(1) obtain js np where q: "fq (jobq p) = map Some js @ replicate np None"
    "jobs added_job es = jobs taken_job es @ js"
    "case pills p of None \<Rightarrow> np = 0 \<and> exited p = 0 | Some k \<Rightarrow> k = np + exited p \<and> k \<le> nthreads p"
    "exited p = 0 \<or> js = []" by (auto simp: queue_ok_def)
  show ?thesis
  proof (cases js)
    case Nil
    with q(1) assms(2) obtain m where "np = Suc m" "j = None" "fq q = replicate m None"
      by (cases np) auto
    with Nil q assms(3) show ?thesis
      by (intro queue_ok_def [THEN iffD2] exI [of _ "[]"] exI [of _ m]) (auto split: option.splits)
  next
    case (Cons f fs)
    with q(1) assms(2) have "j = Some f" "fq q = map Some fs @ replicate np None" by simp_all
    with Cons q assms(3) show ?thesis
      by (intro queue_ok_def [THEN iffD2] exI [of _ fs] exI [of _ np]) (auto split: option.splits)
  qed
qed

lemma exited_upd: "x \<noteq> Exited \<Longrightarrow> phase p t \<noteq> Exited \<Longrightarrow> exited (p\<lparr>jobq := q, phase := (phase p)(t := x)\<rparr>) = exited p"
  by (simp add: exited_def tally_same)

lemma queue_keep:
  assumes "queue_ok es p" "added_job e = []" "taken_job e = []" "x \<noteq> Exited" "phase p t \<noteq> Exited"
  shows "queue_ok (es @ [e]) (p\<lparr>phase := (phase p)(t := x)\<rparr>)"
proof -
  have "exited (p\<lparr>phase := (phase p)(t := x)\<rparr>) = exited p" using assms(4,5) by (simp add: exited_def tally_same)
  moreover from assms(1) obtain js np where "fq (jobq p) = map Some js @ replicate np None"
    "jobs added_job es = jobs taken_job es @ js"
    "case pills p of None \<Rightarrow> np = 0 \<and> exited p = 0 | Some k \<Rightarrow> k = np + exited p \<and> k \<le> nthreads p"
    "exited p = 0 \<or> js = []" by (auto simp: queue_ok_def)
  ultimately show ?thesis
    using assms(2,3) by (intro queue_ok_def [THEN iffD2] exI [of _ js] exI [of _ np]) (cases "pills p"; simp)
qed

lemma exited_sig:
  assumes "signal sleeps_item n ((phase p)(t := x)) ph \<or> signal sleeps_space n ((phase p)(t := x)) ph \<or> ph = (phase p)(t := x)"
  shows "exited (p\<lparr>jobq := q, phase := ph\<rparr>) = exited (p\<lparr>jobq := q, phase := (phase p)(t := x)\<rparr>)"
  using assms exited_signal [of sleeps_item n _ ph "nthreads p"] exited_signal [of sleeps_space n _ ph "nthreads p"]
  by (auto simp: exited_def)

lemma queue_step:
  assumes "pool_step p e p'" "phase_ok p" "queue_ok es p"
  shows "queue_ok (es @ [e]) p'"
  using assms(1)
proof cases
  case (adds t j q ph)
  have "exited (p\<lparr>jobq := q, phase := ph\<rparr>) = exited p"
    using exited_sig [where p = p and q = q and t = t and x = Out and ph = ph and n = "nall p"] adds(6,8) exited_upd [of Out p t q] by auto
  with queue_put [OF assms(3) enq_contents(1) [OF adds(7) [unfolded addJob_def]] adds(3)] adds(1,2) show ?thesis by simp
next
  case (add_waits t j q)
  then have "q = jobq p" using enq_waits [OF add_waits(7) [unfolded addJob_def]] by simp
  with add_waits queue_keep [OF assms(3), of e "Wait_space (Some j) False" t] show ?thesis by auto
next
  case (add_refused t j q)
  then have "q = jobq p" by (simp add: addJob_def enq_def split: if_split_asm)
  with add_refused assms(3) show ?thesis by (simp add: queue_ok_def exited_def)
next
  case (takes t j space q ph)
  have "exited (p\<lparr>jobq := q, phase := (phase p)(t := do_worker j)\<rparr>) = exited p + of_bool (j = None)"
    using tally_upd [OF takes(3), of "\<lambda>x. x = Exited" "phase p" "do_worker j"] takes(4)
    by (auto simp: exited_def do_worker_def split: option.splits)
  moreover have "exited (p\<lparr>jobq := q, phase := ph\<rparr>) = exited (p\<lparr>jobq := q, phase := (phase p)(t := do_worker j)\<rparr>)"
    using takes(6) by (intro exited_sig [where n = "nall p"]) (auto split: if_split_asm)
  ultimately show ?thesis
    using queue_take [OF assms(3) deq_contents(1) [OF takes(5) [unfolded takeJob_def]]] takes(1,2) by simp
next
  case (take_waits t q)
  then have "q = jobq p" using deq_waits [OF take_waits(5) [unfolded takeJob_def]] by simp
  with take_waits queue_keep [OF assms(3), of e "Wait_item False" t] show ?thesis by auto
next
  case (finishes t j)
  with queue_keep [OF assms(3), of e Out t] show ?thesis by simp
next
  case destroys
  with assms(3) show ?thesis by (auto simp: queue_ok_def exited_def)
next
  case (puts_pill k t q ph)
  have ex: "exited (p\<lparr>jobq := q, phase := ph\<rparr>) = exited p"
    using exited_sig [where p = p and q = q and t = t and x = Out and ph = ph and n = "nall p"] puts_pill(6,8) exited_upd [of Out p t q] by auto
  from assms(3) puts_pill(3) obtain js np where q: "fq (jobq p) = map Some js @ replicate np None"
    "jobs added_job es = jobs taken_job es @ js" "k = np + exited p" "exited p = 0 \<or> js = []"
    by (auto simp: queue_ok_def)
  with enq_contents(1) [OF puts_pill(7)] have "fq q = map Some js @ replicate (Suc np) None"
    by (simp add: replicate_append_same)
  with q ex puts_pill(1,2,4) show ?thesis
    by (intro queue_ok_def [THEN iffD2] exI [of _ js] exI [of _ "Suc np"]) (simp add: exited_def)
next
  case (pill_waits k t q)
  then have "q = jobq p" using enq_waits [OF pill_waits(7)] by simp
  with pill_waits queue_keep [OF assms(3), of e "Wait_space None False" t] show ?thesis by auto
qed

lemma ran_step:
  assumes "pool_step p e p'" "phase_ok p" "ran_ok es p"
  shows "ran_ok (es @ [e]) p'"
proof -
  have keep: "(\<Sum>u<n. running (((phase p)(t := x)) u)) = (\<Sum>u<n. running (phase p u))"
    if "running x = {#}" "running (phase p t) = {#}" for x t n
    using that by (intro sum_upd_same) simp
  note sig = running_signal [of _ _ _ _ "nthreads p"]
  from assms(1) show ?thesis
  proof cases
    case (adds t j q ph)
    with keep [of Out t] sig [OF adds(8)] assms(3) show ?thesis by (auto simp: ran_ok_def simp del: fun_upd_apply)
  next
    case (add_waits t j q)
    with keep [of "Wait_space (Some j) False" t] assms(3) show ?thesis by (auto simp: ran_ok_def simp del: fun_upd_apply)
  next
    case (add_refused t j q)
    with assms(3) show ?thesis by (simp add: ran_ok_def)
  next
    case (takes t j space q ph)
    have "(\<Sum>u<nthreads p. running (ph u)) = (\<Sum>u<nthreads p. running (((phase p)(t := do_worker j)) u))"
    proof (cases space)
      case True
      with takes(6) have "signal sleeps_space (nall p) ((phase p)(t := do_worker j)) ph" by simp
      from sig [OF this] show ?thesis .
    qed (use takes(6) in simp)
    also have "\<dots> = (\<Sum>u<nthreads p. running (phase p u)) + running (do_worker j)"
      using sum_upd [OF takes(3), of running "phase p" "do_worker j"] takes(4) by auto
    finally show ?thesis
      using takes(1,2) assms(3) by (cases j) (simp_all add: ran_ok_def do_worker_def)
  next
    case (take_waits t q)
    with keep [of "Wait_item False" t] assms(3) show ?thesis by (auto simp: ran_ok_def simp del: fun_upd_apply)
  next
    case (finishes t j)
    have "(\<Sum>u<nthreads p. running (((phase p)(t := Out)) u)) + {#j#} = (\<Sum>u<nthreads p. running (phase p u))"
      using sum_upd [OF finishes(3), of running "phase p" Out] finishes(4) by simp
    with finishes(1,2) assms(3) show ?thesis by (simp add: ran_ok_def ac_simps del: fun_upd_apply)
  next
    case destroys
    with assms(3) show ?thesis by (simp add: ran_ok_def)
  next
    case (puts_pill k t q ph)
    with keep [of Out t] sig [OF puts_pill(8)] assms(3) show ?thesis by (auto simp: ran_ok_def simp del: fun_upd_apply)
  next
    case (pill_waits k t q)
    with keep [of "Wait_space None False" t] assms(3) show ?thesis by (auto simp: ran_ok_def simp del: fun_upd_apply)
  qed
qed

section \<open>The destructor ends\<close>

text \<open>What is left to do once the destructor runs; every step makes it smaller.\<close>

fun phase_work :: "'j phase \<Rightarrow> nat" where
  "phase_work Out = 1"
| "phase_work (Wait_space e w) = of_bool w"
| "phase_work (Wait_item w) = of_bool w"
| "phase_work (Runs j) = 2"
| "phase_work Exited = 0"

definition pool_work :: "'j thr_pool \<Rightarrow> nat" where
  "pool_work p = 5 * (nthreads p - (case pills p of None \<Rightarrow> 0 | Some k \<Rightarrow> k)) + 3 * length (fq (jobq p)) +
     (\<Sum>t<nall p. phase_work (phase p t))"

lemma work_signal:
  assumes "signal a n ph ph'" "\<And>x. a x \<Longrightarrow> sleeps_item x \<or> sleeps_space x"
  shows "(\<Sum>t<n. phase_work (ph' t)) \<le> (\<Sum>t<n. phase_work (ph t)) + 1"
  using assms(1)
proof (cases rule: signal.cases)
  case (wakes_one u)
  from assms(2) [OF wakes_one(3)] have "phase_work (ph u) = 0" "phase_work (wake (ph u)) = 1"
    by (cases "ph u"; simp)+
  with sum_upd [OF wakes_one(2), of phase_work ph "wake (ph u)"] wakes_one(1) show ?thesis by simp
qed simp

lemma work_upd:
  fixes n :: nat
  assumes "t < n" "phase_work (ph t) = a" "phase_work x = b"
  shows "(\<Sum>u<n. phase_work ((ph(t := x)) u)) + a = (\<Sum>u<n. phase_work (ph u)) + b"
  using sum_upd [OF assms(1), of phase_work ph x] assms(2,3) by simp

lemma work_step:
  assumes "pool_step p e p'" "phase_ok p" "pills p = Some k"
  shows "pool_work p' < pool_work p \<and> (\<exists>k. pills p' = Some k)"
proof -
  have n: "nthreads p < nall p" using assms(2) by (simp add: phase_ok_def)
  from assms(1) show ?thesis
  proof cases
    case (takes t j space q ph)
    have t: "t < nall p" using takes(3) n by simp
    have "phase_work (phase p t) = 1" using takes(4) by auto
    moreover have "phase_work (do_worker j) \<le> 2" by (simp add: do_worker_def split: option.split)
    ultimately have "(\<Sum>u<nall p. phase_work (((phase p)(t := do_worker j)) u)) \<le> (\<Sum>u<nall p. phase_work (phase p u)) + 1"
      using work_upd [OF t refl refl, of "phase p" "do_worker j"] by simp
    moreover have "(\<Sum>u<nall p. phase_work (ph u)) \<le> (\<Sum>u<nall p. phase_work (((phase p)(t := do_worker j)) u)) + 1"
      using takes(6) work_signal [of sleeps_space "nall p" "(phase p)(t := do_worker j)" ph] by (cases space) auto
    ultimately show ?thesis
      using takes(2) assms(3) deq_contents(1) [OF takes(5) [unfolded takeJob_def]] by (simp add: pool_work_def)
  next
    case (take_waits t q)
    have "t < nall p" "phase_work (phase p t) = 1" using take_waits(3,4) n by auto
    from work_upd [where ph = "phase p" and x = "Wait_item False" and b = 0, OF this] take_waits(2) assms(3) deq_waits [OF take_waits(5) [unfolded takeJob_def]]
    show ?thesis by (simp add: pool_work_def del: fun_upd_apply)
  next
    case (finishes t j)
    have "t < nall p" "phase_work (phase p t) = 2" using finishes(3,4) n by auto
    from work_upd [where ph = "phase p" and x = Out and b = 1, OF this] finishes(2) assms(3) show ?thesis by (simp add: pool_work_def del: fun_upd_apply)
  next
    case (puts_pill l t q ph)
    have t: "t < nall p" "phase_work (phase p t) = 1" using puts_pill(5,6) n by auto
    from work_upd [where ph = "phase p" and x = Out and b = 1, OF t]
    have "(\<Sum>u<nall p. phase_work (((phase p)(t := Out)) u)) = (\<Sum>u<nall p. phase_work (phase p u))" by simp
    with work_signal [OF puts_pill(8)] have "(\<Sum>u<nall p. phase_work (ph u)) \<le> (\<Sum>u<nall p. phase_work (phase p u)) + 1"
      by simp
    with puts_pill(2,3,4) enq_contents(1) [OF puts_pill(7)] show ?thesis by (simp add: pool_work_def)
  next
    case (pill_waits l t q)
    have "t < nall p" "phase_work (phase p t) = 1" using pill_waits(5,6) n by auto
    from work_upd [where ph = "phase p" and x = "Wait_space None False" and b = 0, OF this] pill_waits(2,3) enq_waits [OF pill_waits(7)]
    show ?thesis by (simp add: pool_work_def del: fun_upd_apply)
  qed (use assms(3) in simp_all)
qed

lemma signal_exists: "\<exists>ph'. signal a n ph ph'"
  by (cases "\<exists>u < n. a (ph u)") (auto intro: wakes_one wakes_none)

text \<open>While the destructor runs and a worker is left, some thread can go on.\<close>

lemma take_enabled:
  assumes "t < nthreads p" "phase p t = Out \<or> phase p t = Wait_item True"
  shows "\<exists>e p'. pool_step p e p'"
proof -
  obtain r q where r: "takeJob p = (r, q)" by (cases "takeJob p") auto
  show ?thesis
  proof (cases r)
    case None
    with pool_step.take_waits [OF assms] r show ?thesis by blast
  next
    case (Some js)
    obtain j space where js: "js = (j, space)" by (cases js) auto
    obtain ph where "signal sleeps_space (nall p) ((phase p)(t := do_worker j)) ph" using signal_exists by blast
    then have "if space then signal sleeps_space (nall p) ((phase p)(t := do_worker j)) (if space then ph else (phase p)(t := do_worker j))
      else (if space then ph else (phase p)(t := do_worker j)) = (phase p)(t := do_worker j)" by simp
    from pool_step.takes [OF assms _ this] r Some js show ?thesis by blast
  qed
qed

lemma pill_enabled:
  assumes "pills p = Some k" "k < nthreads p" "phase p (nthreads p) = Out \<or> phase p (nthreads p) = Wait_space None True"
  shows "\<exists>e p'. pool_step p e p'"
proof -
  obtain r q where r: "enq None True (jobq p) = (r, q)" by (cases "enq None True (jobq p)") auto
  obtain ph where "signal sleeps_item (nall p) ((phase p)(nthreads p := Out)) ph" using signal_exists by blast
  moreover have "r \<noteq> Enq_refused" using r by (auto simp: enq_def split: if_split_asm)
  ultimately show ?thesis
    using pool_step.puts_pill [OF assms(1,2) refl assms(3)] pool_step.pill_waits [OF assms(1,2) refl assms(3)] r
    by (cases r) blast+
qed

lemma destructor_progress:
  assumes "phase_ok p" "wake_ok p" "queue_ok es p" "pills p = Some k" "t < nthreads p" "phase p t \<noteq> Exited"
  shows "\<exists>e p'. pool_step p e p'"
proof (rule ccontr)
  assume stuck: "\<not> ?thesis"
  from assms(1) have n: "nthreads p < nall p" and fits: "\<And>u. fits p u (phase p u)" by (simp_all add: phase_ok_def)
  have idle: "phase p u = Exited \<or> phase p u = Wait_item False" if "u < nthreads p" for u
    using fits [of u] that take_enabled [OF that] pool_step.finishes [OF that] stuck
    by (cases "phase p u") (auto simp: fits_def)
  have "\<not> woken_item (phase p u)" if "u < nall p" for u
    using idle [of u] fits [of u] by (cases "u < nthreads p") (auto simp: fits_def split: phase.split_asm)
  then have "tally woken_item (nall p) (phase p) = 0" by (simp add: tally_0)
  moreover have "tally sleeps_item (nall p) (phase p) \<noteq> 0"
    using idle [OF assms(5)] assms(5,6) n by (auto simp: tally_0 intro!: exI [of _ t])
  ultimately have "fq (jobq p) = []" using assms(2) by (simp add: wake_ok_def)
  moreover have "exited p < nthreads p"
  proof -
    have "{u. u < nthreads p \<and> phase p u = Exited} \<subset> {..<nthreads p}" using assms(5,6) by auto
    from psubset_card_mono [OF _ this] show ?thesis by (simp add: exited_def tally_def)
  qed
  ultimately have k: "k < nthreads p" using assms(3,4) by (auto simp: queue_ok_def)
  have "phase p (nthreads p) = Wait_space None False"
    using fits [of "nthreads p"] pill_enabled [OF assms(4) k] stuck assms(4)
    by (cases "phase p (nthreads p)") (auto simp: fits_def)
  then have "tally sleeps_space (nall p) (phase p) \<noteq> 0" using n by (auto simp: tally_0)
  moreover have "\<not> woken_space (phase p u)" if "u < nall p" for u
    using fits [of u] idle [of u] \<open>phase p (nthreads p) = Wait_space None False\<close> assms(4)
    by (cases "u < nthreads p") (auto simp: fits_def split: phase.split_asm)
  then have "tally woken_space (nall p) (phase p) = 0" by (simp add: tally_0)
  ultimately show False using assms(2) \<open>fq (jobq p) = []\<close> by (auto simp: wake_ok_def)
qed

section \<open>Properties\<close>

definition pool_inv :: "'j pool_event list \<Rightarrow> 'j thr_pool \<Rightarrow> bool" where
  "pool_inv es p \<longleftrightarrow> phase_ok p \<and> wake_ok p \<and> queue_ok es p \<and> ran_ok es p"

lemma pool_inv_new: "n < m \<Longrightarrow> pool_inv [] (thr_pool_new n b m)"
  by (auto simp: pool_inv_def phase_ok_def fits_def wake_ok_def queue_ok_def ran_ok_def thr_pool_new_def
      fifo_new_def exited_def tally_def)

lemma pool_inv_step: "pool_step p e p' \<Longrightarrow> pool_inv es p \<Longrightarrow> pool_inv (es @ [e]) p'"
  unfolding pool_inv_def using phase_ok_step wake_step queue_step ran_step by blast

lemma pool_inv_run: "pool_run p0 fs p \<Longrightarrow> pool_inv es p0 \<Longrightarrow> pool_inv (es @ fs) p"
proof (induction rule: pool_run.induct)
  case (pool_next p fs p' e p'')
  with pool_inv_step [OF pool_next.hyps(2)] show ?case by (metis append_assoc)
qed simp

lemma pool_reachable: "pool_run (thr_pool_new n b m) es p \<Longrightarrow> n < m \<Longrightarrow> pool_inv es p"
  using pool_inv_run [OF _ pool_inv_new, of n b m es p] by simp

lemma pool_step_constants: "pool_step p e p' \<Longrightarrow> nthreads p' = nthreads p \<and> nall p' = nall p"
  by (auto elim: pool_stepE)

lemma pool_run_constants: "pool_run p es p' \<Longrightarrow> nthreads p' = nthreads p \<and> nall p' = nall p"
  by (induction rule: pool_run.induct) (auto dest: pool_step_constants)

text \<open>
  C18: the pool runs every job once, and starts them in order. In every history the jobs that
  workers took are the first of those that were added, each runs at most once, and when all
  workers have exited every job that was added has run, no job and no pill is left.
\<close>

theorem pool_runs_every_job:
  assumes "pool_run (thr_pool_new n b m) es p" "0 < n" "n < m"
  shows "(\<exists>rest. jobs added_job es = jobs taken_job es @ rest) \<and>
     mset (jobs ran_job es) \<subseteq># mset (jobs taken_job es) \<and>
     ((\<forall>t < n. phase p t = Exited) \<longrightarrow>
        mset (jobs ran_job es) = mset (jobs added_job es) \<and> fq (jobq p) = [] \<and> pills p = Some n)"
proof -
  note inv = pool_reachable [OF assms(1,3)]
  then have ran: "ran_ok es p" by (simp add: pool_inv_def)
  have n: "nthreads p = n" using pool_run_constants [OF assms(1)] by (simp add: thr_pool_new_def)
  from inv obtain js np where q: "fq (jobq p) = map Some js @ replicate np None"
    "jobs added_job es = jobs taken_job es @ js"
    "case pills p of None \<Rightarrow> np = 0 \<and> exited p = 0 | Some k \<Rightarrow> k = np + exited p \<and> k \<le> nthreads p"
    "exited p = 0 \<or> js = []" by (auto simp: pool_inv_def queue_ok_def)
  have "mset (jobs ran_job es) = mset (jobs added_job es) \<and> fq (jobq p) = [] \<and> pills p = Some n"
    if all: "\<forall>t < n. phase p t = Exited"
  proof -
    have "{t. t < n \<and> phase p t = Exited} = {..<n}" using all by auto
    then have ex: "exited p = n" using n by (simp add: exited_def tally_def)
    then have "js = []" "np = 0" "pills p = Some n" using q(3,4) assms(2) n by (auto split: option.split_asm)
    moreover have "(\<Sum>t<nthreads p. running (phase p t)) = {#}" using all n by simp
    ultimately show ?thesis using q ran by (simp add: ran_ok_def)
  qed
  with q(2) ran show ?thesis by (auto simp: ran_ok_def)
qed


text \<open>
  C34: no wake-up is lost. In every history, while a worker sleeps although there are jobs,
  another was woken for them, and while a thread sleeps for space although the queue is not
  full, another was woken for it.
\<close>

theorem pool_wakes_workers:
  assumes "pool_run (thr_pool_new n b m) es p" "n < m"
  shows "((\<exists>t < m. phase p t = Wait_item False) \<and> fq (jobq p) \<noteq> [] \<longrightarrow> (\<exists>t < n. phase p t = Wait_item True))
   \<and> ((\<exists>t < m. \<exists>e. phase p t = Wait_space e False) \<and> length (fq (jobq p)) < max_items (jobq p) \<longrightarrow>
       (\<exists>t < m. \<exists>e. phase p t = Wait_space e True))"
proof -
  note inv = pool_reachable [OF assms]
  have c: "nthreads p = n" "nall p = m"
    using pool_run_constants [OF assms(1)] by (simp_all add: thr_pool_new_def)
  have w: "wake_ok p" and fits: "\<And>u. fits p u (phase p u)" using inv by (simp_all add: pool_inv_def phase_ok_def)
  have items: "(\<exists>t < m. phase p t = Wait_item False) \<and> fq (jobq p) \<noteq> [] \<longrightarrow> (\<exists>t < n. phase p t = Wait_item True)"
  proof
    assume a: "(\<exists>t < m. phase p t = Wait_item False) \<and> fq (jobq p) \<noteq> []"
    then have "tally sleeps_item m (phase p) \<noteq> 0" by (auto simp: tally_0)
    then have "length (fq (jobq p)) \<le> tally woken_item m (phase p)" using w c by (simp add: wake_ok_def)
    then have "tally woken_item m (phase p) \<noteq> 0" using a by (cases "fq (jobq p)") auto
    then obtain u where "u < m" "phase p u = Wait_item True" by (auto simp: tally_0 woken_item_def)
    with fits [of u] c show "\<exists>t < n. phase p t = Wait_item True" by (auto simp: fits_def split: if_split_asm)
  qed
  have "(\<exists>t < m. \<exists>e. phase p t = Wait_space e False) \<and> length (fq (jobq p)) < max_items (jobq p) \<longrightarrow>
       (\<exists>t < m. \<exists>e. phase p t = Wait_space e True)"
  proof
    assume a: "(\<exists>t < m. \<exists>e. phase p t = Wait_space e False) \<and> length (fq (jobq p)) < max_items (jobq p)"
    then have "tally sleeps_space m (phase p) \<noteq> 0" by (auto simp: tally_0)
    with a w c have "tally woken_space m (phase p) \<noteq> 0" by (auto simp: wake_ok_def)
    then obtain t where t: "t < m" "woken_space (phase p t)" by (auto simp: tally_0)
    then show "\<exists>t < m. \<exists>e. phase p t = Wait_space e True" by (cases "phase p t") auto
  qed
  with items show ?thesis by blast
qed

section \<open>Witnesses\<close>

text \<open>A pool of one worker, a caller that adds a job, and the destructor.\<close>

definition sample_pool :: "nat thr_pool" where
  "sample_pool = thr_pool_new 1 True 2"

lemma signal_id: "\<forall>u < n. \<not> asleep (ph u) \<Longrightarrow> signal asleep n ph ph"
  by (rule wakes_none)

lemma pool_run_step: "pool_run p es p' \<Longrightarrow> pool_step p' e p'' \<Longrightarrow> fs = es @ [e] \<Longrightarrow> pool_run p fs p''"
  by (simp add: pool_next)

definition pool_with :: "nat option list \<Rightarrow> nat phase \<Rightarrow> nat option \<Rightarrow> nat thr_pool" where
  "pool_with q ph k = sample_pool\<lparr>jobq := \<lparr>fq = q, max_items = 100\<rparr>, phase := (\<lambda>_. Out)(0 := ph), pills := k\<rparr>"

lemmas pool_sample_defs = pool_with_def sample_pool_def thr_pool_new_def fifo_new_def addJob_def takeJob_def enq_def deq_def

lemma sample_add: "pool_step sample_pool (Added 7) (pool_with [Some 7] Out None)"
  using pool_step.adds [where p = sample_pool and t = 1 and j = 7 and q = "\<lparr>fq = [Some 7], max_items = 100\<rparr>" and ph = "\<lambda>_. Out"]
  by (simp add: pool_sample_defs signal_id fun_upd_idem)

lemma sample_destroys: "pool_step (pool_with [Some 7] Out None) Destroys (pool_with [Some 7] Out (Some 0))"
  using pool_step.destroys [of "pool_with [Some 7] Out None"] by (simp add: pool_sample_defs)

lemma sample_pill: "pool_step (pool_with [Some 7] Out (Some 0)) Pill (pool_with [Some 7, None] Out (Some 1))"
  using pool_step.puts_pill [where p = "pool_with [Some 7] Out (Some 0)" and t = 1 and k = 0
      and q = "\<lparr>fq = [Some 7, None], max_items = 100\<rparr>" and ph = "(\<lambda>_. Out)(0 := Out)"]
  by (simp add: pool_sample_defs signal_id fun_upd_idem)

lemma sample_take: "pool_step (pool_with [Some 7, None] Out (Some 1)) (Took 7) (pool_with [None] (Runs 7) (Some 1))"
  using pool_step.takes [where p = "pool_with [Some 7, None] Out (Some 1)" and t = 0 and j = "Some 7" and space = True
      and q = "\<lparr>fq = [None], max_items = 100\<rparr>" and ph = "(\<lambda>_. Out)(0 := Runs 7)"]
  by (simp add: pool_sample_defs do_worker_def signal_id fun_upd_idem)

lemma sample_finish: "pool_step (pool_with [None] (Runs 7) (Some 1)) (Ran 7) (pool_with [None] Out (Some 1))"
  using pool_step.finishes [of 0 "pool_with [None] (Runs 7) (Some 1)" 7] by (simp add: pool_sample_defs fun_upd_idem)

lemma sample_die: "pool_step (pool_with [None] Out (Some 1)) Died (pool_with [] Exited (Some 1))"
  using pool_step.takes [where p = "pool_with [None] Out (Some 1)" and t = 0 and j = None and space = True
      and q = "\<lparr>fq = [], max_items = 100\<rparr>" and ph = "(\<lambda>_. Out)(0 := Exited)"]
  by (simp add: pool_sample_defs do_worker_def signal_id fun_upd_idem)

lemma sample_destroying: "pool_run sample_pool [Added 7, Destroys] (pool_with [Some 7] Out (Some 0))"
  by (rule pool_run_step [OF pool_run_step [OF pool_start sample_add refl] sample_destroys]) simp

lemma sample_ending: "pool_run (pool_with [Some 7] Out (Some 0)) [Pill, Took 7, Ran 7, Died] (pool_with [] Exited (Some 1))"
  by (rule pool_run_step [OF pool_run_step [OF pool_run_step [OF pool_run_step [OF pool_start
        sample_pill refl] sample_take refl] sample_finish refl] sample_die]) simp

lemma sample_all: "pool_run sample_pool [Added 7, Destroys, Pill, Took 7, Ran 7, Died] (pool_with [] Exited (Some 1))"
  by (rule pool_run_step [OF pool_run_step [OF pool_run_step [OF pool_run_step [OF sample_destroying
        sample_pill refl] sample_take refl] sample_finish refl] sample_die]) simp

theorem pool_runs_every_job_witness:
  "mset (jobs ran_job [Added 7, Destroys, Pill, Took 7, Ran 7, Died]) = {#7 :: nat#}"
  using pool_runs_every_job [OF sample_all [unfolded sample_pool_def]] by (simp add: pool_with_def)


text \<open>Two workers sleep, and a job wakes one of them.\<close>

definition pool_two :: "nat option list \<Rightarrow> nat phase \<Rightarrow> nat phase \<Rightarrow> nat thr_pool" where
  "pool_two q ph0 ph1 = (thr_pool_new 2 True 3)\<lparr>jobq := \<lparr>fq = q, max_items = 200\<rparr>,
     phase := (\<lambda>_. Out)(0 := ph0, 1 := ph1)\<rparr>"

lemmas pool_two_defs = pool_two_def thr_pool_new_def fifo_new_def addJob_def takeJob_def enq_def deq_def

lemma pool_two_run:
  "pool_run (thr_pool_new 2 True 3) [Sleeps, Sleeps, Added 7] (pool_two [Some 7] (Wait_item True) (Wait_item False))"
proof -
  have i: "thr_pool_new 2 True 3 = pool_two [] Out Out"
    by (simp add: pool_two_defs fun_upd_idem)
  have a: "pool_step (pool_two [] Out Out) Sleeps (pool_two [] (Wait_item False) Out)"
    using pool_step.take_waits [where p = "pool_two [] Out Out" and t = 0 and q = "\<lparr>fq = [], max_items = 200\<rparr>"]
    by (simp add: pool_two_defs fun_upd_twist)
  have b: "pool_step (pool_two [] (Wait_item False) Out) Sleeps (pool_two [] (Wait_item False) (Wait_item False))"
    using pool_step.take_waits [where p = "pool_two [] (Wait_item False) Out" and t = 1 and q = "\<lparr>fq = [], max_items = 200\<rparr>"]
    by (simp add: pool_two_defs)
  let ?ph = "(\<lambda>_. Out)(0 := Wait_item False, 1 := Wait_item False) :: nat \<Rightarrow> nat phase"
  have w: "signal sleeps_item 3 ?ph (?ph(0 := wake (?ph 0)))" by (rule wakes_one) simp_all
  have c: "pool_step (pool_two [] (Wait_item False) (Wait_item False)) (Added 7)
      (pool_two [Some 7] (Wait_item True) (Wait_item False))"
    using pool_step.adds [where p = "pool_two [] (Wait_item False) (Wait_item False)" and t = 2 and j = 7
        and q = "\<lparr>fq = [Some 7], max_items = 200\<rparr>" and ph = "?ph(0 := wake (?ph 0))"] w
    by (simp add: pool_two_defs fun_upd_idem fun_upd_twist)
  show ?thesis unfolding i
    by (rule pool_run_step [OF pool_run_step [OF pool_run_step [OF pool_start a refl] b refl] c]) simp
qed

theorem pool_wakes_workers_witness:
  "\<exists>t < 2. phase (pool_two [Some 7] (Wait_item True) (Wait_item False)) t = Wait_item True"
  using pool_wakes_workers [OF pool_two_run, THEN conjunct1] by (simp add: pool_two_def)

end
