(* ===== verification/PollMgr.thy ===== *)
theory PollMgr
  imports Prelude
begin

text \<open>
  The poll manager (\<open>rpc/pollmgr.h\<close>, \<open>rpc/pollmgr.cc\<close>): its two ways to watch descriptors,
  \<open>SelectAIO\<close> and \<open>EPollAIO\<close>, under one contract, the table of callbacks, and the poll
  thread with the threads that register and remove callbacks.
\<close>

section \<open>Flags\<close>

definition MAX_POLL_FDS :: nat where "MAX_POLL_FDS = 128"

definition CB_NONE :: u32 where "CB_NONE = 0x0"

definition CB_RDONLY :: u32 where "CB_RDONLY = 0x1"

definition CB_WRONLY :: u32 where "CB_WRONLY = 0x10"

definition CB_RDWR :: u32 where "CB_RDWR = 0x11"

definition CB_MASK :: u32 where "CB_MASK = NOT 0x11"

lemmas flag_defs = CB_NONE_def CB_RDONLY_def CB_WRONLY_def CB_RDWR_def CB_MASK_def

section \<open>SelectAIO\<close>

text \<open>
  The two descriptor sets, the highest descriptor, the reading end of the pipe and the number
  of bytes in it. A set has \<open>FD_SETSIZE\<close> bits. The pipe has room for the bytes of this
  program.
\<close>

definition FD_SETSIZE :: nat where "FD_SETSIZE = 1024"

record select_aio =
  rfds :: "nat \<Rightarrow> bool"
  wfds :: "nat \<Rightarrow> bool"
  highfds :: nat
  pipe_fd :: nat
  pipe_bytes :: nat

definition select_new :: "nat \<Rightarrow> select_aio" where
  "select_new p = \<lparr>rfds = (\<lambda>_. False)(p := True), wfds = (\<lambda>_. False), highfds = p, pipe_fd = p, pipe_bytes = 0\<rparr>"

definition select_watch :: "nat \<Rightarrow> u32 \<Rightarrow> select_aio \<Rightarrow> select_aio outcome" where
  "select_watch fd flag s =
     (if FD_SETSIZE \<le> fd then Inl Out_of_bounds
      else
        let s = (if highfds s \<le> fd then s\<lparr>highfds := fd\<rparr> else s);
            s = (if flag = CB_RDONLY then s\<lparr>rfds := (rfds s)(fd := True)\<rparr>
                 else if flag = CB_WRONLY then s\<lparr>wfds := (wfds s)(fd := True)\<rparr>
                 else s\<lparr>rfds := (rfds s)(fd := True), wfds := (wfds s)(fd := True)\<rparr>)
        in Inr (s\<lparr>pipe_bytes := pipe_bytes s + 1\<rparr>))"

definition select_is_watched :: "nat \<Rightarrow> u32 \<Rightarrow> select_aio \<Rightarrow> bool outcome" where
  "select_is_watched fd flag s =
     (if FD_SETSIZE \<le> fd then Inl Out_of_bounds
      else Inr (if flag = CB_RDONLY then rfds s fd
                else if flag = CB_WRONLY then wfds s fd
                else rfds s fd \<and> wfds s fd))"

text \<open>The loop that finds the new highest descriptor.\<close>

definition find_high :: "select_aio \<Rightarrow> nat" where
  "find_high s = foldl (\<lambda>newh i. if rfds s i then i else if wfds s i then i else newh) (pipe_fd s) [0..<Suc (highfds s)]"

definition select_unwatch :: "nat \<Rightarrow> u32 \<Rightarrow> select_aio \<Rightarrow> (bool \<times> select_aio) outcome" where
  "select_unwatch fd flag s =
     (if FD_SETSIZE \<le> fd then Inl Out_of_bounds
      else if \<not> (flag = CB_RDONLY \<or> flag = CB_WRONLY \<or> flag = CB_RDWR) then Inl Assert_failed
      else
        let s = (if flag = CB_RDONLY then s\<lparr>rfds := (rfds s)(fd := False)\<rparr>
                 else if flag = CB_WRONLY then s\<lparr>wfds := (wfds s)(fd := False)\<rparr>
                 else s\<lparr>wfds := (wfds s)(fd := False), rfds := (rfds s)(fd := False)\<rparr>);
            s = (if \<not> rfds s fd \<and> \<not> wfds s fd \<and> fd = highfds s then s\<lparr>highfds := find_high s\<rparr> else s);
            s = (if flag = CB_RDWR then s\<lparr>pipe_bytes := pipe_bytes s + 1\<rparr> else s)
        in Inr (\<not> rfds s fd \<and> \<not> wfds s fd, s))"

text \<open>
  \<open>wait_ready\<close> copies the sets, calls \<open>select\<close> on the descriptors up to the highest, and
  goes through the answer \<open>(r, w)\<close>; the byte of the pipe is read. The result is the lists
  \<open>readable\<close> and \<open>writable\<close>.
\<close>

definition select_collect :: "nat \<Rightarrow> (nat \<Rightarrow> bool) \<Rightarrow> (nat \<Rightarrow> bool) \<Rightarrow> select_aio \<Rightarrow> (nat list \<times> nat list \<times> select_aio) outcome" where
  "select_collect high r w s =
     (let fds = [0..<Suc high];
          pipe_ready = (pipe_fd s \<le> high \<and> r (pipe_fd s));
          other = (\<lambda>fd. \<not> (fd = pipe_fd s \<and> r fd))
      in if pipe_ready \<and> pipe_bytes s = 0 then Inl Assert_failed
         else Inr (filter (\<lambda>fd. other fd \<and> r fd) fds, filter (\<lambda>fd. other fd \<and> w fd) fds,
                   if pipe_ready then s\<lparr>pipe_bytes := pipe_bytes s - 1\<rparr> else s))"

text \<open>
  The whole of \<open>wait_ready\<close> after the copy: a \<open>select\<close> that a signal interrupts returns with nothing
  ready, any other failure ends the program.
\<close>

datatype select_result = Ready "nat \<Rightarrow> bool" "nat \<Rightarrow> bool" | Interrupted | Select_failed

definition select_wait :: "nat \<Rightarrow> select_result \<Rightarrow> select_aio \<Rightarrow> (nat list \<times> nat list \<times> select_aio) outcome" where
  "select_wait high ret s =
     (case ret of Ready r w \<Rightarrow> select_collect high r w s | Interrupted \<Rightarrow> Inr ([], [], s) | Select_failed \<Rightarrow> Inl Assert_failed)"

lemma select_interrupted: "select_wait high Interrupted s = select_wait high (Ready (\<lambda>_. False) (\<lambda>_. False)) s"
  by (simp add: select_wait_def select_collect_def Let_def del: upt_Suc)

section \<open>EPollAIO\<close>

text \<open>
  \<open>fdstatus_\<close>, and the interest list the kernel keeps for the epoll descriptor:
  \<open>epoll_ctl\<close> fails when it adds a descriptor that is there or changes or deletes one that is
  not.
\<close>

definition EPOLLIN :: u32 where "EPOLLIN = 0x1"

definition EPOLLOUT :: u32 where "EPOLLOUT = 0x4"

definition EPOLLET :: u32 where "EPOLLET = 0x80000000"

record epoll_aio =
  fdstatus :: "nat \<Rightarrow> u32"
  kernel :: "nat \<Rightarrow> u32 option"

datatype epoll_op = EPOLL_CTL_ADD | EPOLL_CTL_MOD | EPOLL_CTL_DEL

definition epoll_new :: epoll_aio where
  "epoll_new = \<lparr>fdstatus = (\<lambda>_. 0), kernel = (\<lambda>_. None)\<rparr>"

definition poll_flag_to_event :: "u32 \<Rightarrow> u32" where
  "poll_flag_to_event flag =
     (if flag = CB_RDONLY then EPOLLIN else if flag = CB_WRONLY then EPOLLOUT else EPOLLIN OR EPOLLOUT)"

definition epoll_ctl :: "epoll_op \<Rightarrow> nat \<Rightarrow> u32 \<Rightarrow> (nat \<Rightarrow> u32 option) \<Rightarrow> (nat \<Rightarrow> u32 option) option" where
  "epoll_ctl op1 fd ev k =
     (case op1 of
        EPOLL_CTL_ADD \<Rightarrow> if k fd = None then Some (k(fd \<mapsto> ev)) else None
      | EPOLL_CTL_MOD \<Rightarrow> if k fd = None then None else Some (k(fd \<mapsto> ev))
      | EPOLL_CTL_DEL \<Rightarrow> if k fd = None then None else Some (k(fd := None)))"

definition status_events :: "u32 \<Rightarrow> u32" where
  "status_events st =
     (EPOLLET OR (if st AND CB_RDONLY \<noteq> 0 then EPOLLIN else 0) OR (if st AND CB_WRONLY \<noteq> 0 then EPOLLOUT else 0))"

definition epoll_watch :: "nat \<Rightarrow> u32 \<Rightarrow> epoll_aio \<Rightarrow> epoll_aio outcome" where
  "epoll_watch fd flag s =
     (if MAX_POLL_FDS \<le> fd then Inl Assert_failed
      else
        let op1 = (if fdstatus s fd \<noteq> 0 then EPOLL_CTL_MOD else EPOLL_CTL_ADD);
            st = fdstatus s fd OR flag;
            ev = status_events st
        in if flag = CB_RDWR \<and> ev \<noteq> (EPOLLET OR EPOLLIN OR EPOLLOUT) then Inl Assert_failed
           else case epoll_ctl op1 fd ev (kernel s) of
             None \<Rightarrow> Inl Assert_failed
           | Some k \<Rightarrow> Inr (s\<lparr>fdstatus := (fdstatus s)(fd := st), kernel := k\<rparr>))"

definition epoll_unwatch :: "nat \<Rightarrow> u32 \<Rightarrow> epoll_aio \<Rightarrow> (bool \<times> epoll_aio) outcome" where
  "epoll_unwatch fd flag s =
     (if MAX_POLL_FDS \<le> fd then Inl Assert_failed
      else
        let st = fdstatus s fd AND NOT flag;
            op1 = (if st \<noteq> 0 then EPOLL_CTL_MOD else EPOLL_CTL_DEL);
            ev = status_events st
        in if flag = CB_RDWR \<and> op1 \<noteq> EPOLL_CTL_DEL then Inl Assert_failed
           else case epoll_ctl op1 fd ev (kernel s) of
             None \<Rightarrow> Inl Assert_failed
           | Some k \<Rightarrow> Inr (op1 = EPOLL_CTL_DEL, s\<lparr>fdstatus := (fdstatus s)(fd := st), kernel := k\<rparr>))"

definition epoll_is_watched :: "nat \<Rightarrow> u32 \<Rightarrow> epoll_aio \<Rightarrow> bool outcome" where
  "epoll_is_watched fd flag s =
     (if MAX_POLL_FDS \<le> fd then Inl Assert_failed else Inr ((fdstatus s fd AND CB_MASK) = flag))"

text \<open>\<open>wait_ready\<close>: the events \<open>epoll_wait\<close> returned.\<close>

definition epoll_collect :: "(nat \<times> u32) list \<Rightarrow> nat list \<times> nat list" where
  "epoll_collect ready =
     (map fst (filter (\<lambda>(fd, ev). ev AND EPOLLIN \<noteq> 0) ready), map fst (filter (\<lambda>(fd, ev). ev AND EPOLLOUT \<noteq> 0) ready))"

section \<open>One contract for both\<close>

text \<open>
  \<open>interest s fd\<close> is what is watched: reading, writing. \<open>own fd\<close> is a descriptor of the
  implementation itself, which nobody else watches.
\<close>

definition poll_flags :: "u32 set" where
  "poll_flags = {CB_RDONLY, CB_WRONLY, CB_RDWR}"

definition adds_flag :: "u32 \<Rightarrow> bool \<times> bool \<Rightarrow> bool \<times> bool" where
  "adds_flag flag i = (fst i \<or> flag \<noteq> CB_WRONLY, snd i \<or> flag \<noteq> CB_RDONLY)"

definition clears_flag :: "u32 \<Rightarrow> bool \<times> bool \<Rightarrow> bool \<times> bool" where
  "clears_flag flag i = (fst i \<and> flag = CB_WRONLY, snd i \<and> flag = CB_RDONLY)"

datatype poll_op = Watch nat u32 | Unwatch nat u32

primrec spec_ops :: "poll_op list \<Rightarrow> (nat \<Rightarrow> bool \<times> bool) \<Rightarrow> bool list \<times> (nat \<Rightarrow> bool \<times> bool)" where
  "spec_ops [] i = ([], i)"
| "spec_ops (p # ps) i =
     (case p of
        Watch fd flag \<Rightarrow> spec_ops ps (i(fd := adds_flag flag (i fd)))
      | Unwatch fd flag \<Rightarrow>
          let i' = i(fd := clears_flag flag (i fd)); (bs, j) = spec_ops ps i'
          in ((i' fd = (False, False)) # bs, j))"

primrec poll_ops :: "(nat \<Rightarrow> u32 \<Rightarrow> 's \<Rightarrow> 's outcome) \<Rightarrow> (nat \<Rightarrow> u32 \<Rightarrow> 's \<Rightarrow> (bool \<times> 's) outcome) \<Rightarrow>
    poll_op list \<Rightarrow> 's \<Rightarrow> (bool list \<times> 's) outcome" where
  "poll_ops wat unw [] s = Inr ([], s)"
| "poll_ops wat unw (p # ps) s =
     (case p of
        Watch fd flag \<Rightarrow> andthen (wat fd flag s) (poll_ops wat unw ps)
      | Unwatch fd flag \<Rightarrow>
          andthen (unw fd flag s) (\<lambda>(b, s).
          andthen (poll_ops wat unw ps s) (\<lambda>(bs, s). Inr (b # bs, s))))"

text \<open>A descriptor is only taken off when something of it is watched.\<close>

primrec proper_ops :: "(nat \<Rightarrow> bool) \<Rightarrow> poll_op list \<Rightarrow> (nat \<Rightarrow> bool \<times> bool) \<Rightarrow> bool" where
  "proper_ops own [] i = True"
| "proper_ops own (p # ps) i =
     (case p of
        Watch fd flag \<Rightarrow> fd < MAX_POLL_FDS \<and> \<not> own fd \<and> flag \<in> poll_flags \<and>
          proper_ops own ps (i(fd := adds_flag flag (i fd)))
      | Unwatch fd flag \<Rightarrow> fd < MAX_POLL_FDS \<and> \<not> own fd \<and> flag \<in> poll_flags \<and> i fd \<noteq> (False, False) \<and>
          proper_ops own ps (i(fd := clears_flag flag (i fd))))"

locale aio_mgr =
  fixes wat :: "nat \<Rightarrow> u32 \<Rightarrow> 's \<Rightarrow> 's outcome"
    and unw :: "nat \<Rightarrow> u32 \<Rightarrow> 's \<Rightarrow> (bool \<times> 's) outcome"
    and interest :: "'s \<Rightarrow> nat \<Rightarrow> bool \<times> bool"
    and inv :: "'s \<Rightarrow> bool"
    and own :: "nat \<Rightarrow> bool"
  assumes watch_law: "inv s \<Longrightarrow> fd < MAX_POLL_FDS \<Longrightarrow> \<not> own fd \<Longrightarrow> flag \<in> poll_flags \<Longrightarrow>
      \<exists>s'. wat fd flag s = Inr s' \<and> inv s' \<and> interest s' = (interest s)(fd := adds_flag flag (interest s fd))"
    and unwatch_law: "inv s \<Longrightarrow> fd < MAX_POLL_FDS \<Longrightarrow> \<not> own fd \<Longrightarrow> flag \<in> poll_flags \<Longrightarrow>
      interest s fd \<noteq> (False, False) \<Longrightarrow>
      \<exists>s'. unw fd flag s = Inr (clears_flag flag (interest s fd) = (False, False), s') \<and> inv s' \<and>
        interest s' = (interest s)(fd := clears_flag flag (interest s fd))"
begin

lemma ops_refine:
  "inv s \<Longrightarrow> proper_ops own ps (interest s) \<Longrightarrow>
     \<exists>s'. poll_ops wat unw ps s = Inr (fst (spec_ops ps (interest s)), s') \<and> inv s' \<and>
       interest s' = snd (spec_ops ps (interest s))"
proof (induction ps arbitrary: s)
  case (Cons p ps)
  show ?case
  proof (cases p)
    case (Watch fd flag)
    with Cons.prems have "fd < MAX_POLL_FDS" "\<not> own fd" "flag \<in> poll_flags" by simp_all
    from watch_law [OF Cons.prems(1) this] obtain s' where
      s': "wat fd flag s = Inr s'" "inv s'" "interest s' = (interest s)(fd := adds_flag flag (interest s fd))" by blast
    have "proper_ops own ps ((interest s)(fd := adds_flag flag (interest s fd)))"
      using Cons.prems(2) Watch by simp
    then have "proper_ops own ps (interest s')" by (simp only: s'(3))
    from Cons.IH [OF s'(2) this] show ?thesis using Watch s'(1) by (simp flip: s'(3))
  next
    case (Unwatch fd flag)
    with Cons.prems have "fd < MAX_POLL_FDS" "\<not> own fd" "flag \<in> poll_flags" "interest s fd \<noteq> (False, False)" by simp_all
    from unwatch_law [OF Cons.prems(1) this] obtain s' where
      s': "unw fd flag s = Inr (clears_flag flag (interest s fd) = (False, False), s')" "inv s'"
        "interest s' = (interest s)(fd := clears_flag flag (interest s fd))" by blast
    have "proper_ops own ps ((interest s)(fd := clears_flag flag (interest s fd)))"
      using Cons.prems(2) Unwatch by simp
    then have "proper_ops own ps (interest s')" by (simp only: s'(3))
    from Cons.IH [OF s'(2) this] obtain t where
      "poll_ops wat unw ps s' = Inr (fst (spec_ops ps (interest s')), t)" "inv t" "interest t = snd (spec_ops ps (interest s'))"
      by blast
    with Unwatch s'(1) show ?thesis by (simp add: Let_def split_beta flip: s'(3))
  qed
qed simp

end

section \<open>Both satisfy it\<close>

lemma flag_cases: "flag \<in> poll_flags \<Longrightarrow> flag = CB_RDONLY \<or> flag = CB_WRONLY \<or> flag = CB_RDWR"
  by (auto simp: poll_flags_def)

text \<open>\<open>select\<close>: every watched descriptor is at most the highest, which is watched too.\<close>

definition select_interest :: "select_aio \<Rightarrow> nat \<Rightarrow> bool \<times> bool" where
  "select_interest s fd = (rfds s fd \<and> fd \<noteq> pipe_fd s, wfds s fd)"

definition select_inv :: "nat \<Rightarrow> select_aio \<Rightarrow> bool" where
  "select_inv p s \<longleftrightarrow> pipe_fd s = p \<and> rfds s p \<and> p \<le> highfds s \<and> (rfds s (highfds s) \<or> wfds s (highfds s)) \<and>
     (\<forall>fd. rfds s fd \<or> wfds s fd \<longrightarrow> fd \<le> highfds s)"

lemma find_high_fold:
  "(let h = foldl (\<lambda>newh i. if R i then i else if W i then i else newh) a [0..<n]
    in (\<forall>i < n. R i \<or> W i \<longrightarrow> i \<le> h) \<and> (h = a \<or> h < n \<and> (R h \<or> W h)) \<and> ((\<exists>i < n. R i \<or> W i) \<longrightarrow> R h \<or> W h))"
proof (induction n)
  case (Suc n)
  define h where "h = foldl (\<lambda>newh i. if R i then i else if W i then i else newh) a [0..<n]"
  from Suc have IH: "\<forall>i < n. R i \<or> W i \<longrightarrow> i \<le> h" "h = a \<or> h < n \<and> (R h \<or> W h)"
    "(\<exists>i < n. R i \<or> W i) \<longrightarrow> R h \<or> W h" by (simp_all add: h_def Let_def)
  have "foldl (\<lambda>newh i. if R i then i else if W i then i else newh) a [0..<Suc n] = (if R n \<or> W n then n else h)"
    by (simp add: h_def)
  with IH show ?case by (auto simp: Let_def less_Suc_eq le_less)
qed simp

lemma find_high_ok:
  assumes "rfds s (pipe_fd s)" "pipe_fd s \<le> highfds s"
  shows "(\<forall>i \<le> highfds s. rfds s i \<or> wfds s i \<longrightarrow> i \<le> find_high s) \<and>
     (rfds s (find_high s) \<or> wfds s (find_high s)) \<and> pipe_fd s \<le> find_high s"
  using find_high_fold [where n = "Suc (highfds s)" and R = "rfds s" and W = "wfds s" and a = "pipe_fd s"] assms
  by (auto simp: find_high_def Let_def less_Suc_eq_le)

lemma select_watch_ok:
  assumes "select_inv p s" "fd < MAX_POLL_FDS" "fd \<noteq> p" "flag \<in> poll_flags"
  shows "\<exists>s'. select_watch fd flag s = Inr s' \<and> select_inv p s' \<and>
     select_interest s' = (select_interest s)(fd := adds_flag flag (select_interest s fd)) \<and>
     pipe_bytes s' = Suc (pipe_bytes s)"
  using flag_cases [OF assms(4)] assms(1-3)
  by (elim disjE)
    (auto simp: select_watch_def Let_def FD_SETSIZE_def MAX_POLL_FDS_def flag_defs select_inv_def
      select_interest_def adds_flag_def fun_eq_iff)

lemma select_unwatch_ok:
  assumes "select_inv p s" "fd < MAX_POLL_FDS" "fd \<noteq> p" "flag \<in> poll_flags"
  shows "\<exists>s'. select_unwatch fd flag s = Inr (clears_flag flag (select_interest s fd) = (False, False), s') \<and>
     select_inv p s' \<and>
     select_interest s' = (select_interest s)(fd := clears_flag flag (select_interest s fd)) \<and>
     pipe_bytes s' = pipe_bytes s + of_bool (flag = CB_RDWR)"
proof -
  define s1 where "s1 = s\<lparr>rfds := (rfds s)(fd := rfds s fd \<and> flag = CB_WRONLY), wfds := (wfds s)(fd := wfds s fd \<and> flag = CB_RDONLY)\<rparr>"
  define s2 where "s2 = (if \<not> rfds s1 fd \<and> \<not> wfds s1 fd \<and> fd = highfds s1 then s1\<lparr>highfds := find_high s1\<rparr> else s1)"
  define s3 where "s3 = (if flag = CB_RDWR then s2\<lparr>pipe_bytes := pipe_bytes s2 + 1\<rparr> else s2)"
  have f: "flag = CB_RDONLY \<or> flag = CB_WRONLY \<or> flag = CB_RDWR" by (rule flag_cases [OF assms(4)])
  have ne: "CB_RDONLY \<noteq> CB_WRONLY" "CB_RDONLY \<noteq> CB_RDWR" "CB_WRONLY \<noteq> CB_RDWR" by (simp_all add: flag_defs)
  have cleared: "(if flag = CB_RDONLY then s\<lparr>rfds := (rfds s)(fd := False)\<rparr>
      else if flag = CB_WRONLY then s\<lparr>wfds := (wfds s)(fd := False)\<rparr>
      else s\<lparr>wfds := (wfds s)(fd := False), rfds := (rfds s)(fd := False)\<rparr>) = s1"
    using f ne by (auto simp: s1_def fun_upd_idem)
  have eq: "select_unwatch fd flag s = Inr (\<not> rfds s3 fd \<and> \<not> wfds s3 fd, s3)"
  proof -
    have "select_unwatch fd flag s = (let s' = s3 in Inr (\<not> rfds s' fd \<and> \<not> wfds s' fd, s'))"
      using f assms(2) unfolding select_unwatch_def cleared s3_def s2_def
      by (simp only: Let_def FD_SETSIZE_def MAX_POLL_FDS_def) simp
    then show ?thesis by (simp only: Let_def)
  qed
  have p: "pipe_fd s = p" "rfds s p" "p \<le> highfds s" using assms(1) by (simp_all add: select_inv_def)
  have s1: "pipe_fd s1 = p" "rfds s1 p" "highfds s1 = highfds s" "pipe_bytes s1 = pipe_bytes s"
    "\<forall>i. rfds s1 i \<or> wfds s1 i \<longrightarrow> i \<le> highfds s"
    using assms(1,3) p by (auto simp: s1_def select_inv_def)
  have inv2: "select_inv p s2"
  proof (cases "\<not> rfds s1 fd \<and> \<not> wfds s1 fd \<and> fd = highfds s1")
    case True
    then have "s2 = s1\<lparr>highfds := find_high s1\<rparr>" unfolding s2_def by (rule if_P)
    moreover from find_high_ok [of s1] s1 p(3) have "\<forall>i \<le> highfds s. rfds s1 i \<or> wfds s1 i \<longrightarrow> i \<le> find_high s1"
      "rfds s1 (find_high s1) \<or> wfds s1 (find_high s1)" "p \<le> find_high s1" by simp_all
    ultimately show ?thesis using s1 by (simp add: select_inv_def)
  next
    case False
    then have e: "s2 = s1" by (auto simp: s2_def)
    have "rfds s1 (highfds s) \<or> wfds s1 (highfds s)"
    proof (cases "fd = highfds s")
      case True
      with False s1(3) show ?thesis by auto
    next
      case False
      with assms(1) show ?thesis by (auto simp: s1_def select_inv_def)
    qed
    with s1 p(3) e show ?thesis by (simp add: select_inv_def)
  qed
  have s3: "select_inv p s3" "rfds s3 = rfds s1" "wfds s3 = wfds s1" "pipe_fd s3 = p"
    "pipe_bytes s3 = pipe_bytes s + of_bool (flag = CB_RDWR)"
    using inv2 s1 by (auto simp: s3_def s2_def select_inv_def)
  have "select_interest s3 = (select_interest s)(fd := clears_flag flag (select_interest s fd))"
    using s3 p(1) assms(3) by (auto simp: select_interest_def s1_def clears_flag_def fun_eq_iff)
  moreover have "(\<not> rfds s3 fd \<and> \<not> wfds s3 fd) = (clears_flag flag (select_interest s fd) = (False, False))"
    using s3 p(1) assms(3) by (auto simp: select_interest_def s1_def clears_flag_def)
  ultimately show ?thesis using eq s3 by simp
qed

lemma select_inv_new: "select_inv p (select_new p)" "select_interest (select_new p) = (\<lambda>_. (False, False))"
  by (auto simp: select_inv_def select_new_def select_interest_def fun_eq_iff)

interpretation select: aio_mgr select_watch select_unwatch select_interest "select_inv p" "\<lambda>fd. fd = p" for p
proof
  fix s fd flag
  assume a: "select_inv p s" "fd < MAX_POLL_FDS" "\<not> fd = p" "flag \<in> poll_flags"
  from select_watch_ok [OF a] show "\<exists>s'. select_watch fd flag s = Inr s' \<and> select_inv p s' \<and>
      select_interest s' = (select_interest s)(fd := adds_flag flag (select_interest s fd))" by blast
  from select_unwatch_ok [OF a] show "\<exists>s'. select_unwatch fd flag s =
      Inr (clears_flag flag (select_interest s fd) = (False, False), s') \<and> select_inv p s' \<and>
      select_interest s' = (select_interest s)(fd := clears_flag flag (select_interest s fd))" by blast
qed

text \<open>\<open>epoll\<close>: the kernel's list agrees with \<open>fdstatus_\<close>.\<close>

definition epoll_interest :: "epoll_aio \<Rightarrow> nat \<Rightarrow> bool \<times> bool" where
  "epoll_interest s fd = (fdstatus s fd AND CB_RDONLY \<noteq> 0, fdstatus s fd AND CB_WRONLY \<noteq> 0)"

definition statuses :: "u32 set" where
  "statuses = {CB_NONE, CB_RDONLY, CB_WRONLY, CB_RDWR}"

lemma zero_status [simp]: "0 \<in> statuses"
  by (simp add: statuses_def CB_NONE_def)

definition epoll_inv :: "epoll_aio \<Rightarrow> bool" where
  "epoll_inv s \<longleftrightarrow> (\<forall>fd. fdstatus s fd \<in> statuses \<and>
     kernel s fd = (if fdstatus s fd = 0 then None else Some (status_events (fdstatus s fd))))"

lemma status_or:
  assumes "st \<in> statuses" "flag \<in> poll_flags"
  shows "st OR flag \<in> statuses" "st OR flag \<noteq> 0"
    "((st OR flag) AND CB_RDONLY \<noteq> 0) = (st AND CB_RDONLY \<noteq> 0 \<or> flag \<noteq> CB_WRONLY)"
    "((st OR flag) AND CB_WRONLY \<noteq> 0) = (st AND CB_WRONLY \<noteq> 0 \<or> flag \<noteq> CB_RDONLY)"
    "flag = CB_RDWR \<Longrightarrow> status_events (st OR flag) = (EPOLLET OR EPOLLIN OR EPOLLOUT)"
  using assms unfolding poll_flags_def statuses_def
  by (auto simp: flag_defs status_events_def EPOLLET_def EPOLLIN_def EPOLLOUT_def)

lemma status_clear:
  assumes "st \<in> statuses" "flag \<in> poll_flags"
  shows "st AND NOT flag \<in> statuses"
    "(st AND NOT flag = 0) = ((st AND NOT flag) AND CB_RDONLY = 0 \<and> (st AND NOT flag) AND CB_WRONLY = 0)"
    "((st AND NOT flag) AND CB_RDONLY \<noteq> 0) = (st AND CB_RDONLY \<noteq> 0 \<and> flag = CB_WRONLY)"
    "((st AND NOT flag) AND CB_WRONLY \<noteq> 0) = (st AND CB_WRONLY \<noteq> 0 \<and> flag = CB_RDONLY)"
    "flag = CB_RDWR \<Longrightarrow> st AND NOT flag = 0"
    "(st = 0) = (st AND CB_RDONLY = 0 \<and> st AND CB_WRONLY = 0)"
  using assms unfolding poll_flags_def statuses_def by (auto simp: flag_defs)

lemma epoll_watch_ok:
  assumes "epoll_inv s" "fd < MAX_POLL_FDS" "flag \<in> poll_flags"
  shows "\<exists>s'. epoll_watch fd flag s = Inr s' \<and> epoll_inv s' \<and>
     epoll_interest s' = (epoll_interest s)(fd := adds_flag flag (epoll_interest s fd))"
proof -
  let ?st = "fdstatus s fd OR flag"
  have st: "fdstatus s fd \<in> statuses"
    and k: "kernel s fd = (if fdstatus s fd = 0 then None else Some (status_events (fdstatus s fd)))"
    using assms(1) by (simp_all add: epoll_inv_def)
  note f = status_or [OF st assms(3)]
  have "epoll_watch fd flag s = Inr (s\<lparr>fdstatus := (fdstatus s)(fd := ?st), kernel := (kernel s)(fd \<mapsto> status_events ?st)\<rparr>)"
    using assms(2) f(5) k by (simp add: epoll_watch_def epoll_ctl_def Let_def)
  moreover have "epoll_inv (s\<lparr>fdstatus := (fdstatus s)(fd := ?st), kernel := (kernel s)(fd \<mapsto> status_events ?st)\<rparr>)"
    using assms(1) f(1,2) by (simp add: epoll_inv_def)
  moreover have "epoll_interest (s\<lparr>fdstatus := (fdstatus s)(fd := ?st), kernel := (kernel s)(fd \<mapsto> status_events ?st)\<rparr>) =
      (epoll_interest s)(fd := adds_flag flag (epoll_interest s fd))"
    using f(3,4) by (simp add: epoll_interest_def adds_flag_def fun_eq_iff)
  ultimately show ?thesis by blast
qed

lemma epoll_unwatch_ok:
  assumes "epoll_inv s" "fd < MAX_POLL_FDS" "flag \<in> poll_flags" "epoll_interest s fd \<noteq> (False, False)"
  shows "\<exists>s'. epoll_unwatch fd flag s = Inr (clears_flag flag (epoll_interest s fd) = (False, False), s') \<and>
     epoll_inv s' \<and> epoll_interest s' = (epoll_interest s)(fd := clears_flag flag (epoll_interest s fd))"
proof -
  let ?st = "fdstatus s fd AND NOT flag"
  let ?k = "if ?st = 0 then (kernel s)(fd := None) else (kernel s)(fd \<mapsto> status_events ?st)"
  have st: "fdstatus s fd \<in> statuses"
    and k: "kernel s fd = (if fdstatus s fd = 0 then None else Some (status_events (fdstatus s fd)))"
    using assms(1) by (simp_all add: epoll_inv_def)
  note f = status_clear [OF st assms(3)]
  have "fdstatus s fd \<noteq> 0" using assms(4) f(6) by (simp add: epoll_interest_def)
  with k obtain ev where "kernel s fd = Some ev" by simp
  then have "epoll_unwatch fd flag s = Inr (?st = 0, s\<lparr>fdstatus := (fdstatus s)(fd := ?st), kernel := ?k\<rparr>)"
    using assms(2) f(5) by (simp add: epoll_unwatch_def epoll_ctl_def Let_def)
  moreover have "(?st = 0) = (clears_flag flag (epoll_interest s fd) = (False, False))"
    using f(2-4) by (auto simp: epoll_interest_def clears_flag_def)
  moreover have "epoll_inv (s\<lparr>fdstatus := (fdstatus s)(fd := ?st), kernel := ?k\<rparr>)"
    using assms(1) f(1) by (simp add: epoll_inv_def)
  moreover have "epoll_interest (s\<lparr>fdstatus := (fdstatus s)(fd := ?st), kernel := ?k\<rparr>) =
      (epoll_interest s)(fd := clears_flag flag (epoll_interest s fd))"
    using f(3,4) by (simp add: epoll_interest_def clears_flag_def fun_eq_iff)
  ultimately show ?thesis by simp
qed

lemma epoll_inv_new: "epoll_inv epoll_new" "epoll_interest epoll_new = (\<lambda>_. (False, False))"
  by (auto simp: epoll_inv_def epoll_new_def epoll_interest_def statuses_def flag_defs fun_eq_iff)

interpretation epoll: aio_mgr epoll_watch epoll_unwatch epoll_interest epoll_inv "\<lambda>fd. False"
  using epoll_watch_ok epoll_unwatch_ok by unfold_locales simp_all

section \<open>PollMgr\<close>

text \<open>
  \<open>callbacks_\<close> holds the objects by their numbers. \<open>block_remove_fd\<close> is cut at its wait, and
  \<open>wait_loop\<close> at the points where it gives back or does not hold the mutex.
\<close>

record poll_mgr =
  callbacks :: "nat \<Rightarrow> nat option"
  aio :: select_aio
  pending_change :: bool

definition pollmgr_new :: "nat \<Rightarrow> poll_mgr" where
  "pollmgr_new p = \<lparr>callbacks = (\<lambda>_. None), aio = select_new p, pending_change = False\<rparr>"

text \<open>\<open>Instance\<close>: \<open>pthread_once\<close> makes the object in the first call, all calls answer it.\<close>

definition pollmgr_instance :: "nat \<Rightarrow> poll_mgr option \<Rightarrow> poll_mgr \<times> poll_mgr option" where
  "pollmgr_instance p inst = (let m = (case inst of None \<Rightarrow> pollmgr_new p | Some m \<Rightarrow> m) in (m, Some m))"

definition set_callback :: "nat \<Rightarrow> nat option \<Rightarrow> poll_mgr \<Rightarrow> poll_mgr outcome" where
  "set_callback fd ch m =
     (if MAX_POLL_FDS \<le> fd then Inl Out_of_bounds else Inr (m\<lparr>callbacks := (callbacks m)(fd := ch)\<rparr>))"

definition add_callback :: "nat \<Rightarrow> u32 \<Rightarrow> nat \<Rightarrow> poll_mgr \<Rightarrow> poll_mgr outcome" where
  "add_callback fd flag ch m =
     (if MAX_POLL_FDS \<le> fd then Inl Assert_failed
      else
        andthen (select_watch fd flag (aio m)) (\<lambda>s.
        if \<not> (callbacks m fd = None \<or> callbacks m fd = Some ch) then Inl Assert_failed
        else set_callback fd (Some ch) (m\<lparr>aio := s\<rparr>)))"

definition block_remove_begin :: "nat \<Rightarrow> poll_mgr \<Rightarrow> poll_mgr outcome" where
  "block_remove_begin fd m =
     andthen (select_unwatch fd CB_RDWR (aio m)) (\<lambda>(b, s). Inr (m\<lparr>aio := s, pending_change := True\<rparr>))"

definition block_remove_end :: "nat \<Rightarrow> poll_mgr \<Rightarrow> poll_mgr outcome" where
  "block_remove_end fd m = set_callback fd None m"

definition del_callback :: "nat \<Rightarrow> u32 \<Rightarrow> poll_mgr \<Rightarrow> poll_mgr outcome" where
  "del_callback fd flag m =
     andthen (select_unwatch fd flag (aio m)) (\<lambda>(b, s).
     let m = m\<lparr>aio := s\<rparr> in if b then set_callback fd None m else Inr m)"

definition has_callback :: "nat \<Rightarrow> u32 \<Rightarrow> nat \<Rightarrow> poll_mgr \<Rightarrow> bool outcome" where
  "has_callback fd flag c m =
     (if MAX_POLL_FDS \<le> fd then Inl Out_of_bounds
      else if callbacks m fd = None \<or> callbacks m fd \<noteq> Some c then Inr False
      else select_is_watched fd flag (aio m))"

text \<open>The top of \<open>wait_loop\<close>: the flag says whether \<open>changedone_c_\<close> is broadcast.\<close>

definition loop_top :: "poll_mgr \<Rightarrow> bool \<times> poll_mgr" where
  "loop_top m = (if pending_change m then (True, m\<lparr>pending_change := False\<rparr>) else (False, m))"

section \<open>Threads\<close>

text \<open>
  The poll thread is at the top, about to copy the sets, in \<open>select\<close> on its copies, about to
  serve a list of descriptors (the flag: for writing), or in a callback. A remover waits for
  a descriptor (the flag: it was signalled). \<open>spurious\<close> says whether a wait may return
  without a signal.
\<close>

datatype poll_phase =
    P_top
  | P_ready
  | P_select nat "nat \<Rightarrow> bool" "nat \<Rightarrow> bool"
  | P_serve "(nat \<times> bool) list"
  | P_calls nat bool "(nat \<times> bool) list"

record poll_sys =
  pm :: poll_mgr
  poller :: poll_phase
  removers :: "nat \<Rightarrow> (nat \<times> bool) option"

datatype poll_event =
    Registered nat
  | Removing nat nat
  | Removed nat nat
  | Deleted nat
  | Called nat bool nat
  | Poll_local

definition wake_removers :: "bool \<Rightarrow> (nat \<Rightarrow> (nat \<times> bool) option) \<Rightarrow> nat \<Rightarrow> (nat \<times> bool) option" where
  "wake_removers b r t = map_option (\<lambda>(fd, w). (fd, w \<or> b)) (r t)"

definition serve_list :: "nat list \<Rightarrow> nat list \<Rightarrow> (nat \<times> bool) list" where
  "serve_list readable writable = map (\<lambda>fd. (fd, False)) readable @ map (\<lambda>fd. (fd, True)) writable"

text \<open>What \<open>wait_ready\<close> copies before it calls \<open>select\<close>.\<close>

definition copy_sets :: "select_aio \<Rightarrow> poll_phase" where
  [simp]: "copy_sets s = P_select (highfds s) (rfds s) (wfds s)"

text \<open>
  The number of a descriptor that is being removed is not registered again before the
  removal has returned, since the descriptor is still open.
\<close>

inductive poll_step :: "bool \<Rightarrow> poll_sys \<Rightarrow> poll_event \<Rightarrow> poll_sys \<Rightarrow> bool" for spurious where
  registers: "add_callback fd flag ch (pm s) = Inr m \<Longrightarrow> fd \<noteq> pipe_fd (aio (pm s)) \<Longrightarrow> flag \<in> poll_flags \<Longrightarrow>
     \<forall>t w. removers s t \<noteq> Some (fd, w) \<Longrightarrow> poll_step spurious s (Registered fd) (s\<lparr>pm := m\<rparr>)"
| deletes: "del_callback fd flag (pm s) = Inr m \<Longrightarrow> fd \<noteq> pipe_fd (aio (pm s)) \<Longrightarrow> fd < MAX_POLL_FDS \<Longrightarrow> flag \<in> poll_flags \<Longrightarrow>
     poll_step spurious s (Deleted fd) (s\<lparr>pm := m\<rparr>)"
| removes: "removers s t = None \<Longrightarrow> block_remove_begin fd (pm s) = Inr m \<Longrightarrow> fd \<noteq> pipe_fd (aio (pm s)) \<Longrightarrow> fd < MAX_POLL_FDS \<Longrightarrow>
     poll_step spurious s (Removing t fd) (s\<lparr>pm := m, removers := (removers s)(t \<mapsto> (fd, False))\<rparr>)"
| removed: "removers s t = Some (fd, w) \<Longrightarrow> w \<or> spurious \<Longrightarrow> block_remove_end fd (pm s) = Inr m \<Longrightarrow>
     poll_step spurious s (Removed t fd) (s\<lparr>pm := m, removers := (removers s)(t := None)\<rparr>)"
| tops: "poller s = P_top \<Longrightarrow> loop_top (pm s) = (b, m) \<Longrightarrow>
     poll_step spurious s Poll_local (s\<lparr>pm := m, poller := P_ready, removers := wake_removers b (removers s)\<rparr>)"
| copies: "poller s = P_ready \<Longrightarrow>
     poll_step spurious s Poll_local (s\<lparr>poller := copy_sets (aio (pm s))\<rparr>)"
| selects: "poller s = P_select high rd wr \<Longrightarrow> \<forall>fd. r fd \<longrightarrow> rd fd \<and> fd \<le> high \<Longrightarrow> \<forall>fd. w fd \<longrightarrow> wr fd \<and> fd \<le> high \<Longrightarrow>
     r (pipe_fd (aio (pm s))) \<longrightarrow> 0 < pipe_bytes (aio (pm s)) \<Longrightarrow>
     select_collect high r w (aio (pm s)) = Inr (readable, writable, s') \<Longrightarrow>
     poll_step spurious s Poll_local (s\<lparr>pm := (pm s)\<lparr>aio := s'\<rparr>, poller := P_serve (serve_list readable writable)\<rparr>)"
| calls: "poller s = P_serve ((fd, wr) # xs) \<Longrightarrow> callbacks (pm s) fd = Some ch \<Longrightarrow>
     poll_step spurious s (Called fd wr ch) (s\<lparr>poller := P_calls fd wr xs\<rparr>)"
| skips: "poller s = P_serve ((fd, wr) # xs) \<Longrightarrow> callbacks (pm s) fd = None \<Longrightarrow>
     poll_step spurious s Poll_local (s\<lparr>poller := P_serve xs\<rparr>)"
| returns: "poller s = P_calls fd wr xs \<Longrightarrow> poll_step spurious s Poll_local (s\<lparr>poller := P_serve xs\<rparr>)"
| served: "poller s = P_serve [] \<Longrightarrow> poll_step spurious s Poll_local (s\<lparr>poller := P_top\<rparr>)"

inductive_cases poll_stepE: "poll_step spurious s e s'"

inductive poll_run :: "bool \<Rightarrow> poll_sys \<Rightarrow> poll_event list \<Rightarrow> poll_sys \<Rightarrow> bool" for spurious s where
  poll_start: "poll_run spurious s [] s"
| poll_next: "poll_run spurious s es s' \<Longrightarrow> poll_step spurious s' e s'' \<Longrightarrow> poll_run spurious s (es @ [e]) s''"

definition poll_init :: "nat \<Rightarrow> poll_sys" where
  "poll_init p = \<lparr>pm = pollmgr_new p, poller = P_top, removers = (\<lambda>_. None)\<rparr>"

section \<open>Invariants\<close>

text \<open>
  \<open>clear_of f\<close>: the poll thread is not in a callback of \<open>f\<close> and none is due. \<open>gone\<close> and
  \<open>settled\<close> read off a history whether the removal of \<open>f\<close> began, or returned, and \<open>f\<close> was
  not registered since.
\<close>

definition clear_of :: "nat \<Rightarrow> poll_phase \<Rightarrow> bool" where
  "clear_of f ph \<longleftrightarrow>
     (case ph of
        P_select high rd wr \<Rightarrow> \<not> rd f \<and> \<not> wr f
      | P_serve xs \<Rightarrow> f \<notin> fst ` set xs
      | P_calls fd wr xs \<Rightarrow> fd \<noteq> f \<and> f \<notin> fst ` set xs
      | _ \<Rightarrow> True)"

fun gone_step :: "nat \<Rightarrow> bool \<Rightarrow> poll_event \<Rightarrow> bool" where
  "gone_step f b (Registered fd) = (b \<and> fd \<noteq> f)"
| "gone_step f b (Removing t fd) = (b \<or> fd = f)"
| "gone_step f b _ = b"

fun settled_step :: "nat \<Rightarrow> bool \<Rightarrow> poll_event \<Rightarrow> bool" where
  "settled_step f b (Registered fd) = (b \<and> fd \<noteq> f)"
| "settled_step f b (Removed t fd) = (b \<or> fd = f)"
| "settled_step f b _ = b"

definition gone :: "nat \<Rightarrow> poll_event list \<Rightarrow> bool" where
  "gone f es = foldl (gone_step f) False es"

definition settled :: "nat \<Rightarrow> poll_event list \<Rightarrow> bool" where
  "settled f es = foldl (settled_step f) False es"

lemma gone_snoc [simp]: "gone f (es @ [e]) = gone_step f (gone f es) e" "gone f [] = False"
  by (simp_all add: gone_def)

lemma settled_snoc [simp]: "settled f (es @ [e]) = settled_step f (settled f es) e" "settled f [] = False"
  by (simp_all add: settled_def)

definition poll_inv :: "nat \<Rightarrow> poll_event list \<Rightarrow> poll_sys \<Rightarrow> bool" where
  "poll_inv p es s \<longleftrightarrow> select_inv p (aio (pm s)) \<and>
     (\<forall>f. gone f es \<longrightarrow> f \<noteq> p \<and> select_interest (aio (pm s)) f = (False, False)) \<and>
     (\<forall>t f w. removers s t = Some (f, w) \<longrightarrow> f < MAX_POLL_FDS \<and> gone f es \<and> (if w then clear_of f (poller s) else pending_change (pm s))) \<and>
     (\<forall>f. settled f es \<longrightarrow> gone f es \<and> callbacks (pm s) f = None \<and> clear_of f (poller s))"

definition wake_inv :: "poll_sys \<Rightarrow> bool" where
  "wake_inv s \<longleftrightarrow> (pending_change (pm s) \<longrightarrow>
     (case poller s of
        P_ready \<Rightarrow> 0 < pipe_bytes (aio (pm s))
      | P_select high rd wr \<Rightarrow> 0 < pipe_bytes (aio (pm s))
      | _ \<Rightarrow> True)) \<and>
     (case poller s of P_select high rd wr \<Rightarrow> rd (pipe_fd (aio (pm s))) \<and> pipe_fd (aio (pm s)) \<le> high | _ \<Rightarrow> True)"

lemma clear_of_simps [simp]:
  "clear_of f P_top" "clear_of f P_ready" "clear_of f (P_select high rd wr) \<longleftrightarrow> \<not> rd f \<and> \<not> wr f"
  "clear_of f (P_serve xs) \<longleftrightarrow> f \<notin> fst ` set xs" "clear_of f (P_calls fd b xs) \<longleftrightarrow> fd \<noteq> f \<and> f \<notin> fst ` set xs"
  by (simp_all add: clear_of_def)

lemma add_callback_ok:
  assumes "add_callback fd flag ch m = Inr m'" "select_inv p (aio m)" "fd \<noteq> pipe_fd (aio m)" "flag \<in> poll_flags"
  shows "select_inv p (aio m') \<and> pending_change m' = pending_change m \<and> callbacks m' = (callbacks m)(fd \<mapsto> ch) \<and>
     select_interest (aio m') = (select_interest (aio m))(fd := adds_flag flag (select_interest (aio m) fd)) \<and>
     pipe_bytes (aio m) \<le> pipe_bytes (aio m') \<and> pipe_fd (aio m') = pipe_fd (aio m)"
proof -
  have p: "pipe_fd (aio m) = p" using assms(2) by (simp add: select_inv_def)
  from assms(1) have fd: "fd < MAX_POLL_FDS" by (auto simp: add_callback_def split: if_split_asm)
  from select_watch_ok [OF assms(2) fd _ assms(4)] assms(3) p obtain s' where
    s': "select_watch fd flag (aio m) = Inr s'" "select_inv p s'" "pipe_bytes s' = Suc (pipe_bytes (aio m))"
    "select_interest s' = (select_interest (aio m))(fd := adds_flag flag (select_interest (aio m) fd))" by blast
  from assms(1) fd s'(1) have "m' = m\<lparr>aio := s', callbacks := (callbacks m)(fd \<mapsto> ch)\<rparr>"
    by (auto simp: add_callback_def set_callback_def split: if_split_asm)
  with s' p show ?thesis by (simp add: select_inv_def)
qed

lemma unwatch_parts:
  assumes "select_unwatch fd flag s = Inr (b, s')" "select_inv p s" "fd \<noteq> pipe_fd s" "fd < MAX_POLL_FDS" "flag \<in> poll_flags"
  shows "select_inv p s'" "select_interest s' = (select_interest s)(fd := clears_flag flag (select_interest s fd))"
    "pipe_bytes s' = pipe_bytes s + of_bool (flag = CB_RDWR)" "b \<longleftrightarrow> clears_flag flag (select_interest s fd) = (False, False)"
    "pipe_fd s' = pipe_fd s"
proof -
  have p: "pipe_fd s = p" using assms(2) by (simp add: select_inv_def)
  from select_unwatch_ok [OF assms(2,4) _ assms(5)] assms(1,3) p show "select_inv p s'"
    "select_interest s' = (select_interest s)(fd := clears_flag flag (select_interest s fd))"
    "pipe_bytes s' = pipe_bytes s + of_bool (flag = CB_RDWR)" "b \<longleftrightarrow> clears_flag flag (select_interest s fd) = (False, False)"
    by auto
  with p show "pipe_fd s' = pipe_fd s" by (simp add: select_inv_def)
qed

lemma clears_none: "clears_flag flag (False, False) = (False, False)" "clears_flag CB_RDWR i = (False, False)"
  by (simp_all add: clears_flag_def flag_defs)


lemma collected:
  assumes "select_collect high r w s = Inr (readable, writable, s')"
  shows "set readable = {fd. fd \<le> high \<and> r fd \<and> fd \<noteq> pipe_fd s}"
    "set writable = {fd. fd \<le> high \<and> w fd \<and> \<not> (fd = pipe_fd s \<and> r fd)}"
    "s' = s\<lparr>pipe_bytes := pipe_bytes s - of_bool (pipe_fd s \<le> high \<and> r (pipe_fd s))\<rparr>"
proof -
  have high: "set [0..<Suc high] = {fd. fd \<le> high}" by auto
  from assms have
    "readable = filter (\<lambda>fd. \<not> (fd = pipe_fd s \<and> r fd) \<and> r fd) [0..<Suc high]"
    "writable = filter (\<lambda>fd. \<not> (fd = pipe_fd s \<and> r fd) \<and> w fd) [0..<Suc high]"
    "s' = (if pipe_fd s \<le> high \<and> r (pipe_fd s) then s\<lparr>pipe_bytes := pipe_bytes s - 1\<rparr> else s)"
    by (auto simp: select_collect_def Let_def simp del: upt_Suc split: if_splits)
  then show "set readable = {fd. fd \<le> high \<and> r fd \<and> fd \<noteq> pipe_fd s}"
    "set writable = {fd. fd \<le> high \<and> w fd \<and> \<not> (fd = pipe_fd s \<and> r fd)}"
    "s' = s\<lparr>pipe_bytes := pipe_bytes s - of_bool (pipe_fd s \<le> high \<and> r (pipe_fd s))\<rparr>"
    using high by (auto simp del: upt_Suc)
qed

lemma served_fds: "fst ` set (serve_list readable writable) = set readable \<union> set writable"
  by (force simp: serve_list_def)

lemma removed_ops:
  assumes "block_remove_begin fd m = Inr m'" "select_inv p (aio m)" "fd \<noteq> pipe_fd (aio m)" "fd < MAX_POLL_FDS"
  shows "select_inv p (aio m')" "select_interest (aio m') = (select_interest (aio m))(fd := (False, False))"
    "pipe_bytes (aio m') = Suc (pipe_bytes (aio m))" "pipe_fd (aio m') = pipe_fd (aio m)" "pending_change m'"
    "callbacks m' = callbacks m"
proof -
  from assms(1) obtain b s where b: "select_unwatch fd CB_RDWR (aio m) = Inr (b, s)" "m' = m\<lparr>aio := s, pending_change := True\<rparr>"
    by (auto simp: block_remove_begin_def andthen_Inr_iff)
  from unwatch_parts [OF b(1) assms(2-4)] b(2) show
    "select_inv p (aio m')" "select_interest (aio m') = (select_interest (aio m))(fd := (False, False))"
    "pipe_bytes (aio m') = Suc (pipe_bytes (aio m))" "pipe_fd (aio m') = pipe_fd (aio m)" "pending_change m'"
    "callbacks m' = callbacks m"
    by (simp_all add: poll_flags_def clears_none)
qed

lemma deleted_ops:
  assumes "del_callback fd flag m = Inr m'" "select_inv p (aio m)" "fd \<noteq> pipe_fd (aio m)" "fd < MAX_POLL_FDS" "flag \<in> poll_flags"
  shows "select_inv p (aio m')" "select_interest (aio m') = (select_interest (aio m))(fd := clears_flag flag (select_interest (aio m) fd))"
    "pipe_bytes (aio m) \<le> pipe_bytes (aio m')" "pipe_fd (aio m') = pipe_fd (aio m)" "pending_change m' = pending_change m"
    "callbacks m' = callbacks m \<or> callbacks m' = (callbacks m)(fd := None)"
proof -
  from assms(1) obtain b s where b: "select_unwatch fd flag (aio m) = Inr (b, s)"
    "m' = m\<lparr>aio := s, callbacks := if b then (callbacks m)(fd := None) else callbacks m\<rparr>"
    using assms(4) by (auto simp: del_callback_def set_callback_def Let_def andthen_Inr_iff split: if_splits)
  from unwatch_parts [OF b(1) assms(2-5)] b(2) show
    "select_inv p (aio m')" "select_interest (aio m') = (select_interest (aio m))(fd := clears_flag flag (select_interest (aio m) fd))"
    "pipe_bytes (aio m) \<le> pipe_bytes (aio m')" "pipe_fd (aio m') = pipe_fd (aio m)" "pending_change m' = pending_change m"
    "callbacks m' = callbacks m \<or> callbacks m' = (callbacks m)(fd := None)"
    by simp_all
qed

lemma loop_top_ops:
  "loop_top m = (b, m') \<longleftrightarrow> b = pending_change m \<and> m' = m\<lparr>pending_change := False\<rparr>"
  by (cases m) (auto simp: loop_top_def)

lemma removed_end: "block_remove_end fd m = Inr m' \<Longrightarrow> m' = m\<lparr>callbacks := (callbacks m)(fd := None)\<rparr>"
  by (simp add: block_remove_end_def set_callback_def split: if_split_asm)

text \<open>The sets change as said, and a descriptor nobody watches stays away from the poll thread.\<close>

lemma step_aio:
  assumes "poll_step spurious s e s'" "select_inv p (aio (pm s))"
  shows "select_inv p (aio (pm s'))"
    "select_interest (aio (pm s)) f = (False, False) \<Longrightarrow> e \<noteq> Registered f \<Longrightarrow> select_interest (aio (pm s')) f = (False, False)"
    "e = Registered f \<Longrightarrow> f \<noteq> p"
    "e = Removing t f \<Longrightarrow> f \<noteq> p \<and> select_interest (aio (pm s')) f = (False, False)"
    "callbacks (pm s) f = None \<Longrightarrow> e \<noteq> Registered f \<Longrightarrow> callbacks (pm s') f = None"
    "e = Removed t f \<Longrightarrow> callbacks (pm s') f = None"
proof -
  have p: "pipe_fd (aio (pm s)) = p" using assms(2) by (simp add: select_inv_def)
  have *: "select_inv p (aio (pm s')) \<and>
    (select_interest (aio (pm s)) f = (False, False) \<longrightarrow> e \<noteq> Registered f \<longrightarrow> select_interest (aio (pm s')) f = (False, False)) \<and>
    (e = Registered f \<longrightarrow> f \<noteq> p) \<and>
    (e = Removing t f \<longrightarrow> f \<noteq> p \<and> select_interest (aio (pm s')) f = (False, False)) \<and>
    (callbacks (pm s) f = None \<longrightarrow> e \<noteq> Registered f \<longrightarrow> callbacks (pm s') f = None) \<and>
    (e = Removed t f \<longrightarrow> callbacks (pm s') f = None)"
    using assms(1)
  proof (cases rule: poll_step.cases)
    case (registers fd flag ch m)
    with add_callback_ok [OF registers(3) assms(2) registers(4,5)] p show ?thesis by simp
  next
    case (deletes fd flag m)
    from deleted_ops [OF deletes(3) assms(2) deletes(4-6)] deletes p show ?thesis by (auto simp: clears_none)
  next
    case (removes t fd m)
    from removed_ops [OF removes(4) assms(2) removes(5,6)] removes p show ?thesis by auto
  next
    case (removed t fd w m)
    with assms(2) show ?thesis by (auto dest!: removed_end)
  next
    case (tops b m)
    with assms(2) show ?thesis by (simp add: loop_top_ops)
  next
    case (selects high rd wr r w readable writable s'')
    from collected(3) [OF selects(7)] selects assms(2) show ?thesis by (simp add: select_inv_def select_interest_def)
  qed (use assms(2) in simp_all)
  from * show "select_inv p (aio (pm s'))"
    "select_interest (aio (pm s)) f = (False, False) \<Longrightarrow> e \<noteq> Registered f \<Longrightarrow> select_interest (aio (pm s')) f = (False, False)"
    "e = Registered f \<Longrightarrow> f \<noteq> p"
    "e = Removing t f \<Longrightarrow> f \<noteq> p \<and> select_interest (aio (pm s')) f = (False, False)"
    "callbacks (pm s) f = None \<Longrightarrow> e \<noteq> Registered f \<Longrightarrow> callbacks (pm s') f = None"
    "e = Removed t f \<Longrightarrow> callbacks (pm s') f = None" by blast+
qed

lemma step_clear:
  assumes "poll_step spurious s e s'" "select_inv p (aio (pm s))" "select_interest (aio (pm s)) f = (False, False)" "f \<noteq> p"
    and "clear_of f (poller s)"
  shows "clear_of f (poller s')"
  using assms(1)
proof (cases rule: poll_step.cases)
  case (selects high rd wr r w readable writable s'')
  from assms(5) selects(3) have "\<not> rd f" "\<not> wr f" by simp_all
  with selects(4,5) have "\<not> r f" "\<not> w f" by blast+
  with collected(1,2) [OF selects(7)] selects(2) show ?thesis by (simp add: served_fds)
qed (use assms in \<open>auto simp: select_interest_def select_inv_def\<close>)


lemma poll_inv_partsD:
  assumes "poll_inv p es s"
  shows "select_inv p (aio (pm s))" "gone f es \<Longrightarrow> f \<noteq> p \<and> select_interest (aio (pm s)) f = (False, False)"
    "removers s t = Some (f, w) \<Longrightarrow> f < MAX_POLL_FDS \<and> gone f es \<and> (if w then clear_of f (poller s) else pending_change (pm s))"
    "settled f es \<Longrightarrow> gone f es \<and> callbacks (pm s) f = None \<and> clear_of f (poller s)"
  using assms by (simp_all add: poll_inv_def)

lemma gone_step_ok:
  assumes "poll_inv p es s" "poll_step spurious s e s'" "gone f (es @ [e])"
  shows "f \<noteq> p \<and> select_interest (aio (pm s')) f = (False, False)"
proof -
  note inv = poll_inv_partsD [OF assms(1)]
  note a = step_aio [OF assms(2) inv(1)]
  show ?thesis
  proof (cases "gone f es")
    case True
    with assms(3) have "e \<noteq> Registered f" by auto
    with a(2) inv(2) [OF True] show ?thesis by blast
  next
    case False
    with assms(3) obtain t where "e = Removing t f" by (cases e) auto
    with a(4) show ?thesis by blast
  qed
qed

lemma clear_step_ok:
  assumes "poll_inv p es s" "poll_step spurious s e s'" "gone f es" "clear_of f (poller s)"
  shows "clear_of f (poller s')"
  using step_clear [OF assms(2)] poll_inv_partsD(1,2) [OF assms(1)] assms(3,4) by blast

lemma removers_step_ok:
  assumes "poll_inv p es s" "poll_step spurious s e s'" "removers s' t = Some (f, w)"
  shows "f < MAX_POLL_FDS \<and> gone f (es @ [e]) \<and> (if w then clear_of f (poller s') else pending_change (pm s'))"
proof -
  note inv = poll_inv_partsD [OF assms(1)]
  have keep: "f < MAX_POLL_FDS \<and> gone f es \<and> (w \<longrightarrow> clear_of f (poller s')) \<and> (\<not> w \<longrightarrow> pending_change (pm s))"
    if "removers s t = Some (f, w)"
    using inv(3) [OF that] clear_step_ok [OF assms(1,2)] by (auto split: if_splits)
  show ?thesis using assms(2)
  proof (cases rule: poll_step.cases)
    case (registers fd flag ch m)
    with assms(3) add_callback_ok [OF registers(3) inv(1) registers(4,5)] keep show ?thesis by auto
  next
    case (deletes fd flag m)
    from deleted_ops(5) [OF deletes(3) inv(1) deletes(4-6)] assms(3) deletes(1,2) keep show ?thesis by auto
  next
    case (removes t' fd m)
    from removed_ops(5) [OF removes(4) inv(1) removes(5,6)] assms(3) removes(1,2,6) keep
    show ?thesis by (auto split: if_splits)
  next
    case (removed t' fd w' m)
    with assms(3) keep show ?thesis by (auto dest!: removed_end split: if_splits)
  next
    case (tops b m)
    from assms(3) tops(2) obtain w0 where w0: "removers s t = Some (f, w0)" "w = (w0 \<or> b)"
      by (auto simp: wake_removers_def)
    from inv(3) [OF w0(1)] w0(2) tops(4) have "w" "f < MAX_POLL_FDS" "gone f es"
      by (auto simp: loop_top_ops split: if_splits)
    with tops(1,2) show ?thesis by simp
  qed (use assms(3) keep in auto)
qed

lemma settled_step_ok:
  assumes "poll_inv p es s" "poll_step False s e s'" "settled f (es @ [e])"
  shows "gone f (es @ [e]) \<and> callbacks (pm s') f = None \<and> clear_of f (poller s')"
proof -
  note inv = poll_inv_partsD [OF assms(1)]
  note a = step_aio [OF assms(2) inv(1)]
  have *: "gone f es \<and> (callbacks (pm s) f = None \<or> (\<exists>t. e = Removed t f)) \<and> clear_of f (poller s) \<and> e \<noteq> Registered f"
  proof (cases "settled f es")
    case True
    with assms(3) inv(4) [OF True] show ?thesis by auto
  next
    case False
    with assms(3) obtain t where e: "e = Removed t f" by (cases e) auto
    with assms(2) obtain w where "removers s t = Some (f, w)" "w"
      by (cases rule: poll_step.cases) auto
    with inv(3) [OF this(1)] e show ?thesis by simp
  qed
  then have "gone f (es @ [e])" by (cases e) auto
  with * a(5,6) clear_step_ok [OF assms(1,2)] show ?thesis by blast
qed

lemma poll_inv_step:
  assumes "poll_inv p es s" "poll_step False s e s'"
  shows "poll_inv p (es @ [e]) s'"
  using gone_step_ok [OF assms] removers_step_ok [OF assms] settled_step_ok [OF assms]
    step_aio(1) [OF assms(2) poll_inv_partsD(1) [OF assms(1)]]
  by (simp only: poll_inv_def) blast

lemma poll_inv_init: "poll_inv p [] (poll_init p)"
  using select_inv_new [of p] by (simp add: poll_inv_def poll_init_def pollmgr_new_def)

lemma poll_inv_run: "poll_run False (poll_init p) es s \<Longrightarrow> poll_inv p es s"
proof (induction rule: poll_run.induct)
  case poll_start
  show ?case by (rule poll_inv_init)
qed (rule poll_inv_step)


text \<open>A change that is pending can always get \<open>select\<close> to return: its byte is in the pipe.\<close>

lemma wake_inv_step:
  assumes "select_inv p (aio (pm s))" "wake_inv s" "poll_step spurious s e s'"
  shows "wake_inv s'"
  using assms(3)
proof (cases rule: poll_step.cases)
  case (registers fd flag ch m)
  from add_callback_ok [OF registers(3) assms(1) registers(4,5)] registers(2) assms(2)
  show ?thesis by (auto simp: wake_inv_def split: poll_phase.splits)
next
  case (deletes fd flag m)
  from deleted_ops [OF deletes(3) assms(1) deletes(4-6)] deletes(2) assms(2)
  show ?thesis by (auto simp: wake_inv_def split: poll_phase.splits)
next
  case (removes t fd m)
  from removed_ops [OF removes(4) assms(1) removes(5,6)] removes(2) assms(2)
  show ?thesis by (auto simp: wake_inv_def split: poll_phase.splits)
next
  case (removed t fd w m)
  with assms(2) show ?thesis by (auto simp: wake_inv_def dest!: removed_end split: poll_phase.splits)
next
  case (tops b m)
  then show ?thesis by (auto simp: wake_inv_def loop_top_ops)
next
  case copies
  with assms show ?thesis by (auto simp: wake_inv_def select_inv_def)
next
  case (selects high rd wr r w readable writable s'')
  then show ?thesis by (simp add: wake_inv_def)
qed (use assms(2) in \<open>auto simp: wake_inv_def\<close>)

lemma wake_inv_run:
  assumes "poll_run False (poll_init p) es s"
  shows "wake_inv s"
  using assms
proof (induction rule: poll_run.induct)
  case poll_start
  show ?case by (simp add: wake_inv_def poll_init_def pollmgr_new_def)
next
  case (poll_next es s' e s'')
  from wake_inv_step [OF poll_inv_partsD(1) [OF poll_inv_run [OF poll_next.hyps(1)]] poll_next.IH poll_next.hyps(2)]
  show ?case .
qed

lemma poll_run_trans: "poll_run spurious b fs c \<Longrightarrow> poll_run spurious a es b \<Longrightarrow> poll_run spurious a (es @ fs) c"
proof (induction rule: poll_run.induct)
  case (poll_next fs s' e s'')
  from poll_run.poll_next [OF poll_next.IH [OF poll_next.prems] poll_next.hyps(2)] show ?case by simp
qed simp

lemma poll_run_one: "poll_step spurious s e s' \<Longrightarrow> poll_run spurious s [e] s'"
  using poll_run.poll_next [OF poll_run.poll_start, of spurious s e s'] by simp

lemma poll_run_cons:
  assumes "poll_step spurious s e s'" "poll_run spurious s' es s''"
  shows "poll_run spurious s (e # es) s''"
  using poll_run_trans [OF assms(2) poll_run_one [OF assms(1)]] by simp

fun by_poller :: "poll_event \<Rightarrow> bool" where
  "by_poller (Called fd wr ch) = True"
| "by_poller Poll_local = True"
| "by_poller e = False"

lemma serve_finishes:
  "poller s = P_serve xs \<Longrightarrow> \<exists>es. poll_run False s es (s\<lparr>poller := P_top\<rparr>) \<and> list_all by_poller es"
proof (induction xs arbitrary: s)
  case Nil
  from poll_run_one [OF poll_step.served [OF Nil, of False]] show ?case by (intro exI [of _ "[Poll_local]"]) simp
next
  case (Cons x xs)
  obtain fd wr where x: "x = (fd, wr)" by (cases x)
  from Cons.IH [of "s\<lparr>poller := P_serve xs\<rparr>"] obtain es where
    es: "poll_run False (s\<lparr>poller := P_serve xs\<rparr>) es (s\<lparr>poller := P_top\<rparr>)" "list_all by_poller es" by auto
  show ?case
  proof (cases "callbacks (pm s) fd")
    case None
    from poll_run_cons [OF poll_step.skips [OF Cons.prems [unfolded x] None] es(1)] es(2)
    show ?thesis by (intro exI [of _ "Poll_local # es"]) simp
  next
    case (Some ch)
    have 1: "poll_step False s (Called fd wr ch) (s\<lparr>poller := P_calls fd wr xs\<rparr>)"
      by (rule poll_step.calls [OF Cons.prems [unfolded x] Some])
    have 2: "poll_step False (s\<lparr>poller := P_calls fd wr xs\<rparr>) Poll_local (s\<lparr>poller := P_serve xs\<rparr>)"
      using poll_step.returns [of "s\<lparr>poller := P_calls fd wr xs\<rparr>" fd wr xs False] by simp
    from poll_run_cons [OF 1 poll_run_cons [OF 2 es(1)]] es(2)
    show ?thesis by (intro exI [of _ "Called fd wr ch # Poll_local # es"]) simp
  qed
qed

lemma select_wakes:
  assumes "poller s = P_select high rd wr" "wake_inv s" "pending_change (pm s)"
  shows "\<exists>s'. poll_step False s Poll_local (s\<lparr>pm := (pm s)\<lparr>aio := s'\<rparr>, poller := P_serve []\<rparr>)"
proof -
  let ?p = "pipe_fd (aio (pm s))"
  from assms have p: "rd ?p" "?p \<le> high" "0 < pipe_bytes (aio (pm s))" by (simp_all add: wake_inv_def)
  have none: "filter (\<lambda>fd. fd \<noteq> ?p \<and> fd = ?p) xs = []" "filter (\<lambda>fd. False) xs = []" for xs by (simp_all add: filter_False)
  from p(2,3) have "select_collect high (\<lambda>fd. fd = ?p) (\<lambda>_. False) (aio (pm s)) =
      Inr ([], [], (aio (pm s))\<lparr>pipe_bytes := pipe_bytes (aio (pm s)) - 1\<rparr>)"
    by (simp add: select_collect_def Let_def none del: upt_Suc)
  from poll_step.selects [OF assms(1) _ _ _ this, of False] p show ?thesis by (auto simp: serve_list_def)
qed


lemma top_reached:
  assumes "select_inv p (aio (pm s))" "wake_inv s" "pending_change (pm s)"
  shows "\<exists>es s'. poll_run False s es s' \<and> list_all by_poller es \<and> poller s' = P_top \<and> removers s' = removers s"
proof -
  have serve: ?thesis if "poll_run False s es u" "list_all by_poller es" "poller u = P_serve xs" "removers u = removers s" for es u xs
  proof -
    from serve_finishes [OF that(3)] obtain fs where
      fs: "poll_run False u fs (u\<lparr>poller := P_top\<rparr>)" "list_all by_poller fs" by blast
    from poll_run_trans [OF fs(1) that(1)] that(2,4) fs(2) show ?thesis
      by (intro exI [of _ "es @ fs"] exI [of _ "u\<lparr>poller := P_top\<rparr>"]) simp
  qed
  show ?thesis
  proof (cases "poller s")
    case P_top
    with poll_run.poll_start [of False s] show ?thesis by (intro exI [of _ "[]"] exI [of _ s]) simp
  next
    case P_ready
    define u where "u = s\<lparr>poller := copy_sets (aio (pm s))\<rparr>"
    have u: "poll_step False s Poll_local u" unfolding u_def by (rule poll_step.copies [OF P_ready])
    have "poller u = P_select (highfds (aio (pm s))) (rfds (aio (pm s))) (wfds (aio (pm s)))" "pm u = pm s" "removers u = removers s"
      by (simp_all add: u_def)
    with select_wakes [OF this(1) wake_inv_step [OF assms(1,2) u]] assms(3)
    obtain v where v: "poll_step False u Poll_local v" "poller v = P_serve []" "removers v = removers s" by auto
    show ?thesis
      by (rule serve [OF poll_run_cons [OF u poll_run_one [OF v(1)]] _ v(2,3)]) simp
  next
    case (P_select high rd wr)
    from select_wakes [OF this assms(2,3)] obtain v where
      v: "poll_step False s Poll_local v" "poller v = P_serve []" "removers v = removers s" by auto
    show ?thesis by (rule serve [OF poll_run_one [OF v(1)] _ v(2,3)]) simp
  next
    case (P_serve xs)
    show ?thesis by (rule serve [OF poll_run.poll_start _ P_serve]) simp_all
  next
    case (P_calls fd wr xs)
    show ?thesis by (rule serve [OF poll_run_one [OF poll_step.returns [OF P_calls]]]) simp_all
  qed
qed

lemma run_split: "poll_run spurious a (es @ fs) c \<Longrightarrow> \<exists>b. poll_run spurious a es b \<and> poll_run spurious b fs c"
proof (induction fs arbitrary: c rule: rev_induct)
  case Nil
  then show ?case using poll_run.poll_start by force
next
  case (snoc e fs)
  from snoc.prems obtain c' where "poll_run spurious a (es @ fs) c'" "poll_step spurious c' e c"
    by (cases rule: poll_run.cases) auto
  with snoc.IH show ?case using poll_run.poll_next by meson
qed

lemma poll_inv_from: "poll_run False s fs s' \<Longrightarrow> poll_inv p es s \<Longrightarrow> poll_inv p (es @ fs) s'"
proof (induction rule: poll_run.induct)
  case (poll_next fs s' e s'')
  from poll_inv_step [OF poll_next.IH [OF poll_next.prems] poll_next.hyps(2)] show ?case by simp
qed simp

lemma settled_stays:
  "settled f es \<Longrightarrow> Registered f \<notin> set fs \<Longrightarrow> settled f (es @ fs)"
proof (induction fs rule: rev_induct)
  case (snoc e fs)
  then have "settled f (es @ fs)" "e \<noteq> Registered f" by auto
  then show ?case using settled_snoc(1) [of f "es @ fs" e] by (cases e) auto
qed simp

lemma no_call_after:
  "poll_run False s fs s' \<Longrightarrow> poll_inv p es s \<Longrightarrow> settled f es \<Longrightarrow> Registered f \<notin> set fs \<Longrightarrow> Called f wr ch \<notin> set fs"
proof (induction rule: poll_run.induct)
  case (poll_next fs s' e s'')
  then have "settled f (es @ fs)" using settled_stays by simp
  from poll_inv_partsD(4) [OF poll_inv_from [OF poll_next.hyps(1) poll_next.prems(1)] this]
  have "clear_of f (poller s')" by blast
  with poll_next.hyps(2) have "e \<noteq> Called f wr ch" by (cases rule: poll_step.cases) auto
  with poll_next show ?case by simp
qed simp

lemma proper_ops_weaken: "proper_ops own ps i \<Longrightarrow> proper_ops (\<lambda>_. False) ps i"
  by (induction ps arbitrary: i) (auto split: poll_op.splits)

lemma removal_returns:
  assumes "poll_run False (poll_init p) es s" "removers s t = Some (f, w)"
  shows "\<exists>fs s'. poll_run False s (fs @ [Removed t f]) s' \<and> list_all by_poller fs"
proof -
  note inv = poll_inv_partsD [OF poll_inv_run [OF assms(1)]]
  from inv(3) [OF assms(2)] have f: "f < MAX_POLL_FDS" "w \<or> pending_change (pm s)" by (auto split: if_splits)
  have finish: ?thesis if "poll_run False s fs u" "removers u t = Some (f, True)" "list_all by_poller fs" for fs u
  proof -
    from f(1) obtain m where "block_remove_end f (pm u) = Inr m" by (simp add: block_remove_end_def set_callback_def)
    from poll_run.poll_next [OF that(1) poll_step.removed [OF that(2) _ this]] that(3) show ?thesis by blast
  qed
  show ?thesis
  proof (cases w)
    case True
    from finish [OF poll_run.poll_start] assms(2) True show ?thesis by simp
  next
    case False
    with f(2) have "pending_change (pm s)" by simp
    from top_reached [OF inv(1) wake_inv_run [OF assms(1)] this] obtain fs u where
      u: "poll_run False s fs u" "list_all by_poller fs" "poller u = P_top" "removers u = removers s" by blast
    from u(4) assms(2) False have "removers u t = Some (f, False)" by simp
    with poll_inv_partsD(3) [OF poll_inv_from [OF u(1) poll_inv_run [OF assms(1)]]] have "pending_change (pm u)" by fastforce
    then have "loop_top (pm u) = (True, (pm u)\<lparr>pending_change := False\<rparr>)" by (simp add: loop_top_def)
    from poll_run.poll_next [OF u(1) poll_step.tops [OF u(3) this]] show ?thesis
      by (rule finish) (use u(2,4) assms(2) in \<open>simp_all add: wake_removers_def\<close>)
  qed
qed

lemma status_events_flag: "flag \<in> poll_flags \<Longrightarrow> status_events flag = (EPOLLET OR poll_flag_to_event flag)"
  by (auto simp: poll_flags_def status_events_def poll_flag_to_event_def flag_defs EPOLLET_def EPOLLIN_def EPOLLOUT_def)

text \<open>The callback that was added is there.\<close>

lemma has_added:
  assumes "add_callback fd flag ch m = Inr m'" "select_inv p (aio m)" "fd \<noteq> pipe_fd (aio m)" "flag \<in> poll_flags"
  shows "has_callback fd flag c m' = Inr (c = ch)"
proof -
  from assms(1) have fd: "fd < MAX_POLL_FDS" by (auto simp: add_callback_def split: if_split_asm)
  note a = add_callback_ok [OF assms]
  then have "select_interest (aio m') fd = adds_flag flag (select_interest (aio m) fd)" by simp
  then have "select_is_watched fd flag (aio m') = Inr True"
    using flag_cases [OF assms(4)] fd assms(3) a [THEN conjunct2, THEN conjunct2, THEN conjunct2, THEN conjunct2, THEN conjunct2]
    by (auto simp: select_is_watched_def select_interest_def adds_flag_def FD_SETSIZE_def MAX_POLL_FDS_def flag_defs)
  with a fd show ?thesis by (simp add: has_callback_def)
qed

section \<open>An example\<close>

text \<open>Descriptor 5 is registered for reading with object 9; the pipe has descriptor 3.\<close>

definition example_sys :: "poll_phase \<Rightarrow> poll_sys" where
  "example_sys ph =
     \<lparr>pm = \<lparr>callbacks = (\<lambda>_. None)(5 := Some 9),
            aio = \<lparr>rfds = (\<lambda>_. False)(3 := True, 5 := True), wfds = (\<lambda>_. False), highfds = 5, pipe_fd = 3, pipe_bytes = 1\<rparr>,
            pending_change = False\<rparr>,
      poller = ph, removers = (\<lambda>_. None)\<rparr>"

lemma example_registered: "poll_step spurious (poll_init 3) (Registered 5) (example_sys P_top)"
proof -
  have "add_callback 5 CB_RDONLY 9 (pollmgr_new 3) = Inr (pm (example_sys P_top))"
    by (simp add: add_callback_def select_watch_def set_callback_def pollmgr_new_def select_new_def example_sys_def
        MAX_POLL_FDS_def FD_SETSIZE_def)
  with poll_step.registers [of 5 CB_RDONLY 9 "poll_init 3" "pm (example_sys P_top)" spurious] show ?thesis
    by (simp add: poll_init_def pollmgr_new_def select_new_def poll_flags_def) (simp add: example_sys_def)
qed

lemma example_served:
  "poll_run spurious (poll_init 3) [Registered 5, Poll_local, Poll_local, Poll_local, Called 5 False 9] (example_sys (P_calls 5 False []))"
proof -
  let ?a = "aio (pm (example_sys P_top))"
  have none: "wake_removers b (\<lambda>_. None) = (\<lambda>_. None)" for b by (simp add: wake_removers_def fun_eq_iff)
  have 2: "poll_step spurious (example_sys P_top) Poll_local (example_sys P_ready)"
    using poll_step.tops [of "example_sys P_top" False _ spurious] by (simp add: example_sys_def loop_top_def none)
  have 3: "poll_step spurious (example_sys P_ready) Poll_local (example_sys (P_select 5 (rfds ?a) (wfds ?a)))"
    using poll_step.copies [of "example_sys P_ready" spurious] by (simp add: example_sys_def)
  have collect: "select_collect 5 (\<lambda>fd. fd = 5) (\<lambda>_. False) ?a = Inr ([5], [], ?a)"
    by (simp add: select_collect_def example_sys_def upt_rec)
  have 4: "poll_step spurious (example_sys (P_select 5 (rfds ?a) (wfds ?a))) Poll_local (example_sys (P_serve [(5, False)]))"
    using poll_step.selects [of "example_sys (P_select 5 (rfds ?a) (wfds ?a))" 5 "rfds ?a" "wfds ?a" "\<lambda>fd. fd = 5" "\<lambda>_. False" "[5]" "[]" ?a spurious]
      collect by (simp add: example_sys_def serve_list_def)
  have 5: "poll_step spurious (example_sys (P_serve [(5, False)])) (Called 5 False 9) (example_sys (P_calls 5 False []))"
    using poll_step.calls [of "example_sys (P_serve [(5, False)])" 5 False "[]" 9 spurious] by (simp add: example_sys_def)
  show ?thesis
    by (intro poll_run_cons [OF example_registered] poll_run_cons [OF 2] poll_run_cons [OF 3] poll_run_cons [OF 4] poll_run_one [OF 5])
qed

lemma example_removal:
  "\<exists>u. poll_step spurious (example_sys ph) (Removing 7 5) u \<and> removers u 7 = Some (5, False) \<and> poller u = ph"
proof -
  have "\<exists>m. block_remove_begin 5 (pm (example_sys ph)) = Inr m"
    by (simp add: block_remove_begin_def select_unwatch_def FD_SETSIZE_def Let_def)
  then obtain m where "block_remove_begin 5 (pm (example_sys ph)) = Inr m" by blast
  from poll_step.removes [OF _ this, of 7 spurious] show ?thesis
    by (intro exI conjI) (auto simp: example_sys_def MAX_POLL_FDS_def)
qed

lemma example_removing: "\<exists>u. poll_run spurious (poll_init 3) [Registered 5, Removing 7 5] u \<and> removers u 7 = Some (5, False)"
  using example_removal [of spurious P_top] poll_run_cons [OF example_registered poll_run_one] by blast

section \<open>Properties\<close>

text \<open>
  C31: On every sequence of watches and removals that takes off only what is watched, the two
  implementations give the same answers, the ones of the specification, and end with the same
  interest; the highest descriptor of \<open>SelectAIO\<close> covers all of it.
\<close>
theorem poll_backends_agree:
  assumes "proper_ops (\<lambda>fd. fd = p) ps (\<lambda>_. (False, False))"
  shows "\<exists>s e. poll_ops select_watch select_unwatch ps (select_new p) = Inr (fst (spec_ops ps (\<lambda>_. (False, False))), s) \<and>
     poll_ops epoll_watch epoll_unwatch ps epoll_new = Inr (fst (spec_ops ps (\<lambda>_. (False, False))), e) \<and>
     select_interest s = snd (spec_ops ps (\<lambda>_. (False, False))) \<and> epoll_interest e = select_interest s \<and>
     (\<forall>fd. select_interest s fd \<noteq> (False, False) \<longrightarrow> fd \<le> highfds s)"
proof -
  from select.ops_refine [OF select_inv_new(1), of p ps] assms obtain s where
    s: "poll_ops select_watch select_unwatch ps (select_new p) = Inr (fst (spec_ops ps (\<lambda>_. (False, False))), s)"
      "select_inv p s" "select_interest s = snd (spec_ops ps (\<lambda>_. (False, False)))" by (auto simp: select_inv_new(2))
  from epoll.ops_refine [OF epoll_inv_new(1), of ps] proper_ops_weaken [OF assms] obtain e where
    "poll_ops epoll_watch epoll_unwatch ps epoll_new = Inr (fst (spec_ops ps (\<lambda>_. (False, False))), e)"
      "epoll_interest e = snd (spec_ops ps (\<lambda>_. (False, False)))" by (auto simp: epoll_inv_new(2))
  with s show ?thesis by (auto simp: select_inv_def select_interest_def)
qed

theorem poll_backends_agree_witness:
  "\<exists>s e. poll_ops select_watch select_unwatch [Watch 5 CB_RDONLY, Watch 5 CB_WRONLY, Watch 7 CB_RDONLY, Unwatch 7 CB_RDWR, Unwatch 5 CB_WRONLY]
       (select_new 3) = Inr ([True, False], s) \<and>
     poll_ops epoll_watch epoll_unwatch [Watch 5 CB_RDONLY, Watch 5 CB_WRONLY, Watch 7 CB_RDONLY, Unwatch 7 CB_RDWR, Unwatch 5 CB_WRONLY]
       epoll_new = Inr ([True, False], e) \<and> epoll_interest e = select_interest s"
  using poll_backends_agree [of 3 "[Watch 5 CB_RDONLY, Watch 5 CB_WRONLY, Watch 7 CB_RDONLY, Unwatch 7 CB_RDWR, Unwatch 5 CB_WRONLY]"]
  by (auto simp: MAX_POLL_FDS_def poll_flags_def adds_flag_def clears_flag_def flag_defs)

text \<open>
  C17: \<open>block_remove_fd\<close> keeps its promise as long as a wait only returns when it was signalled:
  once it has returned for a descriptor, no callback of it is in progress or due, and none is
  called until the descriptor is registered again.
\<close>
theorem removal_is_final:
  assumes "poll_run False (poll_init p) (es @ [Removed t f] @ fs) s" "Registered f \<notin> set fs"
  shows "callbacks (pm s) f = None \<and> clear_of f (poller s) \<and> (\<forall>wr ch. Called f wr ch \<notin> set fs)"
proof -
  from run_split [of False "poll_init p" "es @ [Removed t f]" fs s] assms(1) obtain u where
    u: "poll_run False (poll_init p) (es @ [Removed t f]) u" "poll_run False u fs s" by auto
  have settled: "settled f (es @ [Removed t f])" by simp
  note inv = poll_inv_run [OF u(1)]
  from poll_inv_partsD(4) [OF poll_inv_from [OF u(2) inv] settled_stays [OF settled assms(2)]]
    no_call_after [OF u(2) inv settled assms(2)] show ?thesis by blast
qed

theorem removal_is_final_witness:
  "\<exists>fs s. poll_run False (poll_init 3) (([Registered 5, Removing 7 5] @ fs) @ [Removed 7 5] @ []) s \<and>
     callbacks (pm s) 5 = None \<and> clear_of 5 (poller s)"
proof -
  from example_removing obtain u where u: "poll_run False (poll_init 3) [Registered 5, Removing 7 5] u" "removers u 7 = Some (5, False)"
    by blast
  from removal_returns [OF u] obtain fs s where "poll_run False u (fs @ [Removed 7 5]) s" by blast
  from poll_run_trans [OF this u(1)]
  have "poll_run False (poll_init 3) (([Registered 5, Removing 7 5] @ fs) @ [Removed 7 5] @ []) s" by simp
  moreover from removal_is_final [OF this] have "callbacks (pm s) 5 = None" "clear_of 5 (poller s)" by simp_all
  ultimately show ?thesis by blast
qed

text \<open>
  Its promise fails when the wait returns without a signal, which \<open>pthread_cond_wait\<close> may
  do and the code does not check: a callback of the descriptor can still be in progress when
  the removal returns.
\<close>
lemma spurious_wakeup_breaks:
  "\<exists>es s. poll_run True (poll_init 3) (es @ [Removing 7 5, Removed 7 5]) s \<and> \<not> clear_of 5 (poller s)"
proof -
  from example_removal [of True "P_calls 5 False []"] obtain u where
    u: "poll_step True (example_sys (P_calls 5 False [])) (Removing 7 5) u" "removers u 7 = Some (5, False)"
      "poller u = P_calls 5 False []" by blast
  define v where "v = u\<lparr>pm := (pm u)\<lparr>callbacks := (callbacks (pm u))(5 := None)\<rparr>, removers := (removers u)(7 := None)\<rparr>"
  have "poll_step True u (Removed 7 5) v"
    using poll_step.removed [OF u(2), of True]
    by (simp add: v_def block_remove_end_def set_callback_def MAX_POLL_FDS_def)
  from example_served poll_run_cons [OF u(1) poll_run_one [OF this]]
  have "poll_run True (poll_init 3) ([Registered 5, Poll_local, Poll_local, Poll_local, Called 5 False 9] @ [Removing 7 5, Removed 7 5]) v"
    by (rule poll_run_trans [rotated])
  moreover have "\<not> clear_of 5 (poller v)" by (simp add: v_def u(3))
  ultimately show ?thesis by blast
qed

text \<open>
  C32: A removal is never stuck: whatever the poll thread is doing, its own steps alone (the
  byte in the pipe wakes \<open>select\<close>, the callbacks return) lead to the broadcast that lets the
  removal return.
\<close>
theorem removal_can_finish:
  assumes "poll_run False (poll_init p) es s" "removers s t = Some (f, w)"
  shows "\<exists>fs s'. poll_run False s (fs @ [Removed t f]) s' \<and> list_all by_poller fs"
  by (rule removal_returns [OF assms])

theorem removal_can_finish_witness:
  "\<exists>s fs s'. poll_run False (poll_init 3) [Registered 5, Removing 7 5] s \<and> poll_run False s (fs @ [Removed 7 5]) s' \<and> list_all by_poller fs"
proof -
  from example_removing obtain u where u: "poll_run False (poll_init 3) [Registered 5, Removing 7 5] u" "removers u 7 = Some (5, False)"
    by blast
  from removal_can_finish [OF u] u(1) show ?thesis by blast
qed

text \<open>
  \<open>EPollAIO::is_watched\<close> says no for every flag a descriptor can be watched for, right after
  it was watched, since \<open>CB_MASK\<close> is the complement of those bits; \<open>SelectAIO::is_watched\<close> says
  yes.
\<close>
lemma epoll_never_reports_watched:
  assumes "fd < MAX_POLL_FDS" "flag \<in> poll_flags"
  shows "epoll_is_watched fd flag e = Inr False \<and> andthen (select_watch fd flag s) (select_is_watched fd flag) = Inr True"
proof -
  have "x AND NOT 0x11 \<noteq> (flag :: u32)" for x
  proof
    assume *: "x AND NOT 0x11 = flag"
    have "flag AND 0x11 = flag" "flag \<noteq> 0" using assms(2) by (auto simp: poll_flags_def flag_defs)
    moreover have "(x AND NOT 0x11) AND 0x11 = (0 :: u32)" by (simp add: and.assoc)
    ultimately show False using * by simp
  qed
  with assms show ?thesis
    using flag_cases [OF assms(2)]
    by (auto simp: epoll_is_watched_def CB_MASK_def select_watch_def select_is_watched_def FD_SETSIZE_def MAX_POLL_FDS_def Let_def)
qed

lemma epoll_never_reports_watched_witness:
  "andthen (epoll_watch 5 CB_RDONLY epoll_new) (epoll_is_watched 5 CB_RDONLY) = Inr False \<and>
   andthen (select_watch 5 CB_RDONLY (select_new 3)) (select_is_watched 5 CB_RDONLY) = Inr True"
proof -
  have "\<exists>e. epoll_watch 5 CB_RDONLY epoll_new = Inr e"
    by (simp add: epoll_watch_def epoll_new_def epoll_ctl_def Let_def MAX_POLL_FDS_def flag_defs)
  with epoll_never_reports_watched [of 5 CB_RDONLY] show ?thesis
    by (auto simp: MAX_POLL_FDS_def poll_flags_def)
qed

end
