(* ===== verification/Listener.thy ===== *)
theory Listener
  imports Connection
begin

text \<open>
  Making connections: the listener \<open>tcpsconn\<close> and \<open>connect_to_dst\<close> of \<open>rpc/connection.cc\<close>,
  and the addresses of \<open>rpc/rpc.cc\<close> (\<open>make_sockaddr\<close>, the order of \<open>sockaddr_in\<close>). What the
  kernel and the resolver answer is an argument.
\<close>

section \<open>Addresses\<close>

text \<open>
  The address and the port as they are stored, in network byte order; the machine is little
  endian.
\<close>

datatype sockaddr = Sockaddr (sin_addr: u32) (sin_port: u16)

instantiation sockaddr :: linorder
begin

definition less_sockaddr :: "sockaddr \<Rightarrow> sockaddr \<Rightarrow> bool" where
  "less_sockaddr a b \<longleftrightarrow> sin_addr a < sin_addr b \<or> (sin_addr a = sin_addr b \<and> sin_port a < sin_port b)"

definition less_eq_sockaddr :: "sockaddr \<Rightarrow> sockaddr \<Rightarrow> bool" where
  "less_eq_sockaddr a b \<longleftrightarrow> a < b \<or> a = (b :: sockaddr)"

instance
proof
  fix a b c :: sockaddr
  show "(a < b) = (a \<le> b \<and> \<not> b \<le> a)" by (auto simp: less_eq_sockaddr_def less_sockaddr_def)
  show "a \<le> a" by (simp add: less_eq_sockaddr_def)
  show "a \<le> b \<Longrightarrow> b \<le> c \<Longrightarrow> a \<le> c" by (auto simp: less_eq_sockaddr_def less_sockaddr_def)
  show "a \<le> b \<Longrightarrow> b \<le> a \<Longrightarrow> a = b" by (auto simp: less_eq_sockaddr_def less_sockaddr_def)
  show "a \<le> b \<or> b \<le> a" by (cases a; cases b) (auto simp: less_eq_sockaddr_def less_sockaddr_def)
qed

end

text \<open>C strings are lists of bytes without the final null byte.\<close>

definition colon :: u8 where "colon = 58"

definition localhost :: "u8 list" where
  "localhost = [49, 50, 55, 46, 48, 46, 48, 46, 49]"

definition htons :: "u16 \<Rightarrow> u16" where
  "htons x = push_bit 8 x OR drop_bit 8 x"

text \<open>\<open>atoi\<close>: white space, a sign, digits; a value out of the range of \<open>int\<close> is undefined.\<close>

definition is_space :: "u8 \<Rightarrow> bool" where
  "is_space c \<longleftrightarrow> c = 32 \<or> 9 \<le> c \<and> c \<le> 13"

definition is_digit :: "u8 \<Rightarrow> bool" where
  "is_digit c \<longleftrightarrow> 48 \<le> c \<and> c \<le> 57"

definition digits_value :: "u8 list \<Rightarrow> int" where
  "digits_value ds = foldl (\<lambda>n c. 10 * n + (uint c - 48)) 0 ds"

definition atoi :: "u8 list \<Rightarrow> int outcome" where
  "atoi s =
     (let t = dropWhile is_space s;
          (neg, t) = (case t of [] \<Rightarrow> (False, []) | c # cs \<Rightarrow> if c = 45 then (True, cs) else if c = 43 then (False, cs) else (False, t));
          v = digits_value (takeWhile is_digit t);
          v = (if neg then - v else v)
      in if - int int_max - 1 \<le> v \<and> v \<le> int int_max then Inr v else Inl Int_overflow)"

text \<open>
  \<open>inet\<close> and \<open>resolve\<close> stand for \<open>inet_addr\<close> (\<^term>\<open>None\<close> for \<open>INADDR_NONE\<close>) and
  \<open>gethostbyname\<close>; the result \<^term>\<open>None\<close> is the end of the process by \<open>exit(1)\<close>.
\<close>

type_synonym resolver = "u8 list \<Rightarrow> u32 option"

definition make_sockaddr2 :: "resolver \<Rightarrow> resolver \<Rightarrow> u8 list \<Rightarrow> u8 list \<Rightarrow> sockaddr option outcome" where
  "make_sockaddr2 inet resolve host port =
     (case (case inet host of Some a \<Rightarrow> Some a | None \<Rightarrow> resolve host) of
        None \<Rightarrow> Inr None
      | Some a \<Rightarrow> andthen (atoi port) (\<lambda>v. Inr (Some (Sockaddr a (htons (of_int v))))))"

text \<open>The buffer for the host name has 200 characters, the null byte included.\<close>

definition make_sockaddr :: "resolver \<Rightarrow> resolver \<Rightarrow> u8 list \<Rightarrow> sockaddr option outcome" where
  "make_sockaddr inet resolve hostandport =
     (if colon \<notin> set hostandport then make_sockaddr2 inet resolve localhost hostandport
      else
        let host = takeWhile (\<lambda>c. c \<noteq> colon) hostandport
        in if 200 \<le> length host then Inl Out_of_bounds
           else make_sockaddr2 inet resolve host (drop (length host + 1) hostandport))"

section \<open>Connecting\<close>

definition connect_to_dst :: "bool \<Rightarrow> int \<Rightarrow> int \<times> int \<Rightarrow> int \<Rightarrow> connection option" where
  "connect_to_dst connected s now lossy =
     (if \<not> connected then None else Some (connection_new s lossy now))"

section \<open>The listener\<close>

text \<open>
  \<open>conns_\<close> is a \<open>std::map\<close>: its entries in the order of their keys. \<open>erase(i)\<close> makes the
  iterator invalid that the loop then advances.
\<close>

type_synonym conn_map = "(int \<times> nat) list"

fun map_put :: "int \<Rightarrow> nat \<Rightarrow> conn_map \<Rightarrow> conn_map" where
  "map_put k v [] = [(k, v)]"
| "map_put k v (e # es) = (if fst e = k then (k, v) # es else if k < fst e then (k, v) # e # es else e # map_put k v es)"

fun collect_dead :: "conn_map \<Rightarrow> conn_heap \<Rightarrow> conn_heap outcome" where
  "collect_dead [] h = Inr h"
| "collect_dead (e # es) h =
     andthen (isdead (snd e) h) (\<lambda>dead.
     andthen (if dead then ref (snd e) h else Inr 0) (\<lambda>r.
     if dead \<and> r = 1
     then andthen (decref (snd e) h) (\<lambda>h. Inl Use_after_free)
     else collect_dead es h))"

text \<open>\<open>process_accept\<close>: \<open>s1\<close> is what \<open>accept\<close> returns, \<open>c\<close> where the new object is.\<close>

definition process_accept :: "int \<Rightarrow> nat \<Rightarrow> int \<times> int \<Rightarrow> int \<Rightarrow> conn_map \<times> conn_heap \<Rightarrow> (conn_map \<times> conn_heap) option outcome" where
  "process_accept s1 c now lossy st =
     (if s1 < 0 then Inr None
      else
        let h = (snd st)(c \<mapsto> connection_new s1 lossy now)
        in andthen (collect_dead (fst st) h) (\<lambda>h. Inr (Some (map_put s1 c (fst st), h))))"

text \<open>
  One turn of \<open>accept_conn\<close> for what \<open>select\<close> answers: interrupted, or which of the pipe and
  the socket are ready. \<^term>\<open>None\<close> is the end of the thread.
\<close>

datatype select_answer = Interrupted | Failed | Ready bool bool

definition accept_turn :: "select_answer \<Rightarrow> int \<Rightarrow> nat \<Rightarrow> int \<times> int \<Rightarrow> int \<Rightarrow> conn_map \<times> conn_heap \<Rightarrow> (conn_map \<times> conn_heap) option outcome" where
  "accept_turn a s1 c now lossy st =
     (case a of
        Interrupted \<Rightarrow> Inr (Some st)
      | Failed \<Rightarrow> Inl Assert_failed
      | Ready pipe_ready tcp_ready \<Rightarrow>
          if pipe_ready then Inr None
          else if tcp_ready then process_accept s1 c now lossy st
          else Inl Assert_failed)"

text \<open>The end of the destructor, after the thread was joined.\<close>

fun close_all :: "conn_map \<Rightarrow> conn_heap \<Rightarrow> conn_heap outcome" where
  "close_all [] h = Inr h"
| "close_all (e # es) h =
     andthen (closeconn (snd e) h) (\<lambda>(h, removed).
     andthen (decref (snd e) h) (close_all es))"


section \<open>Lemmas\<close>

lemma digit_first: "is_digit c \<Longrightarrow> \<not> is_space c \<and> c \<noteq> 45 \<and> c \<noteq> 43 \<and> c \<noteq> colon"
  by (auto simp: is_digit_def is_space_def colon_def word_le_nat_alt)

lemma atoi_digits:
  assumes "ds \<noteq> []" "list_all is_digit ds" "digits_value ds \<le> int int_max"
  shows "atoi ds = Inr (digits_value ds)"
proof -
  obtain c cs where c: "ds = c # cs" using assms(1) by (cases ds) auto
  with assms(2) digit_first have d: "dropWhile is_space ds = ds" "c \<noteq> 45" "c \<noteq> 43" by auto
  have t: "takeWhile is_digit ds = ds" using assms(2) by (simp add: takeWhile_eq_all_conv list_all_iff)
  have "0 \<le> foldl (\<lambda>n c. 10 * n + (uint c - 48)) k ds" if "0 \<le> k" for k :: int
    using that assms(2)
  proof (induction ds arbitrary: k)
    case (Cons e es)
    then have "48 \<le> uint e" by (simp add: is_digit_def word_le_def)
    with Cons show ?case by simp
  qed simp
  then have "0 \<le> digits_value ds" by (simp add: digits_value_def)
  with assms(3) show ?thesis using d t c by (auto simp: atoi_def Let_def)
qed

lemma collect_dead_iff:
  assumes "\<forall>e \<in> set es. \<exists>o1. h (snd e) = Some o1 \<and> (cn_dead o1 \<and> cn_refno o1 = 1 \<longrightarrow> cb_buf (cn_wpdu o1) = None)"
  shows "collect_dead es h =
     (if \<exists>e \<in> set es. \<exists>o1. h (snd e) = Some o1 \<and> cn_dead o1 \<and> cn_refno o1 = 1 then Inl Use_after_free else Inr h)"
  using assms
proof (induction es)
  case (Cons e es)
  then obtain o1 where o1: "h (snd e) = Some o1" "cn_dead o1 \<and> cn_refno o1 = 1 \<longrightarrow> cb_buf (cn_wpdu o1) = None" by auto
  with Cons show ?case by (auto simp: isdead_def ref_def decref_def delete_conn_def)
qed simp

text \<open>What the destructor leaves of a connection that it closes and releases.\<close>

definition released :: "connection \<Rightarrow> connection option" where
  "released o1 = (if cn_refno o1 = 1 then None else Some (o1\<lparr>cn_dead := True, cn_refno := cn_refno o1 - 1\<rparr>))"

lemma close_release:
  assumes "h c = Some o1" "1 \<le> cn_refno o1" "cn_refno o1 = 1 \<longrightarrow> cb_buf (cn_wpdu o1) = None"
  shows "andthen (closeconn c h) (\<lambda>(h, removed). andthen (decref c h) k) = k (h(c := released o1))"
  using assms by (auto simp: closeconn_def decref_def delete_conn_def released_def Let_def)
    (auto intro!: arg_cong [where f = k] simp: fun_eq_iff)

lemma close_all_releases:
  assumes "distinct (map snd es)"
    "\<forall>e \<in> set es. \<exists>o1. h (snd e) = Some o1 \<and> 1 \<le> cn_refno o1 \<and> (cn_refno o1 = 1 \<longrightarrow> cb_buf (cn_wpdu o1) = None)"
  shows "close_all es h = Inr (\<lambda>c. if c \<in> snd ` set es then released (the (h c)) else h c)"
  using assms
proof (induction es arbitrary: h)
  case (Cons e es)
  then obtain o1 where o1: "h (snd e) = Some o1" "1 \<le> cn_refno o1" "cn_refno o1 = 1 \<longrightarrow> cb_buf (cn_wpdu o1) = None" by auto
  let ?h = "h(snd e := released o1)"
  from Cons.prems(1) have "snd f \<noteq> snd e" if "f \<in> set es" for f using that by (auto simp: image_iff)
  with Cons.prems have H: "\<forall>f \<in> set es. \<exists>o1. ?h (snd f) = Some o1 \<and> 1 \<le> cn_refno o1 \<and> (cn_refno o1 = 1 \<longrightarrow> cb_buf (cn_wpdu o1) = None)"
    by auto
  from Cons.prems(1) have "distinct (map snd es)" by simp
  from Cons.IH [OF this H] have "close_all es ?h = Inr (\<lambda>c. if c \<in> snd ` set es then released (the (?h c)) else ?h c)" .
  with close_release [where h = h and c = "snd e" and k = "close_all es", OF o1] Cons.prems(1) o1(1) show ?case by (auto simp: fun_eq_iff)
qed simp

section \<open>Properties\<close>

text \<open>
  \<open>make_sockaddr\<close> on \<open>host:port\<close>, for a port of digits: the host is copied into a buffer of
  200 characters, and from 200 characters on it is written over; otherwise the result is the
  address of the host, and the port modulo \<open>2^16\<close>, or the end of the process when there is
  no such host.
\<close>

lemma make_sockaddr_bounds:
  assumes "colon \<notin> set host" "ds \<noteq> []" "list_all is_digit ds" "digits_value ds \<le> int int_max"
  shows "make_sockaddr inet resolve (host @ colon # ds) =
     (if 200 \<le> length host then Inl Out_of_bounds
      else Inr (map_option (\<lambda>a. Sockaddr a (htons (of_int (digits_value ds))))
        (case inet host of Some a \<Rightarrow> Some a | None \<Rightarrow> resolve host)))"
proof -
  have "takeWhile (\<lambda>c. c \<noteq> colon) (host @ colon # ds) = host"
    using assms(1) by (auto simp: takeWhile_append intro: takeWhile_eq_all_conv [THEN iffD2])
  with atoi_digits [OF assms(2-4)] show ?thesis
    by (auto simp: make_sockaddr_def make_sockaddr2_def Let_def split: option.split)
qed

lemma make_sockaddr_bounds_witness:
  "make_sockaddr (\<lambda>_. None) (\<lambda>h. Some 16777343) (replicate 9 97 @ colon # [49, 50, 51]) = Inr (Some (Sockaddr 16777343 (htons 123)))"
  using make_sockaddr_bounds [of "replicate 9 97" "[49, 50, 51]" "\<lambda>_. None" "\<lambda>h. Some 16777343"]
  by (simp add: colon_def is_digit_def digits_value_def int_max_def)

text \<open>
  C39: accepting a connection faults exactly when there is a dead connection to collect: the
  loop erases the entry its iterator stands on and then advances that iterator. Otherwise the
  new connection is entered with one reference.
\<close>

theorem accept_faults_when_collecting:
  assumes "0 \<le> s1" "h c = None"
    and "\<forall>e \<in> set es. \<exists>o1. h (snd e) = Some o1 \<and> (cn_dead o1 \<and> cn_refno o1 = 1 \<longrightarrow> cb_buf (cn_wpdu o1) = None)"
  shows "process_accept s1 c now lossy (es, h) =
     (if \<exists>e \<in> set es. \<exists>o1. h (snd e) = Some o1 \<and> cn_dead o1 \<and> cn_refno o1 = 1 then Inl Use_after_free
      else Inr (Some (map_put s1 c es, h(c \<mapsto> connection_new s1 lossy now))))"
proof -
  have "snd e \<noteq> c" if "e \<in> set es" for e using assms(2,3) that by force
  with assms(3) collect_dead_iff [of es "h(c \<mapsto> connection_new s1 lossy now)"] assms(1) show ?thesis
    by (auto simp: process_accept_def)
qed

theorem accept_faults_when_collecting_witness:
  "process_accept 8 2 (0, 0) 0 ([(7, 1)], (\<lambda>_. None)(1 \<mapsto> (connection_new 7 0 (0, 0))\<lparr>cn_dead := True\<rparr>)) = Inl Use_after_free"
  using accept_faults_when_collecting [of 8 "(\<lambda>_. None)(1 \<mapsto> (connection_new 7 0 (0, 0))\<lparr>cn_dead := True\<rparr>)" 2 "[(7, 1)]" "(0, 0)" 0]
  by (simp add: connection_new_def charbuf_empty_def)

end
