(* ===== verification/Session.thy ===== *)
theory Session
  imports EndToEnd
begin

text \<open>
  A client and a server that work in turn, over a network that delivers at once: the sections
  of \<open>RpcClient\<close> and \<open>RpcServer\<close> in the order in which an undisturbed call runs them. Such
  calls succeed, one after the other, up to the last number.
\<close>

section \<open>A call in turn\<close>

text \<open>
  The connections of the server are alive and in use. The buffer of a reply has the number of
  the send as its address.
\<close>

definition steady :: conn_heap where
  "steady = (\<lambda>_. Some ((connection_new 5 0 (0, 0))\<lparr>cn_refno := 3\<rparr>))"

definition arriving :: "cells \<Rightarrow> u8 list" where
  "arriving bs = wire (\<lambda>_. 0) (length bs) bs"

definition serve_on :: "nat \<Rightarrow> marshall \<Rightarrow> 's rpcs \<Rightarrow> (u8 list option \<times> 's rpcs) outcome" where
  "serve_on c msg rs =
     andthen (dispatch_begin c (arriving (written msg)) (rs\<lparr>heap := steady\<rparr>)) (\<lambda>(new, rs1).
     andthen (case new of None \<Rightarrow> Inr rs1 | Some j \<Rightarrow> dispatch_end (length (sends rs)) j rs1) (\<lambda>rs2.
     Inr (if length (sends rs) < length (sends rs2) then Some (arriving (snd (last (sends rs2)))) else None, rs2)))"

text \<open>
  What becomes of the attempts of a call before the one that gets through: the request is lost, or
  it arrives over some connection and the reply is lost. Every attempt sends the same bytes.
\<close>

datatype fate = Request_lost | Reply_lost nat

type_synonym way = "fate list \<times> nat"

fun attempts :: "fate list \<Rightarrow> nat \<Rightarrow> marshall \<Rightarrow> 's rpcs \<Rightarrow> (u8 list option \<times> 's rpcs) outcome" where
  "attempts [] c msg rs = serve_on c msg rs"
| "attempts (Request_lost # fs) c msg rs = attempts fs c msg rs"
| "attempts (Reply_lost d # fs) c msg rs = andthen (serve_on d msg rs) (\<lambda>(_, rs). attempts fs c msg rs)"

text \<open>\<open>call1\<close> with its attempts; \<^term>\<open>None\<close> in place of the server is a server that is gone.\<close>

definition call_over :: "way \<Rightarrow> u32 \<Rightarrow> marshall outcome \<Rightarrow> 's rpcs option \<times> rpcc \<Rightarrow> (i32 \<times> unmarshall \<times> 's rpcs option \<times> rpcc) outcome" where
  "call_over c p req w =
     andthen req (\<lambda>m.
     andthen (call_begin 0 p m unmarshall_empty (snd w)) (\<lambda>(r, cl).
     case r of
       Inl code \<Rightarrow> Inr (code, unmarshall_empty, fst w, cl)
     | Inr msg \<Rightarrow>
         andthen (case fst w of None \<Rightarrow> Inr (None, None) | Some rs \<Rightarrow> andthen (attempts (fst c) (snd c) msg rs) (\<lambda>(a, rs). Inr (a, Some rs))) (\<lambda>(a, srv).
         andthen (case a of None \<Rightarrow> Inr cl | Some pdu \<Rightarrow> got_reply pdu cl) (\<lambda>cl.
         andthen (call_end 0 None cl) (\<lambda>(ret, un, signalled, cl). Inr (ret, un, srv, cl))))))"

definition bind_over :: "way \<Rightarrow> 's rpcs option \<times> rpcc \<Rightarrow> (i32 \<times> 's rpcs option \<times> rpcc) outcome" where
  "bind_over c w =
     andthen (call_over c rpc_bind bind_req w) (\<lambda>(ret, un, srv, cl).
     andthen (call_m get_int ret un 0) (\<lambda>(ret, r).
     let (ret, cl) = bind_end ret r cl in Inr (ret, srv, cl)))"

section \<open>The client's side\<close>

text \<open>Between two calls: the last number is acknowledged, and nobody waits.\<close>

definition client_calm :: "u32 \<Rightarrow> rpcc \<Rightarrow> bool" where
  "client_calm x cl \<longleftrightarrow> next_xid cl = x \<and> rep_window cl = [x - 1] \<and> calls cl = [] \<and> callers cl = (\<lambda>_. None) \<and> \<not> destroy_wait cl"

definition may_call :: "u32 \<Rightarrow> rpcc \<Rightarrow> bool" where
  "may_call p cl \<longleftrightarrow> (p = rpc_bind) \<noteq> bind_done cl"

lemma client_calm_new: "client_calm 1 (rpcc_new re n)"
  by (simp add: client_calm_def rpcc_new_def xid_rep_window_init_def)

lemma update_next: "0 < x \<Longrightarrow> update_xid_rep x [x - 1] = Inr [x :: u32]"
  by (simp add: word_gt_0 not_le) (auto simp: not_le word_gt_0 unat_arith_simps)

lemma update_same: "update_xid_rep x [x] = Inr [x]"
  by simp

definition next_header :: "u32 \<Rightarrow> rpcc \<Rightarrow> req_header" where
  "next_header p cl = \<lparr>rq_xid = next_xid cl, rq_proc = p, rq_clt_nonce = cl_nonce cl, rq_srv_nonce = cl_srv_nonce cl, rq_xid_rep = next_xid cl - 1\<rparr>"

definition in_call :: "rpcc \<Rightarrow> rpcc" where
  "in_call cl = cl\<lparr>next_xid := next_xid cl + 1, callers := [0 \<mapsto> caller_new (next_xid cl) unmarshall_empty], calls := [(next_xid cl, 0)]\<rparr>"

definition after_call :: "rpcc \<Rightarrow> rpcc" where
  "after_call cl = cl\<lparr>next_xid := next_xid cl + 1, rep_window := [next_xid cl]\<rparr>"

lemma after_call_calm: "client_calm x cl \<Longrightarrow> client_calm (x + 1) (after_call cl)"
  by (simp add: client_calm_def after_call_def)

lemma call_refused:
  "\<not> may_call p cl \<Longrightarrow> call_over c p (Inr m) w = Inr (bind_failure, unmarshall_empty, w)" if "cl = snd w"
  using that by (cases w) (auto simp: call_over_def call_begin_def may_call_def)

lemma call_begins:
  assumes "client_calm x cl" "may_call p cl" "pack_req_header (next_header p cl) m = Inr msg"
  shows "call_begin 0 p m unmarshall_empty cl = Inr (Inr msg, in_call cl)"
  using assms by (auto simp: client_calm_def may_call_def call_begin_def next_header_def in_call_def Let_def)

lemma call_unanswered:
  assumes "client_calm x cl" "0 < x"
  shows "call_end 0 None (in_call cl) = Inr (timeout_failure, unmarshall_empty, False, after_call cl)"
  using assms update_next [OF assms(2)]
  by (simp add: client_calm_def call_end_def in_call_def caller_new_def after_call_def del: update_xid_rep.simps)

lemma call_answered:
  assumes "client_calm x cl" "0 < x" "reply_of pdu = Some \<lparr>rp_xid = x, rp_ret = ret\<rparr>" "at_body (reply_un pdu) out"
  shows "\<exists>cl1 un s. got_reply pdu (in_call cl) = Inr cl1 \<and> call_end 0 None cl1 = Inr (ret, un, s, after_call cl) \<and> at_body un out"
proof -
  obtain u where u: "unpack_reply_header (unmarshall_of pdu) = (\<lparr>rp_xid = x, rp_ret = ret\<rparr>, u)" "uok u"
    using assms(3) by (auto simp: reply_of_def split: prod.splits if_split_asm)
  from unpack_reply_ubuf [of "unmarshall_of pdu"] u(1) have "ubuf u = pdu" by (simp add: unmarshall_of_def)
  then have t: "fst (take_in un u) = reply_un pdu" for un by (simp add: take_in_def utake_buf_def reply_un_def)
  let ?cl = "(in_call cl)\<lparr>rep_window := [x], callers := [0 \<mapsto> (caller_new x unmarshall_empty)\<lparr>ca_un := reply_un pdu, ca_intret := ret, ca_done := True\<rparr>]\<rparr>"
  from assms(1) update_next [OF assms(2)] u t have "got_reply pdu (in_call cl) = Inr ?cl"
    by (simp add: client_calm_def got_reply_def in_call_def caller_new_def Let_def del: update_xid_rep.simps)
  moreover have "call_end 0 None ?cl = Inr (ret, reply_un pdu, False, after_call cl)"
    using assms(1) by (simp add: client_calm_def call_end_def in_call_def caller_new_def after_call_def)
  ultimately show ?thesis using assms(4) by blast
qed

section \<open>The server's side\<close>

definition server_calm :: "'s rpcs \<Rightarrow> bool" where
  "server_calm rs \<longleftrightarrow> counting rs = 0 \<and> reply_inv (replies rs) \<and> (\<forall>b. live (replies rs) b \<longrightarrow> b < length (sends rs))"

definition seen_below :: "u32 \<Rightarrow> u32 \<Rightarrow> 's rpcs \<Rightarrow> bool" where
  "seen_below n x rs \<longleftrightarrow> (\<forall>e \<in> set (window_of (replies rs) n). rt_xid e < x)"

lemma server_calm_new: "server_calm ((rpcs_new nonce 0 a)\<lparr>procs := ps\<rparr>)" "seen_below n x ((rpcs_new nonce 0 a)\<lparr>procs := ps\<rparr>)"
  by (simp_all add: server_calm_def seen_below_def rpcs_new_def reply_inv_init) (simp_all add: reply_state_init_def window_of_def)

lemma note_conn_steady:
  "heap rs = steady \<Longrightarrow> \<exists>rs1. note_conn c n rs = Inr rs1 \<and> same_core rs rs1 \<and> sends rs1 = sends rs \<and> counting rs1 = counting rs \<and>
     (\<exists>o1. heap rs1 c = Some o1 \<and> \<not> cn_dead o1 \<and> 3 \<le> cn_refno o1)"
  by (cases "conns rs n")
    (auto simp: note_conn_def on_heap_def incref_def steady_def compare_conn_def connection_new_def same_core_def Let_def)

lemma new_request:
  assumes "reply_inv st" "seen_below n x rs" "replies rs = st" "r < x"
  shows "checkduplicate_and_update n x r st = Inr ((NEW, None), set_window n (window_ref x (kept r (window_of st n)))
       (st\<lparr>live := trimmed_live r (window_of st n) (live st)\<rparr>)) \<and>
     fst (answer_ref x (kept r (window_of st n))) = NEW"
proof -
  let ?k = "kept r (window_of st n)"
  have "\<forall>e \<in> set ?k. rt_xid e < x" using assms(2,3) by (simp add: seen_below_def kept_simps)
  then have "fst (answer_ref x ?k) = NEW" by (cases ?k) (auto simp: answer_NEW_iff)
  moreover from this have "answer_ref x ?k = (NEW, None)"
    by (auto simp: answer_ref_def split: option.splits if_splits)
  ultimately show ?thesis using check_ok [OF assms(1,4), of n] by simp
qed

lemma begins_new:
  assumes "server_calm rs" "seen_below n x rs" "n \<noteq> 0" "r < x"
    and "unpack_req_header (unmarshall_of pdu) = (h, u)" "uok u" "rq_clt_nonce h = n" "rq_xid h = x" "rq_xid_rep h = r"
    and "rq_srv_nonce h = 0 \<or> rq_srv_nonce h = srv_nonce rs" "procs rs (rq_proc h) = Some f"
  shows "\<exists>rs1. dispatch_begin c pdu (rs\<lparr>heap := steady\<rparr>) = Inr (Some \<lparr>jb_conn = c, jb_header = h, jb_args = u, jb_handler = f\<rparr>, rs1) \<and>
     replies rs1 = set_window n (window_ref x (kept r (window_of (replies rs) n)))
       ((replies rs)\<lparr>live := trimmed_live r (window_of (replies rs) n) (live (replies rs))\<rparr>) \<and>
     app rs1 = app rs \<and> sends rs1 = sends rs \<and> counting rs1 = 0 \<and> procs rs1 = procs rs \<and> srv_nonce rs1 = srv_nonce rs \<and>
     (\<exists>o1. heap rs1 c = Some o1 \<and> \<not> cn_dead o1 \<and> 3 \<le> cn_refno o1)"
proof -
  obtain st where st: "find_window n (replies rs) = Inr st"
    by (cases "reply_window (replies rs) n") (auto simp: find_window_def window_of_def)
  from note_conn_steady [of "rs\<lparr>heap := steady, replies := st\<rparr>" c n] obtain rs1 where
    1: "note_conn c n (rs\<lparr>heap := steady, replies := st\<rparr>) = Inr rs1" "same_core (rs\<lparr>heap := steady, replies := st\<rparr>) rs1"
      "sends rs1 = sends rs" "counting rs1 = counting rs" "\<exists>o1. heap rs1 c = Some o1 \<and> \<not> cn_dead o1 \<and> 3 \<le> cn_refno o1" by auto
  from assms(1) have inv: "reply_inv (replies rs)" and cnt: "counting rs = 0" by (simp_all add: server_calm_def)
  from check_after_find [OF st, of x r] new_request [OF inv assms(2) refl assms(4)] 1(2)
  have "checkduplicate_and_update n x r (replies rs1) = Inr ((NEW, None), set_window n (window_ref x (kept r (window_of (replies rs) n)))
       ((replies rs)\<lparr>live := trimmed_live r (window_of (replies rs) n) (live (replies rs))\<rparr>))" by (simp add: same_core_def)
  with assms st 1 cnt show ?thesis
    by (simp add: dispatch_begin_def same_core_def) auto
qed

lemma ends_new:
  assumes "reply_inv (replies rs)" "counting rs = 0" "\<not> live (replies rs) b" "heap rs c = Some o1" "\<not> cn_dead o1" "3 \<le> cn_refno o1"
    and "f (app rs) u marshall_new = Inr (s', ret, rep)" "body rep out" "0 \<le>s ret \<or> ret = unmarshal_args_failure" "rq_clt_nonce h = n" "n \<noteq> 0"
  shows "\<exists>rs2 m. dispatch_end b \<lparr>jb_conn = c, jb_header = h, jb_args = u, jb_handler = f\<rparr> rs = Inr rs2 \<and>
     sent m (enc_reply_header \<lparr>rp_xid = rq_xid h, rp_ret = ret\<rparr>) out \<and> sends rs2 = sends rs @ [(c, written m)] \<and> app rs2 = s' \<and>
     replies rs2 = add_reply n (rq_xid h) (Some b) (mind m) ((replies rs)\<lparr>live := (live (replies rs))(b := True)\<rparr>) \<and>
     counting rs2 = 0 \<and> procs rs2 = procs rs \<and> srv_nonce rs2 = srv_nonce rs \<and> bufs rs2 b = written m"
proof -
  from pack_reply_header_sent [OF assms(8), of "\<lparr>rp_xid = rq_xid h, rp_ret = ret\<rparr>"] obtain m where
    m: "pack_reply_header \<lparr>rp_xid = rq_xid h, rp_ret = ret\<rparr> rep = Inr m" "sent m (enc_reply_header \<lparr>rp_xid = rq_xid h, rp_ret = ret\<rparr>) out" by blast
  from assms(10,11) have "0 < rq_clt_nonce h" by (simp add: word_neq_0_conv)
  with assms m show ?thesis
    by (simp add: dispatch_end_def count_request_def keep_reply_def take_buf_def latest_conn_def isdead_def on_heap_def decref_def Let_def send_on_def)
      blast
qed

text \<open>The answer to number \<open>x\<close> is on record, in buffer \<open>b\<close>.\<close>

definition on_record :: "u32 \<Rightarrow> u32 \<Rightarrow> u32 \<Rightarrow> nat \<Rightarrow> marshall \<Rightarrow> 's rpcs \<Rightarrow> bool" where
  "on_record n x r b m rs \<longleftrightarrow> bufs rs b = written m \<and>
     answer_ref x (kept r (window_of (replies rs) n)) = (DONE, Some (Some b, mind m))"

definition others_kept :: "u32 \<Rightarrow> 's rpcs \<Rightarrow> 's rpcs \<Rightarrow> bool" where
  "others_kept n rs rs' \<longleftrightarrow> procs rs' = procs rs \<and> srv_nonce rs' = srv_nonce rs \<and>
     (\<forall>d. d \<noteq> n \<longrightarrow> window_of (replies rs') d = window_of (replies rs) d)"

lemma others_kept_trans: "others_kept n rs rs1 \<Longrightarrow> others_kept n rs1 rs2 \<Longrightarrow> others_kept n rs rs2"
  by (simp add: others_kept_def)

lemma serves:
  assumes "server_calm rs" "seen_below n x rs" "n \<noteq> 0" "r < x" "x < x + 1" "sent msg (enc_req_header h) args"
    and "rq_clt_nonce h = n" "rq_xid h = x" "rq_xid_rep h = r" "rq_srv_nonce h = 0 \<or> rq_srv_nonce h = srv_nonce rs" "procs rs (rq_proc h) = Some f"
    and "\<And>u. at_body u args \<Longrightarrow> f (app rs) u marshall_new = Inr (s', ret, rep)" "body rep out" "0 \<le>s ret \<or> ret = unmarshal_args_failure"
  shows "\<exists>b m rs2. serve_on c msg rs = Inr (Some (arriving (written m)), rs2) \<and> sent m (enc_reply_header \<lparr>rp_xid = x, rp_ret = ret\<rparr>) out \<and>
     server_calm rs2 \<and> seen_below n (x + 1) rs2 \<and> app rs2 = s' \<and> others_kept n rs rs2 \<and> on_record n x r b m rs2"
proof -
  let ?pdu = "arriving (written msg)"
  from carries_request [OF sent_carries(1) [OF assms(6)], of "\<lambda>_. 0"] obtain u where
    u: "unpack_req_header (unmarshall_of ?pdu) = (h, u)" "at_body u args" by (auto simp: arriving_def)
  then have "uok u" by (simp add: at_body_def)
  from begins_new [where f = f and c = c, OF assms(1-4) u(1) this assms(7-11)] obtain rs1 o1 where
    1: "dispatch_begin c ?pdu (rs\<lparr>heap := steady\<rparr>) = Inr (Some \<lparr>jb_conn = c, jb_header = h, jb_args = u, jb_handler = f\<rparr>, rs1)"
      "replies rs1 = set_window n (window_ref x (kept r (window_of (replies rs) n)))
         ((replies rs)\<lparr>live := trimmed_live r (window_of (replies rs) n) (live (replies rs))\<rparr>)"
      "app rs1 = app rs" "sends rs1 = sends rs" "counting rs1 = 0" "procs rs1 = procs rs" "srv_nonce rs1 = srv_nonce rs"
      "heap rs1 c = Some o1" "\<not> cn_dead o1" "3 \<le> cn_refno o1" by blast
  let ?b = "length (sends rs)"
  from assms(1) have inv: "reply_inv (replies rs)" and lv: "\<forall>b. live (replies rs) b \<longrightarrow> b < ?b" by (simp_all add: server_calm_def)
  note new = new_request [OF inv assms(2) refl assms(4), THEN conjunct1, folded 1(2)]
  from check_inv [OF inv assms(4) new] have inv1: "reply_inv (replies rs1)" .
  have free: "\<not> live (replies rs1) ?b" using lv by (auto simp: 1(2) trimmed_live_def)
  from ends_new [where f = f and u = u and h = h and n = n, OF inv1 1(5) free 1(8-10) _ assms(13,14,7,3)] assms(12) [OF u(2)] 1(3)
  obtain rs2 m where 2: "dispatch_end ?b \<lparr>jb_conn = c, jb_header = h, jb_args = u, jb_handler = f\<rparr> rs1 = Inr rs2"
    "sent m (enc_reply_header \<lparr>rp_xid = x, rp_ret = ret\<rparr>) out" "sends rs2 = sends rs @ [(c, written m)]" "app rs2 = s'"
    "replies rs2 = add_reply n x (Some ?b) (mind m) ((replies rs1)\<lparr>live := (live (replies rs1))(?b := True)\<rparr>)"
    "counting rs2 = 0" "procs rs2 = procs rs" "srv_nonce rs2 = srv_nonce rs" "bufs rs2 ?b = written m" using 1(4,6,7) assms(8) by auto
  have "serve_on c msg rs = Inr (Some (arriving (written m)), rs2)" using 1(1) 2(1,3) by (simp add: serve_on_def)
  moreover have "reply_inv (replies rs2)" unfolding 2(5) by (rule record_inv [OF inv1 free])
  then have "server_calm rs2"
    using 2(3,6) lv by (auto simp: server_calm_def 2(5) add_reply_def 1(2) trimmed_live_def less_Suc_eq)
  moreover have "seen_below n (x + 1) rs2"
  proof -
    have "y < x \<Longrightarrow> y < x + 1" for y using assms(5) by (rule order.strict_trans [rotated])
    moreover have "rt_xid e \<in> insert x (rt_xid ` set (window_of (replies rs) n))" if "e \<in> set (window_of (replies rs2) n)" for e
    proof -
      have "xids (window_of (replies rs2) n) = xids (window_ref x (kept r (window_of (replies rs) n)))"
        by (simp add: 2(5) add_reply_def 1(2))
      then have "rt_xid ` set (window_of (replies rs2) n) = rt_xid ` set (window_ref x (kept r (window_of (replies rs) n)))"
        by (metis xids_simps(4))
      with that have "rt_xid e \<in> rt_xid ` set (window_ref x (kept r (window_of (replies rs) n)))" by blast
      then show ?thesis by (auto simp: window_ref_set kept_simps split: if_splits)
    qed
    ultimately show ?thesis using assms(2,5) by (fastforce simp: seen_below_def)
  qed
  moreover have "others_kept n rs rs2" using 2(7,8) by (simp add: others_kept_def 2(5) add_reply_def 1(2))
  moreover have "on_record n x r ?b m rs2"
    using recheck_done [OF inv assms(4) new _ 2(5)] lv check_ok [OF \<open>reply_inv (replies rs2)\<close> assms(4), of n] 2(9)
    by (auto simp: on_record_def)
  ultimately show ?thesis using 2(2,4) by blast
qed

text \<open>The same bytes again are answered from the record.\<close>

lemma serves_again:
  assumes "server_calm rs" "seen_below n y rs" "n \<noteq> 0" "r < x" "sent msg (enc_req_header h) args" "on_record n x r b m rs"
    and "rq_clt_nonce h = n" "rq_xid h = x" "rq_xid_rep h = r" "rq_srv_nonce h = 0 \<or> rq_srv_nonce h = srv_nonce rs" "procs rs (rq_proc h) = Some f"
  shows "\<exists>rs2. serve_on c msg rs = Inr (Some (arriving (written m)), rs2) \<and>
     server_calm rs2 \<and> seen_below n y rs2 \<and> app rs2 = app rs \<and> others_kept n rs rs2 \<and> on_record n x r b m rs2"
proof -
  let ?pdu = "arriving (written msg)" and ?w = "window_of (replies rs) n"
  from carries_request [OF sent_carries(1) [OF assms(5)], of "\<lambda>_. 0"] obtain u where
    u: "unpack_req_header (unmarshall_of ?pdu) = (h, u)" "uok u" by (auto simp: arriving_def at_body_def)
  from assms(1) have inv: "reply_inv (replies rs)" and lv: "\<forall>b. live (replies rs) b \<longrightarrow> b < length (sends rs)" and cnt: "counting rs = 0"
    by (simp_all add: server_calm_def)
  from assms(6) have ans: "answer_ref x (kept r ?w) = (DONE, Some (Some b, mind m))" "bufs rs b = written m" by (simp_all add: on_record_def)
  then have w: "window_ref x (kept r ?w) = kept r ?w" by (simp add: window_ref_def)
  obtain st where st: "find_window n (replies rs) = Inr st"
    by (cases "reply_window (replies rs) n") (auto simp: find_window_def window_of_def)
  from note_conn_steady [of "rs\<lparr>heap := steady, replies := st\<rparr>" c n] obtain rs1 o1 where
    1: "note_conn c n (rs\<lparr>heap := steady, replies := st\<rparr>) = Inr rs1" "same_core (rs\<lparr>heap := steady, replies := st\<rparr>) rs1"
      "sends rs1 = sends rs" "counting rs1 = counting rs" "heap rs1 c = Some o1" "\<not> cn_dead o1" "3 \<le> cn_refno o1" by auto
  let ?st2 = "set_window n (kept r ?w) ((replies rs)\<lparr>live := trimmed_live r ?w (live (replies rs))\<rparr>)"
  from check_ok [OF inv assms(4), of n] ans w have chk0: "checkduplicate_and_update n x r (replies rs) = Inr ((DONE, Some (Some b, mind m)), ?st2)" by simp
  with check_after_find [OF st, of x r] 1(2)
  have chk: "checkduplicate_and_update n x r (replies rs1) = Inr ((DONE, Some (Some b, mind m)), ?st2)" by (simp add: same_core_def)
  from check_inv [OF inv assms(4) chk0] have inv2: "reply_inv ?st2" .
  from ans(1) obtain e where e: "e \<in> set (kept r ?w)" "rt_buf e = Some b"
    by (auto simp: answer_ref_def dest!: lookup_reply_iff(2) split: option.splits if_splits)
  with reply_invD(3) [OF inv2, of e n b] have lb: "live ?st2 b" by simp
  then have lb': "trimmed_live r ?w (live (replies rs)) b" by simp
  have "take (mind m) (written m) = written m" by (simp add: written_def split: option.split)
  then have "\<exists>rs2. dispatch_begin c ?pdu (rs\<lparr>heap := steady\<rparr>) = Inr (None, rs2) \<and> replies rs2 = ?st2 \<and> app rs2 = app rs \<and>
      sends rs2 = sends rs @ [(c, written m)] \<and> counting rs2 = 0 \<and> procs rs2 = procs rs \<and> srv_nonce rs2 = srv_nonce rs \<and> bufs rs2 = bufs rs"
    using u st 1 chk assms(3,7-11) ans(2) lb' cnt
    by (simp add: dispatch_begin_def same_core_def answer_duplicate_def on_heap_def decref_def send_on_def Let_def) blast
  then obtain rs2 where 2: "dispatch_begin c ?pdu (rs\<lparr>heap := steady\<rparr>) = Inr (None, rs2)" "replies rs2 = ?st2" "app rs2 = app rs"
      "sends rs2 = sends rs @ [(c, written m)]" "counting rs2 = 0" "procs rs2 = procs rs" "srv_nonce rs2 = srv_nonce rs" "bufs rs2 = bufs rs" by blast
  have "serve_on c msg rs = Inr (Some (arriving (written m)), rs2)" using 2(1,4) by (simp add: serve_on_def)
  moreover have "server_calm rs2" using inv2 lv 2(4,5) by (auto simp: server_calm_def 2(2) trimmed_live_def less_Suc_eq)
  moreover have "seen_below n y rs2" using assms(2) by (auto simp: seen_below_def 2(2) kept_simps)
  moreover have "others_kept n rs rs2" using 2(6,7) by (simp add: others_kept_def 2(2))
  moreover have "kept r (kept r ?w) = kept r ?w" by (simp add: kept_def)
  then have "on_record n x r b m rs2" using ans 2(8) by (simp add: on_record_def 2(2))
  ultimately show ?thesis using 2(3) by blast
qed

lemma attempts_again:
  assumes "n \<noteq> 0" "r < x" "sent msg (enc_req_header h) args"
    and "rq_clt_nonce h = n" "rq_xid h = x" "rq_xid_rep h = r"
  shows "server_calm rs \<Longrightarrow> seen_below n y rs \<Longrightarrow> on_record n x r b m rs \<Longrightarrow> rq_srv_nonce h = 0 \<or> rq_srv_nonce h = srv_nonce rs \<Longrightarrow>
     procs rs (rq_proc h) = Some f \<Longrightarrow>
     \<exists>rs2. attempts fs c msg rs = Inr (Some (arriving (written m)), rs2) \<and>
       server_calm rs2 \<and> seen_below n y rs2 \<and> app rs2 = app rs \<and> others_kept n rs rs2"
proof (induction fs arbitrary: rs)
  case Nil
  from serves_again [where f = f and c = c, OF Nil(1,2) assms(1-3) Nil(3) assms(4-6) Nil(4,5)] show ?case by auto
next
  case (Cons fate fs)
  show ?case
  proof (cases fate)
    case Request_lost
    with Cons show ?thesis by simp
  next
    case (Reply_lost d)
    from serves_again [where f = f and c = d, OF Cons(2,3) assms(1-3) Cons(4) assms(4-6) Cons(5,6)] obtain rs1 where
      1: "serve_on d msg rs = Inr (Some (arriving (written m)), rs1)" "server_calm rs1" "seen_below n y rs1" "app rs1 = app rs"
        "others_kept n rs rs1" "on_record n x r b m rs1" by blast
    with Cons(5,6) have "rq_srv_nonce h = 0 \<or> rq_srv_nonce h = srv_nonce rs1" "procs rs1 (rq_proc h) = Some f"
      by (simp_all add: others_kept_def)
    from Cons.IH [OF 1(2,3,6) this] obtain rs2 where "attempts fs c msg rs1 = Inr (Some (arriving (written m)), rs2)"
      "server_calm rs2" "seen_below n y rs2" "app rs2 = app rs1" "others_kept n rs1 rs2" by blast
    with 1 Reply_lost others_kept_trans show ?thesis by fastforce
  qed
qed

lemma attempts_serve:
  assumes "server_calm rs" "seen_below n x rs" "n \<noteq> 0" "r < x" "x < x + 1" "sent msg (enc_req_header h) args"
    and "rq_clt_nonce h = n" "rq_xid h = x" "rq_xid_rep h = r" "rq_srv_nonce h = 0 \<or> rq_srv_nonce h = srv_nonce rs" "procs rs (rq_proc h) = Some f"
    and "\<And>u. at_body u args \<Longrightarrow> f (app rs) u marshall_new = Inr (s', ret, rep)" "body rep out" "0 \<le>s ret \<or> ret = unmarshal_args_failure"
  shows "\<exists>pdu rs2. attempts fs c msg rs = Inr (Some pdu, rs2) \<and> reply_of pdu = Some \<lparr>rp_xid = x, rp_ret = ret\<rparr> \<and> at_body (reply_un pdu) out \<and>
     server_calm rs2 \<and> seen_below n (x + 1) rs2 \<and> app rs2 = s' \<and> others_kept n rs rs2"
proof (induction fs)
  case Nil
  from serves [where f = f and c = c, OF assms] obtain b m rs2 where
    "serve_on c msg rs = Inr (Some (arriving (written m)), rs2)" "sent m (enc_reply_header \<lparr>rp_xid = x, rp_ret = ret\<rparr>) out"
    "server_calm rs2" "seen_below n (x + 1) rs2" "app rs2 = s'" "others_kept n rs rs2" by blast
  with carries_reply [OF sent_carries(1) [OF this(2)], of "\<lambda>_. 0"] show ?case by (auto simp: arriving_def)
next
  case (Cons fate fs)
  show ?case
  proof (cases fate)
    case Request_lost
    with Cons show ?thesis by simp
  next
    case (Reply_lost d)
    from serves [where f = f and c = d, OF assms] obtain b m rs1 where
      1: "serve_on d msg rs = Inr (Some (arriving (written m)), rs1)" "sent m (enc_reply_header \<lparr>rp_xid = x, rp_ret = ret\<rparr>) out"
      "server_calm rs1" "seen_below n (x + 1) rs1" "app rs1 = s'" "others_kept n rs rs1" "on_record n x r b m rs1" by blast
    with assms(10,11) have "rq_srv_nonce h = 0 \<or> rq_srv_nonce h = srv_nonce rs1" "procs rs1 (rq_proc h) = Some f"
      by (simp_all add: others_kept_def)
    from attempts_again [OF assms(3,4,6-9) 1(3,4,7) this, of fs c] obtain rs2 where
      2: "attempts fs c msg rs1 = Inr (Some (arriving (written m)), rs2)" "server_calm rs2" "seen_below n (x + 1) rs2" "app rs2 = app rs1"
        "others_kept n rs1 rs2" by blast
    from carries_reply [OF sent_carries(1) [OF 1(2)], of "\<lambda>_. 0"] 2 1(1,5) Reply_lost others_kept_trans [OF 1(6) 2(5)] show ?thesis
      by (auto simp: arriving_def)
  qed
qed

section \<open>Calls\<close>

text \<open>A client and its server between two calls: the client's next number is \<open>x\<close>, and below \<open>2^32 - k\<close>.\<close>

definition linked :: "u32 \<Rightarrow> u32 \<Rightarrow> nat \<Rightarrow> 's rpcs \<Rightarrow> rpcc \<Rightarrow> bool" where
  "linked n x k rs cl \<longleftrightarrow> cl_nonce cl = n \<and> n \<noteq> 0 \<and> client_calm x cl \<and> server_calm rs \<and> seen_below n x rs \<and> 0 < x \<and> unat x + k < 2 ^ 32"

lemma linked_number: "linked n x (Suc k) rs cl \<Longrightarrow> x - 1 < x \<and> x < x + 1 \<and> 0 < x + 1 \<and> unat (x + 1) = unat x + 1"
proof -
  assume "linked n x (Suc k) rs cl"
  then have x: "0 < x" "unat x + 1 < 2 ^ 32" by (simp_all add: linked_def)
  from x(2) have u: "unat (x + 1) = unat x + 1" by (simp add: unat_word_ariths)
  then have "x < x + 1" "0 < x + 1" by (simp_all add: word_less_nat_alt)
  moreover have "x - 1 < x" using x(1) by uint_arith
  ultimately show ?thesis using u by simp
qed

lemma linked_after:
  assumes "linked n x (Suc k) rs cl" "server_calm rs2" "seen_below n (x + 1) rs2"
  shows "linked n (x + 1) k rs2 (after_call cl)"
  using assms linked_number [OF assms(1)] by (auto simp: linked_def after_call_calm) (simp add: after_call_def)

lemma may_call_header:
  assumes "linked n x (Suc k) rs cl" "may_call p cl" "body m args"
  shows "\<exists>msg. call_begin 0 p m unmarshall_empty cl = Inr (Inr msg, in_call cl) \<and> sent msg (enc_req_header (next_header p cl)) args"
proof -
  from pack_req_header_sent [OF assms(3), of "next_header p cl"] obtain msg where
    "pack_req_header (next_header p cl) m = Inr msg" "sent msg (enc_req_header (next_header p cl)) args" by blast
  with call_begins [of x cl p m msg] assms(1,2) show ?thesis by (auto simp: linked_def)
qed

text \<open>The server answers.\<close>

lemma call_served:
  assumes "linked n x (Suc k) rs cl" "may_call p cl" "body m args" "cl_srv_nonce cl = 0 \<or> cl_srv_nonce cl = srv_nonce rs" "procs rs p = Some f"
    and "\<And>u. at_body u args \<Longrightarrow> f (app rs) u marshall_new = Inr (s', ret, rep)" "body rep out" "0 \<le>s ret \<or> ret = unmarshal_args_failure"
  shows "\<exists>un rs2. call_over c p (Inr m) (Some rs, cl) = Inr (ret, un, Some rs2, after_call cl) \<and> at_body un out \<and>
     linked n (x + 1) k rs2 (after_call cl) \<and> app rs2 = s' \<and> others_kept n rs rs2"
proof -
  note num = linked_number [OF assms(1)]
  from may_call_header [OF assms(1-3)] obtain msg where
    m: "call_begin 0 p m unmarshall_empty cl = Inr (Inr msg, in_call cl)" "sent msg (enc_req_header (next_header p cl)) args" by blast
  from assms(1) have l: "cl_nonce cl = n" "n \<noteq> 0" "client_calm x cl" "server_calm rs" "seen_below n x rs" "0 < x" by (simp_all add: linked_def)
  then have h: "rq_clt_nonce (next_header p cl) = n" "rq_xid (next_header p cl) = x" "rq_xid_rep (next_header p cl) = x - 1"
    "rq_srv_nonce (next_header p cl) = 0 \<or> rq_srv_nonce (next_header p cl) = srv_nonce rs" "procs rs (rq_proc (next_header p cl)) = Some f"
    using assms(4,5) by (simp_all add: next_header_def client_calm_def)
  from attempts_serve [where f = f and c = "snd c" and fs = "fst c", OF l(4,5,2) num [THEN conjunct1] num [THEN conjunct2, THEN conjunct1] m(2) h assms(6-8)]
  obtain pdu rs2 where 2: "attempts (fst c) (snd c) msg rs = Inr (Some pdu, rs2)" "reply_of pdu = Some \<lparr>rp_xid = x, rp_ret = ret\<rparr>" "at_body (reply_un pdu) out"
      "server_calm rs2" "seen_below n (x + 1) rs2" "app rs2 = s'" "others_kept n rs rs2" by blast
  from call_answered [OF l(3,6) 2(2,3)] obtain cl1 un s where
    3: "got_reply pdu (in_call cl) = Inr cl1" "call_end 0 None cl1 = Inr (ret, un, s, after_call cl)" "at_body un out" by blast
  from m(1) 2(1) 3(1,2) have "call_over c p (Inr m) (Some rs, cl) = Inr (ret, un, Some rs2, after_call cl)" by (simp add: call_over_def)
  with 2 3(3) linked_after [OF assms(1) 2(4,5)] show ?thesis by blast
qed

text \<open>The server is another one than the client is bound to.\<close>

lemma old_server_answers:
  assumes "sent msg (enc_req_header h) args" "rq_srv_nonce h \<noteq> 0" "rq_srv_nonce h \<noteq> srv_nonce rs"
  shows "\<exists>pdu rs2. serve_on c msg rs = Inr (Some pdu, rs2) \<and> reply_of pdu = Some \<lparr>rp_xid = rq_xid h, rp_ret = oldsrv_failure\<rparr> \<and>
     at_body (reply_un pdu) [] \<and> same_core rs rs2 \<and> counting rs2 = counting rs \<and> length (sends rs) \<le> length (sends rs2)"
proof -
  from carries_request [OF sent_carries(1) [OF assms(1)], of "\<lambda>_. 0"] obtain u where
    u: "unpack_req_header (unmarshall_of (arriving (written msg))) = (h, u)" "uok u" by (auto simp: arriving_def at_body_def)
  from pack_reply_header_sent [OF body_new, of "\<lparr>rp_xid = rq_xid h, rp_ret = oldsrv_failure\<rparr>"] obtain m where
    m: "error_reply (rq_xid h) oldsrv_failure = Inr m" "sent m (enc_reply_header \<lparr>rp_xid = rq_xid h, rp_ret = oldsrv_failure\<rparr>) []"
    by (auto simp: error_reply_def)
  have "serve_on c msg rs = Inr (Some (arriving (written m)), rs\<lparr>heap := steady, sends := sends rs @ [(c, written m)]\<rparr>)"
    using u assms(2,3) m(1) by (simp add: serve_on_def dispatch_begin_def send_on_def)
  with carries_reply [OF sent_carries(1) [OF m(2)], of "\<lambda>_. 0"] show ?thesis by (simp add: arriving_def same_core_def)
qed

lemma old_server_attempts:
  assumes "sent msg (enc_req_header h) args" "rq_srv_nonce h \<noteq> 0"
  shows "rq_srv_nonce h \<noteq> srv_nonce rs \<Longrightarrow> \<exists>pdu rs2. attempts fs c msg rs = Inr (Some pdu, rs2) \<and>
     reply_of pdu = Some \<lparr>rp_xid = rq_xid h, rp_ret = oldsrv_failure\<rparr> \<and> at_body (reply_un pdu) [] \<and>
     same_core rs rs2 \<and> counting rs2 = counting rs \<and> length (sends rs) \<le> length (sends rs2)"
proof (induction fs arbitrary: rs)
  case Nil
  from old_server_answers [OF assms Nil] show ?case by simp
next
  case (Cons fate fs)
  show ?case
  proof (cases fate)
    case Request_lost
    with Cons show ?thesis by simp
  next
    case (Reply_lost d)
    from old_server_answers [OF assms Cons(2), of d] obtain pdu rs1 where 1: "serve_on d msg rs = Inr (Some pdu, rs1)" "same_core rs rs1"
      "counting rs1 = counting rs" "length (sends rs) \<le> length (sends rs1)" by blast
    with Cons(2) have "rq_srv_nonce h \<noteq> srv_nonce rs1" by (simp add: same_core_def)
    from Cons.IH [OF this] 1 Reply_lost show ?thesis by (fastforce simp: same_core_def)
  qed
qed

lemma call_to_old_server:
  assumes "linked n x (Suc k) rs cl" "may_call p cl" "body m args" "cl_srv_nonce cl \<noteq> 0" "cl_srv_nonce cl \<noteq> srv_nonce rs"
  shows "\<exists>un rs2. call_over c p (Inr m) (Some rs, cl) = Inr (oldsrv_failure, un, Some rs2, after_call cl) \<and>
     server_calm rs2 \<and> same_core rs rs2"
proof -
  from may_call_header [OF assms(1-3)] obtain msg where
    m: "call_begin 0 p m unmarshall_empty cl = Inr (Inr msg, in_call cl)" "sent msg (enc_req_header (next_header p cl)) args" by blast
  from assms(1) have l: "client_calm x cl" "server_calm rs" "0 < x" by (simp_all add: linked_def)
  have h: "rq_srv_nonce (next_header p cl) \<noteq> 0" "rq_srv_nonce (next_header p cl) \<noteq> srv_nonce rs" "rq_xid (next_header p cl) = x"
    using assms(4,5) l(1) by (simp_all add: next_header_def client_calm_def)
  from old_server_attempts [OF m(2) h(1,2), of "fst c" "snd c"] h(3) obtain pdu rs2 where
    2: "attempts (fst c) (snd c) msg rs = Inr (Some pdu, rs2)" "reply_of pdu = Some \<lparr>rp_xid = x, rp_ret = oldsrv_failure\<rparr>" "at_body (reply_un pdu) []"
      "same_core rs rs2" "counting rs2 = counting rs" "length (sends rs) \<le> length (sends rs2)" by auto
  from call_answered [OF l(1,3) 2(2,3)] obtain cl1 un s where
    3: "got_reply pdu (in_call cl) = Inr cl1" "call_end 0 None cl1 = Inr (oldsrv_failure, un, s, after_call cl)" by blast
  have "server_calm rs2" using l(2) 2(4-6) by (auto simp: server_calm_def same_core_def dest: less_le_trans)
  with m(1) 2(1,4) 3 show ?thesis by (simp add: call_over_def)
qed

text \<open>There is no server.\<close>

lemma call_to_nobody:
  assumes "client_calm x cl" "0 < x" "may_call p cl" "body m args"
  shows "call_over c p (Inr m) (None, cl) = Inr (timeout_failure, unmarshall_empty, None, after_call cl)"
proof -
  from pack_req_header_sent [OF assms(4), of "next_header p cl"] obtain msg where "pack_req_header (next_header p cl) m = Inr msg" by blast
  from call_begins [OF assms(1,3) this] call_unanswered [OF assms(1,2)] show ?thesis by (simp add: call_over_def)
qed

section \<open>bind\<close>

lemma bind_request: "\<exists>req. bind_req = Inr req \<and> body req (enc_u32 0)"
  using puts_new [OF int_codec.put_enc, of 0] by (simp add: bind_req_def call_req1_def int_max_def)

lemma bind_handler_runs:
  assumes "at_body u (enc_u32 a)" "put_int nonce marshall_new = Inr rep"
  shows "bind_handler nonce s u marshall_new = Inr (s, 0, rep)"
  using h1_run_hit [OF assms(1) gets_int, of put_int "\<lambda>a s. Inr (s, rpcbind a nonce)" s marshall_new] assms(2)
  by (simp add: bind_handler_def h1_fn1_def rpcbind_def int_max_def)

definition bound :: "u32 \<Rightarrow> rpcc \<Rightarrow> rpcc" where
  "bound nonce cl = (after_call cl)\<lparr>bind_done := True, cl_srv_nonce := nonce\<rparr>"

lemma bind_succeeds:
  assumes "linked n x (Suc k) rs cl" "\<not> bind_done cl" "cl_srv_nonce cl = 0" "procs rs rpc_bind = Some (bind_handler (srv_nonce rs))"
  shows "\<exists>rs2. bind_over c (Some rs, cl) = Inr (0, Some rs2, bound (srv_nonce rs) cl) \<and> linked n (x + 1) k rs2 (bound (srv_nonce rs) cl) \<and>
     app rs2 = app rs \<and> others_kept n rs rs2"
proof -
  from bind_request obtain req where req: "bind_req = Inr req" "body req (enc_u32 0)" by blast
  from puts_new [OF int_codec.put_enc, of "srv_nonce rs"] obtain rep where
    rep: "put_int (srv_nonce rs) marshall_new = Inr rep" "body rep (enc_u32 (srv_nonce rs))" by (auto simp: int_max_def)
  have may: "may_call rpc_bind cl" using assms(2) by (simp add: may_call_def)
  from call_served [where f = "bind_handler (srv_nonce rs)" and c = c, OF assms(1) may req(2) _ assms(4) bind_handler_runs [where a = 0, OF _ rep(1)] rep(2)] assms(3)
  obtain un rs2 where
    1: "call_over c rpc_bind (Inr req) (Some rs, cl) = Inr (0, un, Some rs2, after_call cl)" "at_body un (enc_u32 (srv_nonce rs))"
      "linked n (x + 1) k rs2 (after_call cl)" "app rs2 = app rs" "others_kept n rs rs2" by auto
  from reply_read [OF int_codec.codec_axioms _ _ rep 1(2), of 0 0] have "call_m get_int 0 un 0 = Inr (0, srv_nonce rs)"
    by (simp add: int_max_def)
  with 1 req(1) have "bind_over c (Some rs, cl) = Inr (0, Some rs2, bound (srv_nonce rs) cl)"
    by (simp add: bind_over_def bind_end_def bound_def)
  moreover have "linked n (x + 1) k rs2 (bound (srv_nonce rs) cl)" using 1(3) by (simp add: linked_def client_calm_def bound_def)
  ultimately show ?thesis using 1(4,5) by blast
qed

lemma bind_to_nobody:
  assumes "client_calm x cl" "0 < x" "\<not> bind_done cl"
  shows "bind_over c (None :: 's rpcs option, cl) = Inr (timeout_failure, None, after_call cl)"
proof -
  from bind_request obtain req where req: "bind_req = Inr req" "body req (enc_u32 0)" by blast
  from call_to_nobody [OF assms(1,2) _ req(2), of rpc_bind c] assms(3)
  have "call_over c rpc_bind bind_req (None :: 's rpcs option, cl) = Inr (timeout_failure, unmarshall_empty, None, after_call cl)"
    unfolding req(1) by (simp add: may_call_def)
  then show ?thesis by (simp add: bind_over_def call_m_def timeout_failure_def bind_end_def word_sless_alt)
qed

lemma bind_twice:
  assumes "bind_done cl"
  shows "bind_over c (srv, cl) = Inr (bind_failure, srv, cl)"
proof -
  from bind_request obtain req where req: "bind_req = Inr req" by blast
  have "call_over c rpc_bind bind_req (srv, cl) = Inr (bind_failure, unmarshall_empty, srv, cl)"
    unfolding req using call_refused [where w = "(srv, cl)" and p = rpc_bind] assms by (simp add: may_call_def)
  then show ?thesis by (simp add: bind_over_def call_m_def bind_failure_def bind_end_def word_sless_alt)
qed

section \<open>A remote object\<close>

text \<open>
  \<open>meth\<close> says what the procedures do to the object and answer, as bytes; \<open>direct\<close> calls them
  one after the other, \<open>calls_over\<close> does so through the two endpoints.
\<close>

type_synonym 's direct_fn = "u32 \<Rightarrow> u8 list \<Rightarrow> 's \<Rightarrow> ('s \<times> i32 \<times> u8 list) option"

definition implements :: "(u32 \<Rightarrow> 's handler option) \<Rightarrow> 's direct_fn \<Rightarrow> bool" where
  "implements ps meth \<longleftrightarrow> (\<forall>p args s s' ret out. meth p args s = Some (s', ret, out) \<longrightarrow>
     p \<noteq> rpc_bind \<and> (0 \<le>s ret \<or> ret = unmarshal_args_failure) \<and>
     (\<exists>f rep. ps p = Some f \<and> body rep out \<and> (\<forall>u. at_body u args \<longrightarrow> f s u marshall_new = Inr (s', ret, rep))))"

fun direct :: "'s direct_fn \<Rightarrow> (u32 \<times> u8 list) list \<Rightarrow> 's \<Rightarrow> ((i32 \<times> u8 list) list \<times> 's) option" where
  "direct meth [] s = Some ([], s)"
| "direct meth ((p, args) # qs) s =
     (case meth p args s of
        None \<Rightarrow> None
      | Some (s, ret, out) \<Rightarrow> map_option (\<lambda>(as, s). ((ret, out) # as, s)) (direct meth qs s))"

fun calls_over :: "(way \<times> u32 \<times> marshall) list \<Rightarrow> 's rpcs option \<times> rpcc \<Rightarrow> ((i32 \<times> unmarshall) list \<times> 's rpcs option \<times> rpcc) outcome" where
  "calls_over [] w = Inr ([], w)"
| "calls_over ((c, p, m) # qs) w =
     andthen (call_over c p (Inr m) w) (\<lambda>(ret, un, w).
     andthen (calls_over qs w) (\<lambda>(as, w). Inr ((ret, un) # as, w)))"

lemma calls_follow:
  assumes "implements ps meth"
  shows "list_all2 (\<lambda>(c, p, m) (q, args). p = q \<and> body m args) reqs qs \<Longrightarrow> direct meth qs (app rs) = Some (as, s') \<Longrightarrow>
     linked n x (k + length qs) rs cl \<Longrightarrow> bind_done cl \<Longrightarrow> cl_srv_nonce cl = srv_nonce rs \<Longrightarrow> procs rs = ps \<Longrightarrow>
     \<exists>bs rs' cl' y. calls_over reqs (Some rs, cl) = Inr (bs, Some rs', cl') \<and> app rs' = s' \<and> linked n y k rs' cl' \<and>
       list_all2 (\<lambda>(ret, un) (ret', out). ret = ret' \<and> at_body un out) bs as"
proof (induction qs arbitrary: reqs rs cl x as)
  case Nil
  then show ?case by auto
next
  case (Cons q qs)
  obtain p args where q: "q = (p, args)" by (cases q)
  with Cons.prems(1) obtain c m rest where r: "reqs = (c, p, m) # rest" "body m args" "list_all2 (\<lambda>(c, p, m) (q, args). p = q \<and> body m args) rest qs"
    by (auto simp: list_all2_Cons2)
  from Cons.prems(2) q obtain s1 ret out as' where d: "meth p args (app rs) = Some (s1, ret, out)" "direct meth qs s1 = Some (as', s')" "as = (ret, out) # as'"
    by (auto split: option.splits)
  from assms d(1) obtain f rep where f: "p \<noteq> rpc_bind" "0 \<le>s ret \<or> ret = unmarshal_args_failure" "ps p = Some f" "body rep out"
    "\<And>u. at_body u args \<Longrightarrow> f (app rs) u marshall_new = Inr (s1, ret, rep)" unfolding implements_def by blast
  have "linked n x (Suc (k + length qs)) rs cl" using Cons.prems(3) by simp
  from call_served [where f = f and c = c and p = p, OF this _ r(2) _ _ f(5,4,2)] f(1,3) Cons.prems(4-6) obtain un rs2 where
    1: "call_over c p (Inr m) (Some rs, cl) = Inr (ret, un, Some rs2, after_call cl)" "at_body un out" "linked n (x + 1) (k + length qs) rs2 (after_call cl)"
      "app rs2 = s1" "procs rs2 = procs rs" "srv_nonce rs2 = srv_nonce rs" by (auto simp: may_call_def others_kept_def)
  from Cons.IH [OF r(3) _ 1(3)] d(2) 1(4-6) Cons.prems(4-6) obtain bs rs' cl' y where
    "calls_over rest (Some rs2, after_call cl) = Inr (bs, Some rs', cl')" "app rs' = s'" "linked n y k rs' cl'"
    "list_all2 (\<lambda>(ret, un) (ret', out). ret = ret' \<and> at_body un out) bs as'" by (auto simp: after_call_def)
  with 1(1,2) r(1) d(3) show ?case by auto
qed

section \<open>Properties\<close>


definition count_procs :: "u32 \<Rightarrow> i32 \<Rightarrow> nat handler option" where
  "count_procs nonce = (\<lambda>_. None)(rpc_bind \<mapsto> bind_handler nonce, 7 \<mapsto> h1_fn1 get_int put_int (\<lambda>a s. Inr (s + 1, 0, of_nat s + a)))"

definition count_meth :: "nat direct_fn" where
  "count_meth p args s = (if p = 7 \<and> args = enc_u32 3 then Some (s + 1, 0, enc_u32 (of_nat s + 3)) else None)"

lemma count_implements: "implements (count_procs nonce) count_meth"
proof -
  have "\<exists>rep. body rep (enc_u32 (of_nat s + 3)) \<and> (\<forall>u. at_body u (enc_u32 3) \<longrightarrow>
     h1_fn1 get_int put_int (\<lambda>a s. Inr (s + 1, 0, of_nat s + a)) s u marshall_new = Inr (s + 1, 0, rep))" for s :: nat
  proof -
    from puts_new [OF int_codec.put_enc, of "of_nat s + 3"] obtain rep where
      rep: "put_int (of_nat s + 3) marshall_new = Inr rep" "body rep (enc_u32 (of_nat s + 3))" by (auto simp: int_max_def)
    with h1_run_hit [OF _ gets_int, of _ 3 put_int "\<lambda>a s. Inr (s + 1, 0, of_nat s + a)" s marshall_new] show ?thesis
      by (auto simp: h1_fn1_def int_max_def)
  qed
  then show ?thesis by (auto simp: implements_def count_meth_def count_procs_def rpc_bind_def split: if_splits)
qed


end
