(* ===== verification/RpcTest.thy ===== *)
theory RpcTest
  imports Session
begin

text \<open>
  The program \<open>rpc/rpctest.cc\<close>: \<open>startserver\<close>, the tests and \<open>main\<close>. The tests are written over a
  call function and its contract; \<open>main\<close> runs them on the endpoints of \<open>Session\<close>.
\<close>

section \<open>A call and its contract\<close>

text \<open>
  A call sends a request to a procedure and comes back with a code, the bytes of the reply
  and the new state of the world. A call that works is one run of the handler on the bytes
  of the request; \<open>ready k\<close> says that \<open>k\<close> more calls will work.
\<close>

type_synonym 'w caller_fn = "u32 \<Rightarrow> marshall outcome \<Rightarrow> 'w \<Rightarrow> (i32 \<times> unmarshall \<times> 'w) outcome"

definition typed :: "'r getter \<Rightarrow> 'r \<Rightarrow> (i32 \<times> unmarshall \<times> 'w) outcome \<Rightarrow> (i32 \<times> 'r \<times> 'w) outcome" where
  "typed g r0 res = andthen res (\<lambda>(ret, un, w). andthen (call_m g ret un r0) (\<lambda>(ret, r). Inr (ret, r, w)))"

definition answers :: "(nat \<Rightarrow> 'w \<Rightarrow> bool) \<Rightarrow> i32 \<Rightarrow> 'r \<Rightarrow> ('w \<Rightarrow> (i32 \<times> 'r \<times> 'w) outcome) \<Rightarrow> bool" where
  "answers ready ret r f \<longleftrightarrow> (\<forall>k w. ready (Suc k) w \<longrightarrow> (\<exists>w'. f w = Inr (ret, r, w') \<and> ready k w'))"

definition passes :: "(nat \<Rightarrow> 'w \<Rightarrow> bool) \<Rightarrow> nat \<Rightarrow> ('w \<Rightarrow> 'w outcome) \<Rightarrow> bool" where
  "passes ready n f \<longleftrightarrow> (\<forall>k w. ready (n + k) w \<longrightarrow> (\<exists>w'. f w = Inr w' \<and> ready k w'))"

definition check :: "bool \<Rightarrow> 'a outcome \<Rightarrow> 'a outcome" where
  "check b k = (if b then k else Inl Assert_failed)"

lemma check_True [simp]: "check True k = k"
  by (simp add: check_def)

lemma passes_done: "passes ready 0 Inr"
  by (simp add: passes_def)

lemma passes_check: "passes ready n f \<Longrightarrow> b \<Longrightarrow> passes ready n (\<lambda>w. check b (f w))"
  by simp

lemma passes_call: "answers ready ret r f \<Longrightarrow> passes ready n (g ret r) \<Longrightarrow> passes ready (Suc n) (\<lambda>w. andthen (f w) (\<lambda>(ret, r, w). g ret r w))"
  unfolding answers_def passes_def by (metis add_Suc andthen_simps(2) case_prod_conv)

lemma passesD: "passes ready n f \<Longrightarrow> ready (n + k) w \<Longrightarrow> \<exists>w'. f w = Inr w' \<and> ready k w'"
  by (simp add: passes_def)

locale rpc_service =
  fixes call :: "u32 \<Rightarrow> marshall outcome \<Rightarrow> 'w \<Rightarrow> (i32 \<times> unmarshall \<times> 'w) outcome"
    and handler :: "u32 \<Rightarrow> ('s \<Rightarrow> unmarshall \<Rightarrow> marshall \<Rightarrow> ('s \<times> i32 \<times> marshall) outcome) option"
    and object :: "'w \<Rightarrow> 's"
    and ready :: "nat \<Rightarrow> 'w \<Rightarrow> bool"
  assumes served: "ready (Suc k) w \<Longrightarrow> body m args \<Longrightarrow> handler p = Some f \<Longrightarrow>
      (\<And>u. at_body u args \<Longrightarrow> f (object w) u marshall_new = Inr (s', ret, rep)) \<Longrightarrow> body rep out \<Longrightarrow>
      0 \<le>s ret \<or> ret = unmarshal_args_failure \<Longrightarrow>
      \<exists>un w'. call p (Inr m) w = Inr (ret, un, w') \<and> at_body un out \<and> object w' = s' \<and> ready k w'"
begin

lemma typed_ok:
  assumes "ready (Suc k) w" "puts req args" "2 * (RPC_HEADER_SZ + length args) \<le> int_max" "handler p = Some f"
    and "\<And>u rep. at_body u args \<Longrightarrow> f (object w) u rep = andthen (pr r rep) (\<lambda>rep. Inr (s', ret, rep))"
    and "codec pr gr er vr" "vr r" "2 * (RPC_HEADER_SZ + length (er r)) \<le> int_max" "0 \<le>s ret"
  shows "\<exists>w'. typed gr r0 (call p (req marshall_new) w) = Inr (ret, r, w') \<and> object w' = s' \<and> ready k w'"
proof -
  from puts_new [OF assms(2,3)] obtain m where m: "req marshall_new = Inr m" "body m args" by blast
  from puts_new [OF codec.put_enc [OF assms(6,7)] assms(8)] obtain rep where rep: "pr r marshall_new = Inr rep" "body rep (er r)" by blast
  have "f (object w) u marshall_new = Inr (s', ret, rep)" if "at_body u args" for u using assms(5) [OF that] rep(1) by simp
  from served [OF assms(1) m(2) assms(4) this rep(2)] assms(9) obtain un w' where
    un: "call p (Inr m) w = Inr (ret, un, w')" "at_body un (er r)" "object w' = s'" "ready k w'" by blast
  have "RPC_HEADER_SZ + length (er r) \<le> int_max" using assms(8) by simp
  from at_body_gets [OF un(2) codec.get_enc [OF assms(6,7)] this] obtain u where "gr un = Inr (r, u)" "okdone u" by blast
  with un m(1) assms(9) show ?thesis by (simp add: typed_def call_m_def word_sle_eq word_sless_alt)
qed

lemma typed_refused:
  assumes "ready (Suc k) w" "puts req args" "2 * (RPC_HEADER_SZ + length args) \<le> int_max" "handler p = Some f"
    and "\<And>u rep. at_body u args \<Longrightarrow> f (object w) u rep = Inr (s', unmarshal_args_failure, rep)"
  shows "\<exists>w'. typed gr r0 (call p (req marshall_new) w) = Inr (unmarshal_args_failure, r0, w') \<and> object w' = s' \<and> ready k w'"
proof -
  from puts_new [OF assms(2,3)] obtain m where m: "req marshall_new = Inr m" "body m args" by blast
  from served [OF assms(1) m(2) assms(4,5) body_new] obtain un w' where
    "call p (Inr m) w = Inr (unmarshal_args_failure, un, w')" "object w' = s'" "ready k w'" by blast
  moreover have "unmarshal_args_failure <s 0" by (simp add: unmarshal_args_failure_def word_sless_alt)
  ultimately show ?thesis using m(1) by (simp add: typed_def call_m_def)
qed

end

section \<open>The server\<close>

definition startserver :: "u32 \<Rightarrow> unit rpcs outcome" where
  "startserver nonce =
     andthen (rpcs_made nonce 0 ()) (\<lambda>rs.
     andthen (reg1 22 (h1_fn2 (get_string []) (get_string []) put_string handle_22) rs) (\<lambda>rs.
     andthen (reg1 23 (h1_fn1 get_int put_int handle_fast) rs) (\<lambda>rs.
     andthen (reg1 24 (h1_fn1 get_int put_int handle_slow) rs) (\<lambda>rs.
     reg1 25 (h1_fn1 get_int put_string handle_bigrep) rs))))"

section \<open>The tests\<close>

definition call22 :: "'w caller_fn \<Rightarrow> u8 list \<Rightarrow> u8 list \<Rightarrow> u8 list \<Rightarrow> 'w \<Rightarrow> (i32 \<times> u8 list \<times> 'w) outcome" where
  "call22 call a b r0 w = typed (get_string r0) r0 (call 22 (call_req2 put_string put_string a b) w)"

definition call_int :: "'w caller_fn \<Rightarrow> u32 \<Rightarrow> i32 \<Rightarrow> i32 \<Rightarrow> 'w \<Rightarrow> (i32 \<times> i32 \<times> 'w) outcome" where
  "call_int call p a r0 w = typed get_int r0 (call p (call_req1 put_int a) w)"

definition call25 :: "'w caller_fn \<Rightarrow> i32 \<Rightarrow> u8 list \<Rightarrow> 'w \<Rightarrow> (i32 \<times> u8 list \<times> 'w) outcome" where
  "call25 call a r0 w = typed (get_string r0) r0 (call 25 (call_req1 put_int a) w)"

text \<open>The strings of the source: \<open>hello\<close>, \<open> goodbye\<close>, \<open>just one\<close>; the last test is a \<open>bind\<close> to nobody.\<close>

definition hello :: "u8 list" where "hello = [104, 101, 108, 108, 111]"

definition goodbye :: "u8 list" where "goodbye = [32, 103, 111, 111, 100, 98, 121, 101]"

definition just_one :: "u8 list" where "just_one = [106, 117, 115, 116, 32, 111, 110, 101]"

definition simple_tests :: "'w caller_fn \<Rightarrow> i32 outcome \<Rightarrow> 'w \<Rightarrow> 'w outcome" where
  "simple_tests call bind_nobody w =
     andthen (call22 call hello goodbye [] w) (\<lambda>(ret, rep, w).
     check (ret = 0) (check (rep = hello @ goodbye) (
     andthen (call25 call 70000 rep w) (\<lambda>(ret, rep, w).
     check (ret = 0) (check (length rep = 70000) (
     andthen (typed (get_string rep) rep (call 22 (call_req1 put_string just_one) w)) (\<lambda>(ret, rep, w).
     check (ret <s 0) (
     andthen (typed (get_string rep) rep (call 23 (call_req2 put_int put_int 1001 1002) w)) (\<lambda>(ret, rep, w).
     check (ret <s 0) (
     andthen (typed get_int 0 (call 23 (call_req2 put_string put_string hello goodbye) w)) (\<lambda>(ret, wrongrep, w).
     check (ret <s 0) (
     andthen (call_int call 23 77 0 w) (\<lambda>(ret, x, w).
     check (ret = 0 \<and> x = 78) (
     andthen (call22 call (replicate 1000 120) [120] [] w) (\<lambda>(_, rep2, w).
     check (length rep2 = 1001) (
     andthen (call22 call (replicate 1000000 120) [122] rep w) (\<lambda>(_, rep, w).
     check (length rep = 1000001) (
     andthen bind_nobody (\<lambda>ret. check (ret <s 0) (Inr w))))))))))))))))))))"

text \<open>One round of each loop, and a thread as the list of its rounds: the random arguments are lists.\<close>

definition bigrep_round :: "'w caller_fn \<Rightarrow> i32 \<Rightarrow> 'w \<Rightarrow> 'w outcome" where
  "bigrep_round call a w =
     andthen (call25 call a [] w) (\<lambda>(ret, rep, w). check (ret = 0) (check (int (length rep) = sint a) (Inr w)))"

definition order_round :: "'w caller_fn \<Rightarrow> bool \<times> i32 \<Rightarrow> 'w \<Rightarrow> 'w outcome" where
  "order_round call wa w =
     (let (which, a) = wa in
      andthen (call_int call (if which then 23 else 24) a 0 w) (\<lambda>(ret, rep, w).
      check (ret = 0) (check (rep = (if which then a + 1 else a + 2)) (Inr w))))"

definition client1 :: "'w caller_fn \<Rightarrow> i32 list \<Rightarrow> (bool \<times> i32) list \<Rightarrow> ('w \<Rightarrow> 'w outcome) list" where
  "client1 call sizes orders = map (bigrep_round call) sizes @ map (order_round call) orders"

definition client2 :: "'w caller_fn \<Rightarrow> i32 list \<Rightarrow> ('w \<Rightarrow> 'w outcome) list" where
  "client2 call = map (\<lambda>a w. andthen (call25 call a [] w) (\<lambda>(ret, rep, w). check (int (length rep) = sint a) (Inr w)))"

definition client3 :: "'w caller_fn \<Rightarrow> ('w \<Rightarrow> 'w outcome) list" where
  "client3 call = map (\<lambda>i w. andthen (call_int call 24 i 0 w) (\<lambda>(ret, rep, w). check (ret = timeout_failure \<or> rep = i + 2) (Inr w))) [0, 1, 2, 3]"

text \<open>
  Threads that are started and joined: a schedule says which thread makes the next round. A schedule
  that leaves a thread unfinished keeps the join waiting.
\<close>

fun threads :: "nat list \<Rightarrow> ('w \<Rightarrow> 'w outcome) list list \<Rightarrow> 'w \<Rightarrow> 'w outcome" where
  "threads [] ths w = (if list_all (\<lambda>th. th = []) ths then Inr w else Inl Not_yet)"
| "threads (t # ts) ths w =
     (if t < length ths
      then case ths ! t of [] \<Rightarrow> threads ts ths w | f # fs \<Rightarrow> andthen (f w) (threads ts (ths[t := fs]))
      else threads ts ths w)"

definition fair :: "nat list \<Rightarrow> nat list \<Rightarrow> bool" where
  "fair sched lens \<longleftrightarrow> (\<forall>t < length lens. lens ! t \<le> count_list sched t)"

lemma threads_pass:
  assumes "\<And>th f. th \<in> set ths \<Longrightarrow> f \<in> set th \<Longrightarrow> passes ready (Suc 0) f" "fair sched (map length ths)"
  shows "passes ready (sum_list (map length ths)) (threads sched ths)"
  using assms
proof (induction sched arbitrary: ths)
  case Nil
  then have "\<forall>th \<in> set ths. th = []" by (auto simp: fair_def in_set_conv_nth)
  then have l: "list_all (\<lambda>th. th = []) ths" by (simp add: list_all_iff)
  have "sum_list (map length ths) = 0" using \<open>\<forall>th \<in> set ths. th = []\<close> by simp
  from l show ?case unfolding \<open>sum_list (map length ths) = 0\<close> by (simp add: passes_def)
next
  case (Cons t ts)
  show ?case
  proof (cases "t < length ths \<and> ths ! t \<noteq> []")
    case False
    then have "fair ts (map length ths)" using Cons.prems(2) by (auto simp: fair_def split: if_splits)
    from Cons.IH [OF Cons.prems(1) this] False show ?thesis by (auto simp: passes_def split: list.split)
  next
    case True
    then obtain f fs where f: "t < length ths" "ths ! t = f # fs" by (cases "ths ! t") auto
    let ?ths = "ths[t := fs]"
    have "passes ready (Suc 0) g" if "th \<in> set ?ths" "g \<in> set th" for th g
      using that Cons.prems(1) [of th g] Cons.prems(1) [of "ths ! t" g] f set_update_subset_insert [of ths t fs] nth_mem [of t ths] by auto
    moreover have "fair ts (map length ?ths)"
      using Cons.prems(2) f by (auto simp: fair_def nth_list_update split: if_splits)
    ultimately have IH: "passes ready (sum_list (map length ?ths)) (threads ts ?ths)" by (rule Cons.IH) blast+
    have "sum_list (map length ths) = Suc (sum_list (map length ?ths))"
      using f elem_le_sum_list [of t "map length ths"] by (simp add: map_update sum_list_update)
    moreover have "passes ready (Suc 0) f" using Cons.prems(1) [of "ths ! t" f] f nth_mem [of t ths] by simp
    ultimately show ?thesis using IH f by (fastforce simp: passes_def)
  qed
qed

section \<open>What the handlers answer\<close>

lemma unat_sint: "0 \<le>s (a :: i32) \<Longrightarrow> int (unat a) = sint a"
  using sint_less [of a] by (simp add: word_sle_eq uint_sint take_bit_int_eq_self flip: of_nat_take_bit uint_nat)

lemma string_codec_from: "codec put_string (get_string s0) enc_string (\<lambda>s. length s \<le> int_max)"
  using string_codec.put_enc gets_string by unfold_locales auto

lemma wrong_arguments:
  assumes "at_body u bs" "gets g1 e1 x" "bs = e1 @ rest" "rest \<noteq> []" "RPC_HEADER_SZ + length bs \<le> int_max"
  shows "h1_fn1 g1 pr meth s u ret = Inr (s, unmarshal_args_failure, ret)"
proof -
  from at_body_prefix [of u e1 rest g1 x] assms have "g1 u = Inr (x, u\<lparr>uind := RPC_HEADER_SZ + length e1\<rparr>)" by simp
  moreover have "\<not> okdone (u\<lparr>uind := RPC_HEADER_SZ + length e1\<rparr>)" using assms(1,3,4) by (auto simp: okdone_def at_body_def)
  ultimately show ?thesis by (simp add: h1_fn1_def h1_run_not_done)
qed

lemma one_string_too_few:
  assumes "at_body u (enc_string a)" "RPC_HEADER_SZ + length (enc_string a) \<le> int_max"
  shows "h1_fn2 (get_string []) (get_string []) put_string handle_22 s u ret = Inr (s, unmarshal_args_failure, ret)"
proof -
  let ?u = "u\<lparr>uind := RPC_HEADER_SZ + length (enc_string a)\<rparr>"
  have "get_string [] u = Inr (a, ?u)"
    using at_body_prefix [of u "enc_string a" "[]" "get_string []" a] assms by (simp add: gets_string)
  moreover have "get_string [] ?u = Inr ([], ?u\<lparr>uok := False\<rparr>)"
    using assms(1) by (intro get_string_starved) (simp add: at_body_def)
  ultimately have "args2 (get_string []) (get_string []) u = Inr ((a, []), ?u\<lparr>uok := False\<rparr>)" by (simp add: args2_def)
  then show ?thesis by (simp add: h1_fn2_def h1_run_not_done okdone_def)
qed

text \<open>A call function under the contract, with the handlers of the test registered.\<close>

locale test_server = rpc_service call handler object ready
  for call :: "u32 \<Rightarrow> marshall outcome \<Rightarrow> 'w \<Rightarrow> (i32 \<times> unmarshall \<times> 'w) outcome"
    and handler and object :: "'w \<Rightarrow> unit" and ready +
  assumes h22: "handler 22 = Some (h1_fn2 (get_string []) (get_string []) put_string handle_22)"
    and h23: "handler 23 = Some (h1_fn1 get_int put_int handle_fast)"
    and h24: "handler 24 = Some (h1_fn1 get_int put_int handle_slow)"
    and h25: "handler 25 = Some (h1_fn1 get_int put_string handle_bigrep)"
begin

lemma call22_ok:
  assumes "length a + length b \<le> 500000000"
  shows "answers ready 0 (a @ b) (call22 call a b r0)"
proof -
  have len: "length a \<le> int_max" "length b \<le> int_max" "length (a @ b) \<le> int_max" using assms by (simp_all add: int_max_def)
  have p: "puts (\<lambda>m. andthen (put_string a m) (put_string b)) (enc_string a @ enc_string b)"
    by (rule puts_andthen string_codec.put_enc len)+
  have g: "gets (args2 (get_string []) (get_string [])) (enc_string a @ enc_string b @ []) (a, b)"
    unfolding args2_def [abs_def] by (rule gets_andthen [OF string_codec.get_enc] gets_return len)+
  have f: "h1_fn2 (get_string []) (get_string []) put_string handle_22 () u rep = andthen (put_string (a @ b) rep) (\<lambda>rep. Inr ((), 0, rep))"
    if "at_body u (enc_string a @ enc_string b)" for u rep
    using h1_run_hit [OF that, of "args2 (get_string []) (get_string [])" "(a, b)" put_string "\<lambda>(x, y). handle_22 x y" "()" rep] g assms
    by (simp add: h1_fn2_def handle_22_def enc_string_def int_max_def)
  from typed_ok [OF _ p _ h22 _ string_codec_from len(3), where s' = "()" and ret = 0] f assms show ?thesis
    by (auto simp: answers_def call22_def call_req2_def enc_string_def int_max_def)
qed

lemma int_handler:
  assumes "meth a () = Inr ((), 0, r)" "at_body u (enc_u32 a)"
  shows "h1_fn1 get_int pr meth () u rep = andthen (pr r rep) (\<lambda>rep. Inr ((), 0, rep))"
  using h1_run_hit [OF assms(2) gets_int, of pr meth "()" rep] assms(1) by (simp add: h1_fn1_def int_max_def)

lemma call_int_ok:
  assumes "handler p = Some (h1_fn1 get_int put_int meth)" "meth a () = Inr ((), 0, r)"
  shows "answers ready 0 r (call_int call p a r0)"
  using typed_ok [OF _ int_codec.put_enc _ assms(1) _ int_codec.codec_axioms, where s' = "()" and ret = 0]
    int_handler [where meth = meth and a = a and r = r, OF assms(2)]
  by (auto simp: answers_def call_int_def call_req1_def int_max_def)

lemma call25_ok:
  assumes "0 \<le>s a" "sint a \<le> 500000000"
  shows "answers ready 0 (replicate (unat a) 120) (call25 call a r0)"
proof -
  have u: "int (unat a) = sint a" by (rule unat_sint [OF assms(1)])
  with assms(2) have le: "unat a \<le> 500000000" by linarith
  then have len: "length (replicate (unat a) (120 :: u8)) \<le> int_max" by (simp add: int_max_def)
  have "handle_bigrep a () = Inr ((), 0, replicate (unat a) 120)" using assms(1) by (simp add: handle_bigrep_def word_sle_eq word_sless_alt)
  from typed_ok [OF _ int_codec.put_enc _ h25 _ string_codec_from len, where s' = "()" and ret = 0]
    int_handler [where meth = handle_bigrep, OF this] le show ?thesis
    by (auto simp: answers_def call25_def call_req1_def int_max_def enc_string_def)
qed

lemma refused:
  assumes "handler p = Some f" "puts req args" "length args \<le> 500000000"
    and "\<And>u rep. at_body u args \<Longrightarrow> f () u rep = Inr ((), unmarshal_args_failure, rep)"
  shows "answers ready unmarshal_args_failure r0 (\<lambda>w. typed gr r0 (call p (req marshall_new) w))"
  using typed_refused [OF _ assms(2) _ assms(1), where s' = "()"] assms(3,4)
  by (auto simp: answers_def int_max_def)

lemma too_few: "answers ready unmarshal_args_failure r0 (\<lambda>w. typed gr r0 (call 22 (call_req1 put_string just_one) w))"
proof -
  have len: "length just_one \<le> int_max" "length (enc_string just_one) = 12" by (simp_all add: just_one_def int_max_def enc_string_def)
  have f: "h1_fn2 (get_string []) (get_string []) put_string handle_22 () u rep = Inr ((), unmarshal_args_failure, rep)"
    if "at_body u (enc_string just_one)" for u rep by (rule one_string_too_few [OF that]) (simp add: just_one_def int_max_def)
  from refused [OF h22 string_codec.put_enc [OF len(1)] _ f] len show ?thesis by (simp add: call_req1_def)
qed

lemma too_many: "answers ready unmarshal_args_failure r0 (\<lambda>w. typed gr r0 (call 23 (call_req2 put_int put_int x y) w))"
proof -
  have p: "puts (\<lambda>m. andthen (put_int x m) (put_int y)) (enc_u32 x @ enc_u32 y)" by (rule puts_andthen int_codec.put_enc TrueI)+
  have f: "h1_fn1 get_int put_int handle_fast () u rep = Inr ((), unmarshal_args_failure, rep)" if "at_body u (enc_u32 x @ enc_u32 y)" for u rep
    using wrong_arguments [OF that gets_int refl] by (simp add: int_max_def enc_u32_def)
  from refused [OF h23 p _ f] show ?thesis by (simp add: call_req2_def)
qed

lemma wrong_type: "answers ready unmarshal_args_failure r0 (\<lambda>w. typed gr r0 (call 23 (call_req2 put_string put_string hello goodbye) w))"
proof -
  have len: "length hello \<le> int_max" "length goodbye \<le> int_max" by (simp_all add: hello_def goodbye_def int_max_def)
  have p: "puts (\<lambda>m. andthen (put_string hello m) (put_string goodbye)) (enc_string hello @ enc_string goodbye)"
    by (rule puts_andthen string_codec.put_enc len)+
  have f: "h1_fn1 get_int put_int handle_fast () u rep = Inr ((), unmarshal_args_failure, rep)" if "at_body u (enc_string hello @ enc_string goodbye)" for u rep
    using wrong_arguments [OF that gets_int, of "of_nat (length hello)" "hello @ enc_string goodbye"]
    by (simp add: int_max_def hello_def goodbye_def enc_string_def)
  from refused [OF h23 p _ f] show ?thesis by (simp add: call_req2_def hello_def goodbye_def enc_string_def)
qed

lemma simple_tests_ok:
  assumes "r <s 0"
  shows "passes ready 8 (simple_tests call (Inr r))"
proof -
  have neg: "unmarshal_args_failure <s 0" by (simp add: unmarshal_args_failure_def word_sless_alt)
  have 1: "answers ready 0 (hello @ goodbye) (call22 call hello goodbye r0)" for r0
    by (rule call22_ok) (simp add: hello_def goodbye_def)
  have 2: "answers ready 0 (replicate 70000 120) (call25 call 70000 r0)" for r0
    using call25_ok [of 70000 r0] by (simp add: word_sle_eq)
  have 3: "answers ready 0 78 (call_int call 23 77 0)"
    by (rule call_int_ok [OF h23]) (simp add: handle_fast_def int_max_def)
  have 4: "answers ready 0 (replicate 1000 120 @ [120]) (call22 call (replicate 1000 120) [120] r0)" for r0
    by (rule call22_ok) simp
  have 5: "answers ready 0 (replicate 1000000 120 @ [122]) (call22 call (replicate 1000000 120) [122] r0)" for r0
    by (rule call22_ok) simp
  have "passes ready (Suc (Suc (Suc (Suc (Suc (Suc (Suc (Suc 0)))))))) (simple_tests call (Inr r))"
    unfolding simple_tests_def [abs_def] andthen_simps
    by (rule passes_call [OF 1] passes_call [OF 2] passes_call [OF 3] passes_call [OF 4] passes_call [OF 5] passes_call [OF too_few]
        passes_call [OF too_many] passes_call [OF wrong_type] passes_check passes_done)+
      (use assms neg in simp_all)
  then show ?thesis by (simp add: eval_nat_numeral)
qed

lemma rounds_pass:
  "0 \<le>s a \<Longrightarrow> sint a < 2000 \<Longrightarrow> passes ready (Suc 0) (bigrep_round call a)"
  "sint b < 1000 \<Longrightarrow> passes ready (Suc 0) (order_round call (which, b))"
proof -
  assume a: "0 \<le>s a" "sint a < 2000"
  have r: "answers ready 0 (replicate (unat a) 120) (call25 call a [])" by (rule call25_ok) (use a in simp_all)
  have "int (unat a) = sint a" by (rule unat_sint [OF a(1)])
  then have "passes ready (Suc 0) (\<lambda>w. andthen (call25 call a [] w) (\<lambda>(ret, rep, w). check (ret = 0) (check (int (length rep) = sint a) (Inr w))))"
    by (intro passes_call [OF r] passes_check passes_done) simp_all
  then show "passes ready (Suc 0) (bigrep_round call a)" by (simp add: bigrep_round_def [abs_def])
next
  assume b: "sint b < 1000"
  have "answers ready 0 (b + 1) (call_int call 23 b 0)"
    by (rule call_int_ok [OF h23]) (use b in \<open>simp add: handle_fast_def int_max_def\<close>)
  moreover have "answers ready 0 (b + 2) (call_int call 24 b 0)"
    by (rule call_int_ok [OF h24]) (use b in \<open>simp add: handle_slow_def int_max_def\<close>)
  ultimately have r: "answers ready 0 (if which then b + 1 else b + 2) (call_int call (if which then 23 else 24) b 0)" by simp
  have "passes ready (Suc 0) (\<lambda>w. andthen (call_int call (if which then 23 else 24) b 0 w)
      (\<lambda>(ret, rep, w). check (ret = 0) (check (rep = (if which then b + 1 else b + 2)) (Inr w))))"
    by (intro passes_call [OF r] passes_check passes_done) simp_all
  then show "passes ready (Suc 0) (order_round call (which, b))" by (simp add: order_round_def [abs_def])
qed

lemma client1_pass:
  "list_all (\<lambda>a. 0 \<le>s a \<and> sint a < 2000) sizes \<Longrightarrow> list_all (\<lambda>(w, a). sint a < 1000) orders \<Longrightarrow>
   f \<in> set (client1 call sizes orders) \<Longrightarrow> passes ready (Suc 0) f"
  by (auto simp: client1_def list_all_iff intro!: rounds_pass)

lemma client2_pass:
  assumes "list_all (\<lambda>a. 0 \<le>s a \<and> sint a < 2000) sizes" "f \<in> set (client2 call sizes)"
  shows "passes ready (Suc 0) f"
proof -
  from assms obtain a where a: "0 \<le>s a" "sint a < 2000"
    "f = (\<lambda>w. andthen (call25 call a [] w) (\<lambda>(ret, rep, w). check (int (length rep) = sint a) (Inr w)))"
    by (auto simp: client2_def list_all_iff)
  have r: "answers ready 0 (replicate (unat a) 120) (call25 call a [])" by (rule call25_ok) (use a in simp_all)
  have "int (unat a) = sint a" by (rule unat_sint [OF a(1)])
  then show ?thesis unfolding a(3) by (intro passes_call [OF r] passes_check passes_done) simp
qed

lemma client3_pass:
  assumes "f \<in> set (client3 call)"
  shows "passes ready (Suc 0) f"
proof -
  from assms obtain i where i: "i \<in> set [0, 1, 2, 3]"
    "f = (\<lambda>w. andthen (call_int call 24 i 0 w) (\<lambda>(ret, rep, w). check (ret = timeout_failure \<or> rep = i + 2) (Inr w)))"
    unfolding client3_def set_map by blast
  have r: "answers ready 0 (i + 2) (call_int call 24 i 0)"
    by (rule call_int_ok [OF h24]) (use i(1) in \<open>auto simp: handle_slow_def int_max_def\<close>)
  show ?thesis unfolding i(2) by (intro passes_call [OF r] passes_check passes_done) simp
qed

lemma rep22: "answers ready 0 (hello @ goodbye) (call22 call hello goodbye r0)"
  by (rule call22_ok) (simp add: hello_def goodbye_def)

end

section \<open>The endpoints\<close>

text \<open>
  The server, the clients, and what becomes of the messages of the calls to come: the first
  element is the fate of the next call, and past the last one nothing is lost.
\<close>

record test_world =
  tw_server :: "unit rpcs option"
  tw_clients :: "rpcc list"
  tw_net :: "way list"

definition next_way :: "test_world \<Rightarrow> way" where
  "next_way w = (case tw_net w of [] \<Rightarrow> ([], 0) | x # _ \<Rightarrow> x)"

definition call_on :: "nat \<Rightarrow> test_world caller_fn" where
  "call_on i p req w =
     andthen (call_over (next_way w) p req (tw_server w, tw_clients w ! i)) (\<lambda>(ret, un, srv, cl).
     Inr (ret, un, w\<lparr>tw_server := srv, tw_clients := (tw_clients w)[i := cl], tw_net := tl (tw_net w)\<rparr>))"

definition bind_on :: "nat \<Rightarrow> test_world \<Rightarrow> (i32 \<times> test_world) outcome" where
  "bind_on i w =
     andthen (bind_over (next_way w) (tw_server w, tw_clients w ! i)) (\<lambda>(ret, srv, cl).
     Inr (ret, w\<lparr>tw_server := srv, tw_clients := (tw_clients w)[i := cl], tw_net := tl (tw_net w)\<rparr>))"

text \<open>A client of its own, and nobody to answer.\<close>

definition bind_to_none :: "u32 \<Rightarrow> (i32 \<times> rpcc) outcome" where
  "bind_to_none n =
     andthen (bind_over ([], 0) (None :: unit rpcs option, rpcc_new True n)) (\<lambda>(ret, srv, cl). Inr (ret, cl))"

text \<open>A new client in place of an old one, which is deleted.\<close>

definition replace_client :: "nat \<Rightarrow> u32 \<Rightarrow> test_world \<Rightarrow> test_world outcome" where
  "replace_client i n w =
     andthen (if i < length (tw_clients w) then map_sum id (\<lambda>_. ()) (rpcc_delete (tw_clients w ! i)) else Inr ()) (\<lambda>_.
     Inr (w\<lparr>tw_clients := take i (tw_clients w) @ rpcc_new True n # drop (Suc i) (tw_clients w)\<rparr>))"

fun connect :: "nat \<Rightarrow> u32 list \<Rightarrow> test_world \<Rightarrow> test_world outcome" where
  "connect i [] w = Inr w"
| "connect i (n # ns) w =
     andthen (replace_client i n w) (\<lambda>w.
     andthen (bind_on i w) (\<lambda>(ret, w). check (ret = 0) (connect (Suc i) ns w)))"

definition served_procs :: "u32 \<Rightarrow> unit handler option" where
  "served_procs = (\<lambda>_. None)(22 \<mapsto> h1_fn2 (get_string []) (get_string []) put_string handle_22,
     23 \<mapsto> h1_fn1 get_int put_int handle_fast, 24 \<mapsto> h1_fn1 get_int put_int handle_slow,
     25 \<mapsto> h1_fn1 get_int put_string handle_bigrep)"

definition test_rpcs :: "u32 \<Rightarrow> unit rpcs" where
  "test_rpcs nonce = (rpcs_new nonce 0 ())\<lparr>procs := served_procs(rpc_bind \<mapsto> bind_handler nonce)\<rparr>"

lemma startserver_ok: "startserver nonce = Inr (test_rpcs nonce)"
proof -
  have "served_procs(rpc_bind \<mapsto> bind_handler nonce) = (\<lambda>_. None)(rpc_bind \<mapsto> bind_handler nonce,
     22 \<mapsto> h1_fn2 (get_string []) (get_string []) put_string handle_22, 23 \<mapsto> h1_fn1 get_int put_int handle_fast,
     24 \<mapsto> h1_fn1 get_int put_int handle_slow, 25 \<mapsto> h1_fn1 get_int put_string handle_bigrep)"
    by (rule ext) (simp add: served_procs_def rpc_bind_def)
  then show ?thesis
    by (simp add: startserver_def rpcs_made_def reg1_def test_rpcs_def rpcs_new_def rpc_bind_def)
qed

definition deletable :: "rpcc \<Rightarrow> bool" where
  "deletable cl \<longleftrightarrow> chan cl = None \<and> calls cl = []"

lemma deletable_simps:
  "deletable cl \<Longrightarrow> rpcc_delete cl = Inr cl" "deletable cl \<Longrightarrow> deletable (after_call cl)" "deletable cl \<Longrightarrow> deletable (bound nonce cl)"
  "deletable (rpcc_new re n)"
  by (simp_all add: deletable_def rpcc_delete_def after_call_def bound_def rpcc_new_def)

lemma deletable_update: "\<forall>cl \<in> set cls. deletable cl \<Longrightarrow> deletable cl' \<Longrightarrow> \<forall>cl \<in> set (cls[i := cl']). deletable cl"
  using set_update_subset_insert [of cls i cl'] by auto

definition client_ready :: "u32 \<Rightarrow> nat \<Rightarrow> unit rpcs \<Rightarrow> rpcc \<Rightarrow> bool" where
  "client_ready nonce k rs cl \<longleftrightarrow> bind_done cl \<and> cl_srv_nonce cl = nonce \<and> (\<exists>x. linked (cl_nonce cl) x k rs cl)"

definition server_ready :: "u32 \<Rightarrow> u32 set \<Rightarrow> unit rpcs \<Rightarrow> bool" where
  "server_ready nonce ns rs \<longleftrightarrow> srv_nonce rs = nonce \<and> procs rs = served_procs(rpc_bind \<mapsto> bind_handler nonce) \<and> server_calm rs \<and>
     (\<forall>n. n \<notin> ns \<longrightarrow> window_of (replies rs) n = [])"

text \<open>The clients in \<open>S\<close> are bound to the server with number \<open>nonce\<close> and have \<open>k\<close> calls left.\<close>

definition ready_for :: "u32 \<Rightarrow> nat set \<Rightarrow> nat \<Rightarrow> test_world \<Rightarrow> bool" where
  "ready_for nonce S k w \<longleftrightarrow> (\<forall>cl \<in> set (tw_clients w). deletable cl) \<and> S \<subseteq> {..<length (tw_clients w)} \<and> inj_on (\<lambda>i. cl_nonce (tw_clients w ! i)) S \<and>
     (\<exists>rs. tw_server w = Some rs \<and> server_ready nonce ((\<lambda>i. cl_nonce (tw_clients w ! i)) ` S) rs \<and>
       (\<forall>i \<in> S. client_ready nonce k rs (tw_clients w ! i)))"

lemma ready_forI:
  assumes "tw_server w = Some rs" "\<forall>cl \<in> set (tw_clients w). deletable cl" "S \<subseteq> {..<length (tw_clients w)}"
    and "inj_on (\<lambda>i. cl_nonce (tw_clients w ! i)) S" "server_ready nonce ((\<lambda>i. cl_nonce (tw_clients w ! i)) ` S) rs"
    and "\<And>j. j \<in> S \<Longrightarrow> client_ready nonce k rs (tw_clients w ! j)"
  shows "ready_for nonce S k w"
  using assms by (simp add: ready_for_def)

lemma client_ready_less: "client_ready nonce (Suc k) rs cl \<Longrightarrow> client_ready nonce k rs cl"
  by (auto simp: client_ready_def linked_def)

lemma client_ready_other:
  "client_ready nonce k rs cl \<Longrightarrow> others_kept n rs rs2 \<Longrightarrow> server_calm rs2 \<Longrightarrow> cl_nonce cl \<noteq> n \<Longrightarrow> client_ready nonce k rs2 cl"
  by (auto simp: client_ready_def linked_def others_kept_def seen_below_def)

lemma server_ready_other:
  "server_ready nonce ns rs \<Longrightarrow> others_kept n rs rs2 \<Longrightarrow> server_calm rs2 \<Longrightarrow> insert n ns = ns' \<Longrightarrow> server_ready nonce ns' rs2"
  by (auto simp: server_ready_def others_kept_def)

lemma call_on_served:
  assumes "i \<in> S \<and> ready_for nonce S (Suc k) w" "body m args" "served_procs p = Some f"
    and "\<And>u. at_body u args \<Longrightarrow> f () u marshall_new = Inr (s', ret, rep)" "body rep out" "0 \<le>s ret \<or> ret = unmarshal_args_failure"
  shows "\<exists>un w'. call_on i p (Inr m) w = Inr (ret, un, w') \<and> at_body un out \<and> () = s' \<and> i \<in> S \<and> ready_for nonce S k w'"
proof -
  let ?cl = "tw_clients w ! i"
  from assms(1) obtain rs where del: "\<forall>cl \<in> set (tw_clients w). deletable cl"
    and w: "tw_server w = Some rs" "S \<subseteq> {..<length (tw_clients w)}" "inj_on (\<lambda>i. cl_nonce (tw_clients w ! i)) S"
    "server_ready nonce ((\<lambda>i. cl_nonce (tw_clients w ! i)) ` S) rs" "\<forall>j \<in> S. client_ready nonce (Suc k) rs (tw_clients w ! j)" and i: "i \<in> S"
    by (auto simp: ready_for_def)
  then have len: "i < length (tw_clients w)" by auto
  from w(5) i obtain x where x: "linked (cl_nonce ?cl) x (Suc k) rs ?cl" "bind_done ?cl" "cl_srv_nonce ?cl = nonce" by (auto simp: client_ready_def)
  have p: "p \<noteq> rpc_bind" "procs rs p = Some f" using assms(3) w(4) by (auto simp: served_procs_def rpc_bind_def server_ready_def)
  from call_served [where f = f and c = "next_way w" and p = p and s' = "()", OF x(1) _ assms(2) _ p(2) _ assms(5,6)] x(2,3) w(4) p(1) assms(4)
  obtain un rs2 where 1: "call_over (next_way w) p (Inr m) (Some rs, ?cl) = Inr (ret, un, Some rs2, after_call ?cl)" "at_body un out"
    "linked (cl_nonce ?cl) (x + 1) k rs2 (after_call ?cl)" "others_kept (cl_nonce ?cl) rs rs2"
    by (auto simp: may_call_def server_ready_def)
  let ?cls = "(tw_clients w)[i := after_call ?cl]"
  have nonces: "cl_nonce (?cls ! j) = cl_nonce (tw_clients w ! j)" for j
    using len by (cases "i = j") (simp_all add: after_call_def)
  have calm: "server_calm rs2" using 1(3) by (simp add: linked_def)
  have rdy: "client_ready nonce k rs2 (?cls ! j)" if "j \<in> S" for j
  proof (cases "j = i")
    case True
    with 1(3) x len show ?thesis by (auto simp: client_ready_def after_call_def)
  next
    case False
    with w(3) that i have "cl_nonce (tw_clients w ! j) \<noteq> cl_nonce ?cl" by (auto dest: inj_onD)
    from client_ready_other [OF client_ready_less 1(4) calm this] w(5) that False show ?thesis by simp
  qed
  moreover have "server_ready nonce ((\<lambda>i. cl_nonce (?cls ! i)) ` S) rs2"
    unfolding nonces by (rule server_ready_other [OF w(4) 1(4) calm]) (use i in auto)
  moreover have "inj_on (\<lambda>i. cl_nonce (?cls ! i)) S" unfolding nonces by (rule w(3))
  moreover have "\<forall>cl \<in> set ?cls. deletable cl" by (rule deletable_update [OF del]) (use del len in \<open>simp add: deletable_simps\<close>)
  ultimately have "ready_for nonce S k (w\<lparr>tw_server := Some rs2, tw_clients := ?cls, tw_net := tl (tw_net w)\<rparr>)"
    by (intro ready_forI [where rs = rs2]) (use w(2) rdy in \<open>simp_all del: nth_list_update\<close>)
  with 1(1,2) w(1) i show ?thesis by (simp add: call_on_def)
qed

interpretation ends: rpc_service "call_on i" served_procs "\<lambda>_. ()" "\<lambda>k w. i \<in> S \<and> ready_for nonce S k w" for i S nonce
  by unfold_locales (rule call_on_served)

interpretation test: test_server "call_on i" served_procs "\<lambda>_. ()" "\<lambda>k w. i \<in> S \<and> ready_for nonce S k w" for i S nonce
  by unfold_locales (simp_all add: served_procs_def)

lemma in_ready: "passes (\<lambda>k w. i \<in> S \<and> R k w) n f \<Longrightarrow> i \<in> S \<Longrightarrow> passes R n f"
  by (simp add: passes_def)

section \<open>The other tests, and main\<close>

definition concurrent_test :: "nat \<Rightarrow> (nat \<Rightarrow> i32 list) \<Rightarrow> (nat \<Rightarrow> (bool \<times> i32) list) \<Rightarrow> nat list \<Rightarrow> test_world \<Rightarrow> test_world outcome" where
  "concurrent_test nt sizes orders sched = threads sched (map (\<lambda>t. client1 (call_on (t mod 2)) (sizes t) (orders t)) [0..<nt])"

definition lossy_test :: "u32 \<Rightarrow> u32 list \<Rightarrow> i32 list \<Rightarrow> nat list \<Rightarrow> test_world \<Rightarrow> test_world outcome" where
  "lossy_test nonce ns sizes sched w =
     andthen (startserver nonce) (\<lambda>rs.
     andthen (connect 0 ns (w\<lparr>tw_server := Some rs\<rparr>)) (\<lambda>w.
     threads sched [client2 (call_on 0) sizes] w))"

definition failure_test :: "u32 \<Rightarrow> u32 \<Rightarrow> u32 \<Rightarrow> u32 \<Rightarrow> u32 \<Rightarrow> nat list \<Rightarrow> nat list \<Rightarrow> test_world \<Rightarrow> test_world outcome" where
  "failure_test s1 s2 n1 n2 n3 sched1 sched2 w =
     andthen (bind_to_none n1) (\<lambda>(ret, cl1).
     check (ret <s 0) (
     andthen (rpcc_delete cl1) (\<lambda>_.
     andthen (startserver s1) (\<lambda>rs.
     andthen (call22 (call_on 0) hello goodbye [] (w\<lparr>tw_server := Some rs\<rparr>)) (\<lambda>(intret, rep, w).
     check (intret = oldsrv_failure) (
     andthen (replace_client 0 n2 w) (\<lambda>w.
     andthen (bind_on 0 w) (\<lambda>(ret, w).
     check (0 \<le>s ret) (
     andthen (bind_on 0 w) (\<lambda>(ret, w).
     check (ret <s 0) (
     andthen (call22 (call_on 0) hello goodbye rep w) (\<lambda>(intret, rep, w).
     check (intret = 0) (check (rep = hello @ goodbye) (
     andthen (threads sched1 (replicate 10 (client3 (call_on 0))) w) (\<lambda>w.
     andthen (startserver s2) (\<lambda>rs.
     andthen (replace_client 0 n3 (w\<lparr>tw_server := Some rs\<rparr>)) (\<lambda>w.
     andthen (bind_on 0 w) (\<lambda>(ret, w).
     check (0 \<le>s ret) (
     threads sched2 (replicate 10 (client3 (call_on 0))) w)))))))))))))))))))"

text \<open>What the run draws: the random numbers, the schedules of the threads, and the fates of the messages.\<close>

record test_draws =
  td_junk :: "nat \<Rightarrow> u8"
  td_servers :: "nat \<Rightarrow> u32"
  td_clients :: "nat \<Rightarrow> u32"
  td_sizes :: "nat \<Rightarrow> i32 list"
  td_orders :: "nat \<Rightarrow> (bool \<times> i32) list"
  td_loop :: "i32 list"
  td_scheds :: "nat \<Rightarrow> nat list"
  td_net :: "way list"

definition rpctest_main :: "test_draws \<Rightarrow> test_world outcome" where
  "rpctest_main d =
     andthen (testmarshall (td_junk d) \<lparr>rq_xid = 1, rq_proc = 2, rq_clt_nonce = 3, rq_srv_nonce = 4, rq_xid_rep = 5\<rparr>
       12345 1223344455 [104, 97, 108, 108, 111, 46, 46, 46, 46]) (\<lambda>_.
     andthen (startserver (td_servers d 0)) (\<lambda>rs.
     andthen (connect 0 [td_clients d 0, td_clients d 1] \<lparr>tw_server = Some rs, tw_clients = [], tw_net = td_net d\<rparr>) (\<lambda>w.
     andthen (simple_tests (call_on 0) (andthen (bind_to_none (td_clients d 2)) (\<lambda>(ret, _). Inr ret)) w) (\<lambda>w.
     andthen (concurrent_test 10 (td_sizes d) (td_orders d) (td_scheds d 0) w) (\<lambda>w.
     andthen (lossy_test (td_servers d 1) [td_clients d 3, td_clients d 4] (td_loop d) (td_scheds d 1) w) (\<lambda>w.
     failure_test (td_servers d 2) (td_servers d 3) (td_clients d 5) (td_clients d 6) (td_clients d 7) (td_scheds d 2) (td_scheds d 3) w))))))"

section \<open>Binding\<close>

lemma bind_on_new:
  assumes "ready_for nonce S (Suc k) w" "i < length (tw_clients w)" "tw_clients w ! i = rpcc_new True n" "i \<notin> S" "n \<noteq> 0"
    and "\<forall>j \<in> S. cl_nonce (tw_clients w ! j) \<noteq> n" "k + 2 < 2 ^ 32"
  shows "\<exists>w'. bind_on i w = Inr (0, w') \<and> ready_for nonce (insert i S) k w' \<and> length (tw_clients w') = length (tw_clients w) \<and>
     (\<forall>j. cl_nonce (tw_clients w' ! j) = cl_nonce (tw_clients w ! j))"
proof -
  let ?cl = "rpcc_new True n" and ?nonces = "(\<lambda>i. cl_nonce (tw_clients w ! i))"
  from assms(1) obtain rs where del: "\<forall>cl \<in> set (tw_clients w). deletable cl"
    and w: "tw_server w = Some rs" "S \<subseteq> {..<length (tw_clients w)}" "inj_on ?nonces S" "server_ready nonce (?nonces ` S) rs"
      "\<forall>j \<in> S. client_ready nonce (Suc k) rs (tw_clients w ! j)" by (auto simp: ready_for_def)
  have "n \<notin> ?nonces ` S" using assms(6) by auto
  with w(4) have "window_of (replies rs) n = []" "server_calm rs" by (simp_all add: server_ready_def)
  then have "linked n 1 (Suc k) rs ?cl"
    using assms(5,7) by (simp add: linked_def client_calm_new seen_below_def) (simp add: rpcc_new_def)
  from bind_succeeds [OF this, of "next_way w"] w(4) obtain rs2 where
    1: "bind_over (next_way w) (Some rs, ?cl) = Inr (0, Some rs2, bound nonce ?cl)" "linked n (1 + 1) k rs2 (bound nonce ?cl)" "others_kept n rs rs2"
    by (auto simp: rpcc_new_def server_ready_def)
  let ?cls = "(tw_clients w)[i := bound nonce ?cl]" and ?S = "insert i S"
  have nonces: "cl_nonce (?cls ! j) = ?nonces j" for j
    using assms(2,3) by (cases "i = j") (simp_all add: bound_def after_call_def)
  have calm: "server_calm rs2" using 1(2) by (simp add: linked_def)
  have rdy: "client_ready nonce k rs2 (?cls ! j)" if "j \<in> ?S" for j
  proof (cases "j = i")
    case True
    have "bind_done (bound nonce ?cl)" "cl_srv_nonce (bound nonce ?cl) = nonce" "cl_nonce (bound nonce ?cl) = n"
      by (simp_all add: bound_def after_call_def rpcc_new_def)
    with True 1(2) assms(2) show ?thesis by (auto simp: client_ready_def)
  next
    case False
    with assms(6) that have "cl_nonce (tw_clients w ! j) \<noteq> n" by auto
    from client_ready_other [OF client_ready_less 1(3) calm this] w(5) that False show ?thesis by simp
  qed
  have n: "?nonces i = n" using assms(3) by (simp add: rpcc_new_def)
  have "server_ready nonce ((\<lambda>i. cl_nonce (?cls ! i)) ` ?S) rs2"
    unfolding nonces by (rule server_ready_other [OF w(4) 1(3) calm]) (simp add: n)
  moreover have "inj_on (\<lambda>i. cl_nonce (?cls ! i)) ?S" unfolding nonces using w(3) assms(4,6) n by auto
  moreover have "\<forall>cl \<in> set ?cls. deletable cl" by (rule deletable_update [OF del]) (simp add: deletable_simps)
  ultimately have "ready_for nonce ?S k (w\<lparr>tw_server := Some rs2, tw_clients := ?cls, tw_net := tl (tw_net w)\<rparr>)"
    by (intro ready_forI [where rs = rs2]) (use w(2) assms(2) rdy in \<open>simp_all del: nth_list_update\<close>)
  with 1(1) w(1) assms(3) nonces show ?thesis by (simp add: bind_on_def)
qed

lemma bind_on_again:
  assumes "ready_for nonce S k w" "i \<in> S"
  shows "\<exists>w'. bind_on i w = Inr (bind_failure, w') \<and> ready_for nonce S k w'"
proof -
  from assms have "bind_done (tw_clients w ! i)" by (auto simp: ready_for_def client_ready_def)
  from bind_twice [OF this, of "next_way w" "tw_server w"] assms(1) show ?thesis by (simp add: bind_on_def ready_for_def)
qed

lemma bind_to_none_fails: "\<exists>cl. bind_to_none n = Inr (timeout_failure, cl) \<and> deletable cl"
proof -
  have "\<not> bind_done (rpcc_new True n)" by (simp add: rpcc_new_def)
  then have "bind_over ([], 0) (None :: unit rpcs option, rpcc_new True n) = Inr (timeout_failure, None, after_call (rpcc_new True n))"
    by (intro bind_to_nobody [OF client_calm_new]) simp_all
  then show ?thesis by (simp add: bind_to_none_def deletable_simps)
qed

section \<open>The tests pass\<close>

lemma ready_for_cong:
  assumes "ready_for nonce S k w" "tw_server w' = tw_server w" "\<forall>cl \<in> set (tw_clients w'). deletable cl"
    and "S \<subseteq> {..<length (tw_clients w')}" "\<And>j. j \<in> S \<Longrightarrow> tw_clients w' ! j = tw_clients w ! j"
  shows "ready_for nonce S k w'"
proof -
  have "(\<lambda>i. cl_nonce (tw_clients w' ! i)) ` S = (\<lambda>i. cl_nonce (tw_clients w ! i)) ` S"
    "inj_on (\<lambda>i. cl_nonce (tw_clients w' ! i)) S = inj_on (\<lambda>i. cl_nonce (tw_clients w ! i)) S"
    using assms(5) by (auto simp: inj_on_def intro!: image_cong)
  with assms show ?thesis by (simp add: ready_for_def)
qed

lemma ready_fresh: "tw_server w = Some (test_rpcs nonce) \<Longrightarrow> \<forall>cl \<in> set (tw_clients w). deletable cl \<Longrightarrow> ready_for nonce {} k w"
  by (simp add: ready_for_def server_ready_def test_rpcs_def server_calm_new)
    (simp add: rpcs_new_def reply_state_init_def window_of_def)

lemma ready_deletable: "ready_for nonce S k w \<Longrightarrow> \<forall>cl \<in> set (tw_clients w). deletable cl"
  by (simp add: ready_for_def)

lemma replace_ok:
  "\<forall>cl \<in> set (tw_clients w). deletable cl \<Longrightarrow>
   replace_client i n w = Inr (w\<lparr>tw_clients := take i (tw_clients w) @ rpcc_new True n # drop (Suc i) (tw_clients w)\<rparr>)"
  by (simp add: replace_client_def deletable_simps)

lemma connect_ok:
  "ready_for nonce {..<i} (length ns + k) w \<Longrightarrow> distinct ns \<Longrightarrow> 0 \<notin> set ns \<Longrightarrow> \<forall>j < i. cl_nonce (tw_clients w ! j) \<notin> set ns \<Longrightarrow>
   length ns + k + 2 < 2 ^ 32 \<Longrightarrow> \<exists>w'. connect i ns w = Inr w' \<and> ready_for nonce {..<i + length ns} k w'"
proof (induction ns arbitrary: i w)
  case Nil
  then show ?case by simp
next
  case (Cons n ns)
  let ?w = "w\<lparr>tw_clients := take i (tw_clients w) @ rpcc_new True n # drop (Suc i) (tw_clients w)\<rparr>"
  have del: "\<forall>cl \<in> set (tw_clients w). deletable cl" by (rule ready_deletable [OF Cons.prems(1)])
  have len: "i \<le> length (tw_clients w)" using Cons.prems(1) by (auto simp: ready_for_def)
  have new: "\<forall>cl \<in> set (tw_clients ?w). deletable cl" using del by (auto simp: deletable_simps dest: in_set_takeD in_set_dropD)
  have same: "tw_clients ?w ! j = tw_clients w ! j" if "j < i" for j using that len by (simp add: nth_append)
  have rdy: "ready_for nonce {..<i} (Suc (length ns + k)) ?w"
    by (rule ready_for_cong [OF Cons.prems(1) [simplified] _ new]) (use len same in auto)
  have "\<exists>w'. bind_on i ?w = Inr (0, w') \<and> ready_for nonce (insert i {..<i}) (length ns + k) w' \<and>
      length (tw_clients w') = length (tw_clients ?w) \<and> (\<forall>j. cl_nonce (tw_clients w' ! j) = cl_nonce (tw_clients ?w ! j))"
    by (rule bind_on_new [OF rdy, where n = n]) (use Cons.prems(2-5) len same in \<open>auto simp: nth_append\<close>)
  then obtain w' where w': "bind_on i ?w = Inr (0, w')" "ready_for nonce {..<Suc i} (length ns + k) w'"
    "\<forall>j. cl_nonce (tw_clients w' ! j) = cl_nonce (tw_clients ?w ! j)" by (auto simp: lessThan_Suc)
  have "\<forall>j < Suc i. cl_nonce (tw_clients w' ! j) \<notin> set ns"
    using w'(3) Cons.prems(2,4) same len by (auto simp: less_Suc_eq nth_append rpcc_new_def)
  from Cons.IH [OF w'(2) _ _ this] Cons.prems(2,3,5) replace_ok [OF del, of i n] w'(1) show ?case by simp
qed

lemma concurrent_ok:
  assumes "\<And>t. t < nt \<Longrightarrow> list_all (\<lambda>a. 0 \<le>s a \<and> sint a < 2000) (sizes t) \<and> list_all (\<lambda>(w, a). sint a < 1000) (orders t) \<and>
      length (sizes t) + length (orders t) = r"
    and "fair sched (replicate nt r)"
  shows "passes (ready_for nonce {..<2}) (nt * r) (concurrent_test nt sizes orders sched)"
proof -
  let ?ths = "map (\<lambda>t. client1 (call_on (t mod 2)) (sizes t) (orders t)) [0..<nt]"
  have len: "map length ?ths = replicate nt r"
    using assms(1) by (intro nth_equalityI) (auto simp: client1_def)
  have steps: "passes (ready_for nonce {..<2}) (Suc 0) f" if "th \<in> set ?ths" "f \<in> set th" for th f
  proof -
    from that obtain t where t: "t < nt" "f \<in> set (client1 (call_on (t mod 2)) (sizes t) (orders t))" by auto
    have "passes (\<lambda>k w. t mod 2 \<in> {..<2} \<and> ready_for nonce {..<2} k w) (Suc 0) f"
      by (rule test.client1_pass [OF _ _ t(2)]) (use assms(1) [OF t(1)] in auto)
    then show ?thesis by (rule in_ready) simp
  qed
  have "passes (ready_for nonce {..<2}) (sum_list (map length ?ths)) (threads sched ?ths)"
    by (rule threads_pass [OF steps]) (use assms(2) len in simp_all)
  then show ?thesis unfolding concurrent_test_def len by (simp add: sum_list_replicate)
qed

lemma lossy_ok:
  assumes "ready_for nonce' {..<2} k' w" "distinct ns" "0 \<notin> set ns" "length ns = 2" "length sizes + k + 4 < 2 ^ 32"
    and "list_all (\<lambda>a. 0 \<le>s a \<and> sint a < 2000) sizes" "fair sched [length sizes]"
  shows "\<exists>w'. lossy_test nonce ns sizes sched w = Inr w' \<and> ready_for nonce {..<2} k w'"
proof -
  let ?w = "w\<lparr>tw_server := Some (test_rpcs nonce)\<rparr>"
  have "ready_for nonce {..<0} (length ns + (length sizes + k)) ?w"
    using ready_fresh [of ?w nonce] ready_deletable [OF assms(1)] by simp
  from connect_ok [OF this] assms(2-5) obtain w' where
    w': "connect 0 ns ?w = Inr w'" "ready_for nonce {..<2} (length sizes + k) w'" by (auto simp: numeral_2_eq_2)
  have "passes (ready_for nonce {..<2}) (Suc 0) f" if "f \<in> set (client2 (call_on 0) sizes)" for f
    by (rule in_ready [where i = 0 and S = "{..<2 :: nat}"], rule test.client2_pass [OF assms(6) that]) simp
  then have "passes (ready_for nonce {..<2}) (sum_list (map length [client2 (call_on 0) sizes])) (threads sched [client2 (call_on 0) sizes])"
    by (intro threads_pass) (use assms(7) in \<open>auto simp: client2_def\<close>)
  then have "passes (ready_for nonce {..<2}) (length sizes) (threads sched [client2 (call_on 0) sizes])" by (simp add: client2_def)
  from passesD [OF this w'(2)] w'(1) show ?thesis by (simp add: lossy_test_def startserver_ok)
qed

text \<open>A client that is bound to a server that was replaced.\<close>

lemma old_client:
  assumes "ready_for nonce S (Suc k) w" "i \<in> S" "nonce \<noteq> 0" "nonce \<noteq> s" "body m args" "p \<noteq> rpc_bind"
  shows "\<exists>un w'. call_on i p (Inr m) (w\<lparr>tw_server := Some (test_rpcs s)\<rparr>) = Inr (oldsrv_failure, un, w') \<and>
     ready_for s {} k' w' \<and> length (tw_clients w') = length (tw_clients w)"
proof -
  let ?cl = "tw_clients w ! i" and ?rs = "test_rpcs s"
  from assms(1,2) obtain rs where "client_ready nonce (Suc k) rs ?cl"
    and len: "i < length (tw_clients w)" and del: "\<forall>cl \<in> set (tw_clients w). deletable cl"
    unfolding ready_for_def by blast
  then obtain x where cl: "linked (cl_nonce ?cl) x (Suc k) rs ?cl" "bind_done ?cl" "cl_srv_nonce ?cl = nonce"
    unfolding client_ready_def by blast
  from cl(1) have "linked (cl_nonce ?cl) x (Suc k) ?rs ?cl" by (simp add: linked_def test_rpcs_def server_calm_new)
  from call_to_old_server [OF this _ assms(5), of p "next_way w"] cl(2,3) assms(3,4,6) obtain un rs2 where
    1: "call_over (next_way w) p (Inr m) (Some ?rs, ?cl) = Inr (oldsrv_failure, un, Some rs2, after_call ?cl)" "server_calm rs2" "same_core ?rs rs2"
    by (auto simp: may_call_def test_rpcs_def rpcs_new_def)
  let ?cls = "(tw_clients w)[i := after_call ?cl]"
  have "\<forall>cl \<in> set ?cls. deletable cl" by (rule deletable_update [OF del]) (use del len in \<open>simp add: deletable_simps\<close>)
  moreover have "server_ready s {} rs2"
    using 1(2,3) by (simp add: server_ready_def same_core_def test_rpcs_def) (simp add: rpcs_new_def reply_state_init_def window_of_def)
  ultimately have "ready_for s {} k' (w\<lparr>tw_server := Some rs2, tw_clients := ?cls, tw_net := tl (tw_net w)\<rparr>)"
    by (intro ready_forI [where rs = rs2]) simp_all
  with 1(1) show ?thesis by (simp add: call_on_def next_way_def)
qed

lemma old_client_22:
  assumes "ready_for nonce S (Suc k) w" "i \<in> S" "nonce \<noteq> 0" "nonce \<noteq> s"
  shows "\<exists>w'. call22 (call_on i) hello goodbye r0 (w\<lparr>tw_server := Some (test_rpcs s)\<rparr>) = Inr (oldsrv_failure, r0, w') \<and>
     ready_for s {} k' w' \<and> length (tw_clients w') = length (tw_clients w)"
proof -
  have len: "length hello \<le> int_max" "length goodbye \<le> int_max" by (simp_all add: hello_def goodbye_def int_max_def)
  have p: "puts (\<lambda>m. andthen (put_string hello m) (put_string goodbye)) (enc_string hello @ enc_string goodbye)"
    by (rule puts_andthen string_codec.put_enc len)+
  from puts_new [OF p] obtain m where m: "andthen (put_string hello marshall_new) (put_string goodbye) = Inr m"
    "body m (enc_string hello @ enc_string goodbye)" by (auto simp: hello_def goodbye_def enc_string_def int_max_def)
  have "(22 :: u32) \<noteq> rpc_bind" by (simp add: rpc_bind_def)
  from old_client [OF assms m(2) this, of k'] obtain un w' where
    "call_on i 22 (Inr m) (w\<lparr>tw_server := Some (test_rpcs s)\<rparr>) = Inr (oldsrv_failure, un, w')"
    "ready_for s {} k' w'" "length (tw_clients w') = length (tw_clients w)" by blast
  with m(1) show ?thesis
    by (simp add: call22_def typed_def call_req2_def call_m_def oldsrv_failure_def word_sless_alt)
qed

text \<open>Client 0 is replaced and bound, and ten threads use it.\<close>

lemma new_client_0:
  assumes "ready_for nonce {} 0 w" "0 < length (tw_clients w)" "n \<noteq> 0" "k + 3 < 2 ^ 32"
  shows "\<exists>w1 w2. replace_client 0 n w = Inr w1 \<and> bind_on 0 w1 = Inr (0, w2) \<and> ready_for nonce {0} k w2"
proof -
  have "ready_for nonce {..<0} (length [n] + k) w" using assms(1) by (simp add: ready_for_def)
  from connect_ok [OF this] assms(3,4) show ?thesis
    by (auto simp: andthen_Inr_iff check_def lessThan_Suc split: if_splits)
qed

lemma ten_threads:
  assumes "fair sched (replicate 10 4)"
  shows "passes (ready_for nonce {0}) 40 (threads sched (replicate 10 (client3 (call_on 0))))"
proof -
  have len: "length (client3 (call_on 0)) = 4" by (simp add: client3_def)
  have "passes (ready_for nonce {0}) (Suc 0) f" if "f \<in> set (client3 (call_on 0))" for f
    by (rule in_ready [where i = 0 and S = "{0}"], rule test.client3_pass [OF that]) simp
  then have "passes (ready_for nonce {0}) (sum_list (map length (replicate 10 (client3 (call_on 0))))) (threads sched (replicate 10 (client3 (call_on 0))))"
    by (intro threads_pass) (use assms in \<open>auto simp: len\<close>)
  then show ?thesis by (simp add: len sum_list_replicate)
qed

lemma failure_ok:
  assumes "ready_for s {..<2} 1 w" "s \<noteq> 0" "s \<noteq> s1" "n2 \<noteq> 0" "n3 \<noteq> 0" "fair sched1 (replicate 10 4)" "fair sched2 (replicate 10 4)"
  shows "\<exists>w'. failure_test s1 s2 n1 n2 n3 sched1 sched2 w = Inr w'"
proof -
  have neg: "timeout_failure <s 0" "bind_failure <s 0" by (simp_all add: timeout_failure_def bind_failure_def word_sless_alt)
  from bind_to_none_fails [of n1] obtain cl1 where 1: "bind_to_none n1 = Inr (timeout_failure, cl1)" "rpcc_delete cl1 = Inr cl1"
    by (auto simp: deletable_simps)
  from old_client_22 [OF assms(1) [simplified] _ assms(2,3), of 0 "[]" 0] obtain w1 where
    2: "call22 (call_on 0) hello goodbye [] (w\<lparr>tw_server := Some (test_rpcs s1)\<rparr>) = Inr (oldsrv_failure, [], w1)"
      "ready_for s1 {} 0 w1" "length (tw_clients w1) = length (tw_clients w)" by auto
  have "2 \<le> length (tw_clients w)" using assms(1) by (auto simp: ready_for_def)
  then have "0 < length (tw_clients w1)" using 2(3) by linarith
  from new_client_0 [OF 2(2) this assms(4), of 41] obtain w2 w3 where
    3: "replace_client 0 n2 w1 = Inr w2" "bind_on 0 w2 = Inr (0, w3)" "ready_for s1 {0} 41 w3" by auto
  from bind_on_again [OF 3(3), of 0] obtain w4 where 4: "bind_on 0 w3 = Inr (bind_failure, w4)" "ready_for s1 {0} (Suc 40) w4" by auto
  have "answers (\<lambda>k w. 0 \<in> {0 :: nat} \<and> ready_for s1 {0} k w) 0 (hello @ goodbye) (call22 (call_on 0) hello goodbye [])" by (rule test.rep22)
  with 4(2) obtain w5 where "call22 (call_on 0) hello goodbye [] w4 = Inr (0, hello @ goodbye, w5)" "ready_for s1 {0} 40 w5"
    unfolding answers_def by blast
  then have 5: "call22 (call_on 0) hello goodbye [] w4 = Inr (0, hello @ goodbye, w5)" "ready_for s1 {0} (40 + 0) w5" by simp_all
  from passesD [OF ten_threads [OF assms(6)] 5(2)] obtain w6 where
    6: "threads sched1 (replicate 10 (client3 (call_on 0))) w5 = Inr w6" "ready_for s1 {0} 0 w6" by blast
  let ?w6 = "w6\<lparr>tw_server := Some (test_rpcs s2)\<rparr>"
  have "ready_for s2 {} 0 ?w6" using ready_fresh [of ?w6] ready_deletable [OF 6(2)] by simp
  moreover have "0 < length (tw_clients ?w6)" using 6(2) by (auto simp: ready_for_def)
  ultimately obtain w7 w8 where
    7: "replace_client 0 n3 ?w6 = Inr w7" "bind_on 0 w7 = Inr (0, w8)" "ready_for s2 {0} (40 + 0) w8"
    using new_client_0 [OF _ _ assms(5), of s2 ?w6 40] by auto
  from passesD [OF ten_threads [OF assms(7)] 7(3)] obtain w9 where 8: "threads sched2 (replicate 10 (client3 (call_on 0))) w8 = Inr w9" by blast
  show ?thesis unfolding failure_test_def
    by (simp add: 1 2(1) 3(1,2) 4(1) 5(1) 6(1) 7(1,2) 8 neg startserver_ok)
qed

section \<open>Property\<close>

definition sizes_ok :: "i32 list \<Rightarrow> bool" where
  "sizes_ok = list_all (\<lambda>a. 0 \<le>s a \<and> sint a < 2000)"

text \<open>
  What the run can draw. The numbers of two clients of one server differ, no client has number
  0, and the server that \<open>failure_test\<close> replaces does not have 0 or the number of its successor.
  The schedules let every thread finish.
\<close>

definition draws_ok :: "test_draws \<Rightarrow> bool" where
  "draws_ok d \<longleftrightarrow>
     0 \<notin> td_clients d ` {0, 1, 3, 4, 6, 7} \<and> td_clients d 0 \<noteq> td_clients d 1 \<and> td_clients d 3 \<noteq> td_clients d 4 \<and>
     td_servers d 1 \<noteq> 0 \<and> td_servers d 1 \<noteq> td_servers d 2 \<and>
     list_all (\<lambda>t. length (td_sizes d t) = 100 \<and> sizes_ok (td_sizes d t) \<and>
       length (td_orders d t) = 100 \<and> list_all (\<lambda>(w, a). sint a < 1000) (td_orders d t)) [0..<10] \<and>
     sizes_ok (td_loop d) \<and> length (td_loop d) < 2 ^ 31 \<and>
     fair (td_scheds d 0) (replicate 10 200) \<and> fair (td_scheds d 1) [length (td_loop d)] \<and>
     fair (td_scheds d 2) (replicate 10 4) \<and> fair (td_scheds d 3) (replicate 10 4)"


definition sample_draws :: test_draws where
  "sample_draws = \<lparr>td_junk = (\<lambda>_. 7), td_servers = (\<lambda>i. of_nat i + 1), td_clients = (\<lambda>i. of_nat i + 1),
     td_sizes = (\<lambda>_. replicate 100 1999), td_orders = (\<lambda>t. replicate 100 (t mod 2 = 0, 999)), td_loop = [0, 5],
     td_scheds = (\<lambda>i. if i = 1 then [0, 0] else concat (replicate 200 [0..<10])),
     td_net = [([], 1), ([Request_lost, Reply_lost 2], 3)]\<rparr>"

lemma round_robin: "m \<le> r \<Longrightarrow> fair (concat (replicate r [0..<k])) (replicate k m)"
proof -
  assume "m \<le> r"
  moreover have "t < j \<Longrightarrow> count_list [0..<j] t = 1" for t j :: nat
    by (induction j) (auto simp: less_Suc_eq count_list_0_iff)
  then have "t < k \<Longrightarrow> count_list (concat (replicate r [0..<k])) t = r" for t
    by (induction r) simp_all
  ultimately show ?thesis by (simp add: fair_def)
qed


end
