(* ===== verification/LockService.thy ===== *)
theory LockService
  imports EndToEnd LockServer Listener
begin

text \<open>
  The lock service as a whole: the program \<open>lock_smain.cc\<close> with the handlers of
  \<open>lock_server.cc\<close> behind \<open>rpcs\<close>, the client \<open>lock_client.cc\<close> behind \<open>rpcc\<close>, and the network
  between them.
\<close>

section \<open>Handlers behind the stubs\<close>

text \<open>
  A handler as the dispatch thread sees it: the effect of \<open>grant\<close> is that of its last
  section, the one that takes the lock. Until then the thread sleeps and the call is \<open>Not_yet\<close>.
\<close>

definition grant_handler :: "i32 \<Rightarrow> u64 \<Rightarrow> lock_server \<Rightarrow> (lock_server, i32) meth_result" where
  "grant_handler c lid ls =
     andthen (grant_enter c lid ls) (\<lambda>r.
     case r of None \<Rightarrow> Inl Not_yet | Some ls \<Rightarrow> Inr (ls, lock_reply ls))"

definition release_handler :: "i32 \<Rightarrow> u64 \<Rightarrow> lock_server \<Rightarrow> (lock_server, i32) meth_result" where
  "release_handler c lid ls =
     andthen (release_section c lid ls) (\<lambda>(ls, signalled). Inr (ls, lock_reply ls))"

text \<open>\<open>main\<close> of the server.\<close>

definition lock_smain :: "u32 \<Rightarrow> int \<Rightarrow> lock_server rpcs outcome" where
  "lock_smain nonce cnt =
     andthen (rpcs_made nonce cnt lock_server_new) (\<lambda>server.
     andthen (reg1 proc_stat (h1_fn2 get_int get_ull put_int lock_stat) server) (\<lambda>server.
     andthen (reg1 proc_acquire (h1_fn2 get_int get_ull put_int grant_handler) server) (\<lambda>server.
     reg1 proc_release (h1_fn2 get_int get_ull put_int release_handler) server)))"

definition lock_procs :: "u32 \<Rightarrow> u32 \<Rightarrow> lock_server handler option" where
  "lock_procs nonce = (\<lambda>_. None)(rpc_bind \<mapsto> bind_handler nonce,
     proc_stat \<mapsto> h1_fn2 get_int get_ull put_int lock_stat, proc_acquire \<mapsto> h1_fn2 get_int get_ull put_int grant_handler,
     proc_release \<mapsto> h1_fn2 get_int get_ull put_int release_handler)"

lemmas proc_defs = rpc_bind_def proc_stat_def proc_acquire_def proc_release_def

lemma lock_smain_registers:
  "lock_smain nonce cnt = Inr ((rpcs_new nonce cnt lock_server_new)\<lparr>procs := lock_procs nonce\<rparr>)"
  by (simp add: lock_smain_def rpcs_made_def reg1_def lock_procs_def rpcs_new_def proc_defs)

section \<open>The client\<close>

text \<open>
  The three calls of \<open>lock_client\<close>: the request, and what the method returns for what
  \<open>call1\<close> gives back; the local \<open>r\<close> is not initialized.
\<close>

definition rpcc_id :: "rpcc \<Rightarrow> u32" where
  "rpcc_id cl = cl_nonce cl"

definition lock_request :: "rpcc \<Rightarrow> u64 \<Rightarrow> marshall outcome" where
  "lock_request cl lid = call_req2 put_uint put_ull (rpcc_id cl) lid"

definition lock_result :: "i32 \<Rightarrow> unmarshall \<Rightarrow> i32 \<Rightarrow> i32 outcome" where
  "lock_result ret un r =
     andthen (call_m get_int ret un r) (\<lambda>(ret, r). if ret = lock_OK then Inr r else Inl Assert_failed)"

text \<open>
  The constructor: \<open>ret\<close> and \<open>r\<close> are what the call of \<open>bind\<close> brings back; when it fails a line is
  printed and the object is as good as any other. \<^term>\<open>None\<close> is the end of the process.
\<close>

definition lock_client_new :: "resolver \<Rightarrow> resolver \<Rightarrow> u8 list \<Rightarrow> u32 \<Rightarrow> i32 \<Rightarrow> i32 \<Rightarrow> (sockaddr \<times> rpcc) option outcome" where
  "lock_client_new inet resolve dst random ret r =
     andthen (make_sockaddr inet resolve dst) (\<lambda>dstsock.
     Inr (map_option (\<lambda>dstsock. (dstsock, snd (bind_end ret r (rpcc_new True random)))) dstsock))"

section \<open>Reading what was sent\<close>

lemma urawbyte_ok:
  assumes "urawbyte u = (x, v)" "uok v"
  shows "uok u" "uind u < usz u" "x = scast (ubuf u ! uind u)" "v = u\<lparr>uind := uind u + 1\<rparr>"
  using assms by (auto simp: urawbyte_def split: if_splits)

lemma enc_u32_join:
  "enc_u32 (push_bit 24 (scast a AND 0xff) OR push_bit 16 (scast b AND 0xff) OR
     push_bit 8 (scast c AND 0xff) OR (scast d AND 0xff)) = [a, b, c, d]"
  by (simp add: enc_u32_def byte_simps) (auto intro!: bit_word_eqI simp: bit_simps not_bit8)

lemma get_uint_bytes:
  assumes "get_uint u = Inr (x, v)" "uok v"
  shows "uok u \<and> uind u + 4 \<le> usz u \<and> v = u\<lparr>uind := uind u + 4\<rparr> \<and> drop (uind u) (ubuf u) = enc_u32 x @ drop (uind u + 4) (ubuf u)"
proof -
  obtain a u1 where 1: "urawbyte u = (a, u1)" by fastforce
  obtain b u2 where 2: "urawbyte u1 = (b, u2)" by fastforce
  obtain c u3 where 3: "urawbyte u2 = (c, u3)" by fastforce
  obtain d u4 where 4: "urawbyte u3 = (d, u4)" by fastforce
  from assms(1) 1 2 3 4 have v: "v = u4" and x: "x = push_bit 24 (a AND 0xff) OR push_bit 16 (b AND 0xff) OR
    push_bit 8 (c AND 0xff) OR (d AND 0xff)" by (auto simp: get_uint_def)
  note h4 = urawbyte_ok [OF 4 assms(2) [unfolded v]]
  note h3 = urawbyte_ok [OF 3 h4(1)]
  note h2 = urawbyte_ok [OF 2 h3(1)]
  note h1 = urawbyte_ok [OF 1 h2(1)]
  have i: "Suc (Suc (Suc (uind u))) < usz u" using h1 h2 h3 h4 by simp
  have e: "x = push_bit 24 (scast (ubuf u ! uind u) AND 0xff) OR push_bit 16 (scast (ubuf u ! (uind u + 1)) AND 0xff) OR
    push_bit 8 (scast (ubuf u ! (uind u + 2)) AND 0xff) OR (scast (ubuf u ! (uind u + 3)) AND 0xff)"
    using x h1 h2 h3 h4 by (simp add: numeral_2_eq_2 numeral_3_eq_3)
  have "drop (uind u) (ubuf u) = ubuf u ! uind u # ubuf u ! (uind u + 1) # ubuf u ! (uind u + 2) # ubuf u ! (uind u + 3) # drop (uind u + 4) (ubuf u)"
    using i by (simp add: eval_nat_numeral flip: Cons_nth_drop_Suc)
  with e h1 h2 h3 h4 v i enc_u32_join show ?thesis by (simp add: numeral_2_eq_2 numeral_3_eq_3)
qed

lemma enc_u64_join: "enc_u64 (ucast l OR push_bit 32 (ucast h)) = enc_u32 h @ enc_u32 (l :: u32)"
proof -
  have "ucast (drop_bit 32 (ucast l OR push_bit 32 (ucast h) :: u64)) = h"
    by (rule bit_word_eqI) (auto simp: bit_simps dest: bit_imp_le_length)
  moreover have "ucast (ucast l OR push_bit 32 (ucast h) :: u64) = l"
    by (rule bit_word_eqI) (auto simp: bit_simps)
  ultimately show ?thesis by (simp add: enc_u64_def)
qed

text \<open>The arguments of the lock handlers, read to the end: nothing else was sent.\<close>

lemma get_lock_args:
  assumes "at_body u args" "args2 get_int get_ull u = Inr ((i, lid), v)" "okdone v"
  shows "args = enc_u32 i @ enc_u64 lid"
proof -
  from assms(2) obtain u1 h u2 l where g: "get_uint u = Inr (i, u1)" "get_uint u1 = Inr (h, u2)" "get_uint u2 = Inr (l, v)"
    and lid: "lid = ucast l OR push_bit 32 (ucast h)"
    by (auto simp: args2_def andthen_Inr_iff get_ull_def get_int_eq)
  note 3 = get_uint_bytes [OF g(3)] assms(3)
  then have 3: "uok u2" "v = u2\<lparr>uind := uind u2 + 4\<rparr>" "drop (uind u2) (ubuf u2) = enc_u32 l @ drop (uind u2 + 4) (ubuf u2)"
    "uind u2 + 4 = usz u2" by (simp_all add: okdone_def)
  from get_uint_bytes [OF g(2) 3(1)] have 2: "uok u1" "u2 = u1\<lparr>uind := uind u1 + 4\<rparr>"
    "drop (uind u1) (ubuf u1) = enc_u32 h @ drop (uind u1 + 4) (ubuf u1)" by simp_all
  from get_uint_bytes [OF g(1) 2(1)] have 1: "u1 = u\<lparr>uind := uind u + 4\<rparr>"
    "drop (uind u) (ubuf u) = enc_u32 i @ drop (uind u + 4) (ubuf u)" by simp_all
  from assms(1) have "args = drop (uind u) (ubuf u)" by (simp add: at_body_def)
  with 1 2 3 lid show ?thesis by (simp add: enc_u64_join)
qed

lemma enc_u32_inj:
  assumes "enc_u32 x = enc_u32 y"
  shows "x = y"
proof -
  from assms have e: "(ucast (drop_bit 24 x) :: u8) = ucast (drop_bit 24 y)" "(ucast (drop_bit 16 x) :: u8) = ucast (drop_bit 16 y)"
    "(ucast (drop_bit 8 x) :: u8) = ucast (drop_bit 8 y)" "(ucast x :: u8) = ucast y" by (simp_all add: enc_u32_def)
  from join_u32 [of y] show ?thesis unfolding e [symmetric] join_u32 .
qed

lemma enc_u64_inj:
  assumes "enc_u64 x = enc_u64 y"
  shows "x = y"
proof -
  from assms have e: "(ucast (drop_bit 32 x) :: u32) = ucast (drop_bit 32 y)" "(ucast x :: u32) = ucast y"
    by (auto simp: enc_u64_def dest: enc_u32_inj)
  from join_u64 [of y] show ?thesis unfolding e [symmetric] join_u64 .
qed

lemma lock_args_inj: "enc_u32 i @ enc_u64 k = enc_u32 j @ enc_u64 l \<longleftrightarrow> i = j \<and> k = l"
  by (auto dest: enc_u32_inj enc_u64_inj)

lemma lock_handler_ran:
  assumes "at_body u args" "h1_fn2 get_int get_ull pr meth s u m = Inr (s', ret, rep)"
  shows "s' = s \<and> ret = unmarshal_args_failure \<or> (\<exists>i lid r. args = enc_u32 i @ enc_u64 lid \<and> meth i lid s = Inr (s', ret, r))"
proof -
  from assms(2) obtain i lid v where g: "args2 get_int get_ull u = Inr ((i, lid), v)"
    and r: "(if \<not> okdone v then Inr (s, unmarshal_args_failure, m) else andthen (meth i lid s) (\<lambda>(s, b, r).
          andthen (pr r m) (\<lambda>ret. Inr (s, b, ret)))) = Inr (s', ret, rep)"
    by (auto simp: h1_fn2_def h1_run_def andthen_Inr_iff)
  with get_lock_args [OF assms(1) g] show ?thesis by (auto simp: andthen_Inr_iff split: if_splits)
qed

lemma unpack_uint: "unpack u = (x, v) \<Longrightarrow> get_uint u = Inr (x, v)"
  by (auto simp: unpack_def get_uint_def Let_def split: prod.splits)

lemma request_body:
  assumes "unpack_req_header (unmarshall_of pdu) = (h, u)" "uok u"
  shows "at_body u (drop RPC_HEADER_SZ pdu)"
proof -
  obtain x1 u1 where 1: "unpack (unmarshall_of pdu\<lparr>uind := 4\<rparr>) = (x1, u1)" by fastforce
  obtain x2 u2 where 2: "unpack u1 = (x2, u2)" by fastforce
  obtain x3 u3 where 3: "unpack u2 = (x3, u3)" by fastforce
  obtain x4 u4 where 4: "unpack u3 = (x4, u4)" by fastforce
  obtain x5 u5 where 5: "unpack u4 = (x5, u5)" by fastforce
  from assms(1) 1 2 3 4 5 have u: "u = u5\<lparr>uind := RPC_HEADER_SZ\<rparr>" by (simp add: unpack_req_header_def)
  with assms(2) have ok: "uok u5" by simp
  note h5 = get_uint_bytes [OF unpack_uint [OF 5] ok]
  note h4 = get_uint_bytes [OF unpack_uint [OF 4] h5 [THEN conjunct1]]
  note h3 = get_uint_bytes [OF unpack_uint [OF 3] h4 [THEN conjunct1]]
  note h2 = get_uint_bytes [OF unpack_uint [OF 2] h3 [THEN conjunct1]]
  note h1 = get_uint_bytes [OF unpack_uint [OF 1] h2 [THEN conjunct1]]
  from h1 h2 h3 h4 h5 u show ?thesis by (auto simp: at_body_def unmarshall_of_def)
qed

section \<open>Histories of the service\<close>

text \<open>
  The jobs of the server have their handlers from the registration, and arguments that stand
  behind the header.
\<close>

definition service_inv :: "(u32 \<Rightarrow> 's handler option) \<Rightarrow> 's rpcs \<times> 's job list \<Rightarrow> bool" where
  "service_inv ps v \<longleftrightarrow> jobs_registered ps v \<and>
     (\<forall>j \<in> set (snd v). at_body (jb_args j) (drop RPC_HEADER_SZ (ubuf (jb_args j))))"

lemma service_inv_begin:
  assumes "service_inv ps (rs, js)" "dispatch_begin c pdu rs = Inr (new, rs')"
  shows "service_inv ps (rs', case new of None \<Rightarrow> js | Some j \<Rightarrow> js @ [j])" "app rs' = app rs"
proof -
  from assms(2) have a: "app rs' = app rs \<and> (\<forall>j. new = Some j \<longrightarrow> at_body (jb_args j) (drop RPC_HEADER_SZ (ubuf (jb_args j))))"
    by (auto simp: dispatch_begin_def Let_def andthen_Inr_iff send_on_def split: prod.splits if_splits option.splits
        dest!: on_heap_core note_conn_core answer_duplicate_core request_body) (auto simp: same_core_def at_body_def)
  then show "app rs' = app rs" ..
  from assms a jobs_begin [of ps rs js c pdu new rs'] show "service_inv ps (rs', case new of None \<Rightarrow> js | Some j \<Rightarrow> js @ [j])"
    by (auto simp: service_inv_def split: option.split)
qed

lemma end_app:
  assumes "dispatch_end b j rs = Inr rs'" "jb_handler j (app rs) (jb_args j) marshall_new = Inr (s, ret, rep)"
  shows "app rs' = s"
  using assms
  by (elim dispatch_endE) (auto simp: same_core_def keep_reply_def take_buf_def send_on_def split: if_splits dest!: on_heap_core)

lemma service_inv_net:
  assumes "net_step peer n s e s'" "service_inv ps (server s)"
  shows "service_inv ps (server s')"
  using assms(1)
proof (cases rule: net_step.cases)
  case (request_arrives d bs c pdu junk rs js new rs')
  with service_inv_begin(1) [of ps rs js] assms(2) show ?thesis by simp
next
  case (other_arrives c pdu rs js new rs')
  with service_inv_begin(1) [of ps rs js] assms(2) show ?thesis by simp
next
  case (runs rs xs j ys b rs' a' ret rep out)
  with assms(2) end_procs [OF runs(5)] show ?thesis by (auto simp: service_inv_def jobs_registered_def)
qed (use assms(2) in \<open>simp_all add: service_inv_def jobs_registered_def\<close>)

abbreviation table_of :: "lock_server net \<Rightarrow> lock_server" where
  "table_of s \<equiv> app (fst (server s))"

text \<open>One step changes the table only by a whole run of \<open>grant\<close> or of \<open>release\<close>.\<close>

definition lock_call :: "u32 \<Rightarrow> i32 \<Rightarrow> u64 \<Rightarrow> i32 \<Rightarrow> net_event \<Rightarrow> bool" where
  "lock_call p i lid ret e \<longleftrightarrow> (\<exists>c x out. e = Ran c x p (enc_u32 i @ enc_u64 lid) ret out)"

lemma service_step:
  assumes "net_step peer n s e s'" "service_inv (lock_procs nonce) (server s)"
  shows "(\<exists>p i lid ret r. lock_call p i lid ret e \<and>
       (p = proc_acquire \<and> grant_handler i lid (table_of s) = Inr (table_of s', ret, r) \<or>
        p = proc_release \<and> release_handler i lid (table_of s) = Inr (table_of s', ret, r))) \<or>
     table_of s' = table_of s \<and> (\<forall>i lid. \<not> lock_call proc_acquire i lid lock_OK e)"
  using assms(1)
proof (cases rule: net_step.cases)
  case (request_arrives d bs c pdu junk rs js new rs')
  with service_inv_begin(2) [of "lock_procs nonce" rs js] assms(2) show ?thesis by (simp add: lock_call_def)
next
  case (other_arrives c pdu rs js new rs')
  with service_inv_begin(2) [of "lock_procs nonce" rs js] assms(2) show ?thesis by (simp add: lock_call_def)
next
  case (runs rs xs j ys b rs' a' ret rep out)
  let ?args = "drop RPC_HEADER_SZ (ubuf (jb_args j))" and ?p = "rq_proc (jb_header j)"
  have t: "table_of s = app rs" "table_of s' = a'" using runs(2,3) end_app [OF runs(5,6)] by simp_all
  from assms(2) runs(3) have j: "lock_procs nonce ?p = Some (jb_handler j)" "at_body (jb_args j) ?args"
    by (auto simp: service_inv_def jobs_registered_def)
  note ran = lock_handler_ran [OF j(2), where s = "app rs" and s' = a' and ret = ret and rep = rep]
  have f: "unmarshal_args_failure \<noteq> lock_OK" by (simp add: unmarshal_args_failure_def lock_OK_def)
  from j(1) consider "?p = proc_acquire" "jb_handler j = h1_fn2 get_int get_ull put_int grant_handler"
    | "?p = proc_release" "jb_handler j = h1_fn2 get_int get_ull put_int release_handler"
    | "?p \<noteq> proc_acquire" "?p = proc_stat" "jb_handler j = h1_fn2 get_int get_ull put_int lock_stat"
    | "?p \<noteq> proc_acquire" "?p = rpc_bind" "jb_handler j = bind_handler nonce"
    by (auto simp: lock_procs_def proc_defs split: if_splits)
  then show ?thesis
  proof cases
    case 1
    with runs(6) ran [of put_int grant_handler marshall_new] t runs(1) f show ?thesis by (auto simp: lock_call_def)
  next
    case 2
    with runs(6) ran [of put_int release_handler marshall_new] t runs(1) f show ?thesis
      by (auto simp: lock_call_def proc_defs)
  next
    case 3
    with runs(6) ran [of put_int lock_stat marshall_new] t runs(1) show ?thesis by (auto simp: lock_call_def lock_stat_def)
  next
    case 4
    with runs(6) t runs(1) show ?thesis by (auto simp: lock_call_def bind_handler_def h1_fn1_def h1_run_def andthen_Inr_iff rpcbind_def split: if_splits)
  qed
qed (simp_all add: lock_call_def)

section \<open>Owners\<close>

lemma grant_handler_effect:
  assumes "grant_handler i lid ls = Inr (ls', ret, r)"
  shows "owner_of ls lid = None \<and> owner_of ls' = (owner_of ls)(lid \<mapsto> i) \<and> ret = lock_OK \<and> grant_enter i lid ls = Inr (Some ls')"
proof -
  from assms have g: "grant_enter i lid ls = Inr (Some ls')" "ret = lock_OK"
    by (auto simp: grant_handler_def andthen_Inr_iff lock_reply_def split: option.splits)
  with table.enter_cases [OF g(1)] show ?thesis by simp
qed

lemma release_handler_effect:
  assumes "release_handler i lid ls = Inr (ls', ret, r)"
  shows "ret = lock_OK \<and> (owner_of ls lid = Some i \<and> owner_of ls' = (owner_of ls)(lid := None) \<or> owner_of ls' = owner_of ls)"
proof -
  from assms obtain sig where g: "release_section i lid ls = Inr (ls', sig)" "ret = lock_OK"
    by (auto simp: release_handler_def andthen_Inr_iff lock_reply_def)
  from table.rel_cases [OF g(1)] g(2) show ?thesis by (auto split: if_splits)
qed

lemma lock_call_unique: "lock_call p i k ret e \<Longrightarrow> lock_call q j l ret' e \<Longrightarrow> p = q \<and> i = j \<and> k = l \<and> ret = ret'"
  by (auto simp: lock_call_def lock_args_inj)

lemma owner_step:
  assumes "net_step peer n s e s'" "service_inv (lock_procs nonce) (server s)"
  shows "lock_call proc_acquire i lid lock_OK e \<Longrightarrow> owner_of (table_of s) lid = None \<and> owner_of (table_of s') lid = Some i"
    "owner_of (table_of s) lid = Some i \<Longrightarrow> owner_of (table_of s') lid = Some i \<or> lock_call proc_release i lid lock_OK e"
proof -
  note st = service_step [OF assms]
  show "owner_of (table_of s) lid = None \<and> owner_of (table_of s') lid = Some i" if a: "lock_call proc_acquire i lid lock_OK e"
  proof -
    from st a obtain p j k ret r where "lock_call p j k ret e"
      "p = proc_acquire \<and> grant_handler j k (table_of s) = Inr (table_of s', ret, r) \<or>
       p = proc_release \<and> release_handler j k (table_of s) = Inr (table_of s', ret, r)" by blast
    with lock_call_unique [OF this(1) a] have "grant_handler i lid (table_of s) = Inr (table_of s', ret, r)" by (auto simp: proc_defs)
    from grant_handler_effect [OF this] show ?thesis by simp
  qed
  show "owner_of (table_of s') lid = Some i \<or> lock_call proc_release i lid lock_OK e" if o: "owner_of (table_of s) lid = Some i"
    using st
  proof (elim disjE exE conjE)
    fix p j k ret r
    assume p: "lock_call p j k ret e" "p = proc_acquire" "grant_handler j k (table_of s) = Inr (table_of s', ret, r)"
    from grant_handler_effect [OF p(3)] o show ?thesis by auto
  next
    fix p j k ret r
    assume p: "lock_call p j k ret e" "p = proc_release" "release_handler j k (table_of s) = Inr (table_of s', ret, r)"
    from release_handler_effect [OF p(3)] o p(1,2) show ?thesis by (cases "k = lid") auto
  qed (use o in simp)
qed

lemma service_inv_run: "net_run peer n s es s' \<Longrightarrow> service_inv ps (server s) \<Longrightarrow> service_inv ps (server s')"
  by (induction rule: net_run.induct) (auto intro: service_inv_net)

lemma owner_kept_net:
  "net_run peer n s es s' \<Longrightarrow> service_inv (lock_procs nonce) (server s) \<Longrightarrow> owner_of (table_of s) lid = Some i \<Longrightarrow>
     \<forall>e \<in> set es. \<not> lock_call proc_release i lid lock_OK e \<Longrightarrow> owner_of (table_of s') lid = Some i"
proof (induction rule: net_run.induct)
  case (net_next es t e t')
  then have "owner_of (table_of t) lid = Some i" "service_inv (lock_procs nonce) (server t)" by (auto intro: service_inv_run)
  from owner_step(2) [OF net_next.hyps(2) this(2,1)] net_next.prems(3) show ?case by auto
qed simp

lemma net_run_split:
  "net_run peer n s0 es s \<Longrightarrow> es = xs @ ys \<Longrightarrow> \<exists>t. net_run peer n s0 xs t \<and> net_run peer n t ys s"
proof (induction arbitrary: ys rule: net_run.induct)
  case net_start
  then show ?case by (auto intro: net_run.net_start)
next
  case (net_next es s e s')
  show ?case
  proof (cases ys rule: rev_cases)
    case Nil
    with net_next.prems net_run.net_next [OF net_next.hyps] show ?thesis by (auto intro: net_run.net_start)
  next
    case (snoc zs z)
    with net_next.prems net_next.IH [of zs] net_next.hyps(2) show ?thesis by (auto intro: net_run.net_next)
  qed
qed

lemma net_run_Cons_split:
  assumes "net_run peer n s0 (xs @ e # ys) s"
  obtains t u where "net_run peer n s0 xs t" "net_step peer n t e u" "net_run peer n u ys s"
proof -
  from net_run_split [OF assms, of "xs @ [e]" ys] obtain u where u: "net_run peer n s0 (xs @ [e]) u" "net_run peer n u ys s" by auto
  from u(1) obtain t where "net_run peer n s0 xs t" "net_step peer n t e u" by (auto elim: net_run.cases)
  then show thesis by (rule that [OF _ _ u(2)])
qed

lemma lock_net_start:
  assumes "lock_smain nonce cnt = Inr rs"
  shows "service_inv (lock_procs nonce) (rs, [])" "\<lparr>client = clt_init True n, server = (rs, [])\<rparr> = net_init n nonce cnt (lock_procs nonce) lock_server_new"
  using assms by (auto simp: lock_smain_registers service_inv_def jobs_registered_def net_init_def)

lemma exclusive:
  assumes "net_run peer n s0 (pre @ e # mid @ f # post) s" "service_inv (lock_procs nonce) (server s0)"
    and "lock_call proc_acquire i lid lock_OK e" "lock_call proc_acquire j lid lock_OK f"
  shows "\<exists>d \<in> set mid. lock_call proc_release i lid lock_OK d"
proof (rule ccontr)
  assume no: "\<not> ?thesis"
  from assms(1) obtain t u where t: "net_run peer n s0 pre t" "net_step peer n t e u" "net_run peer n u (mid @ f # post) s"
    by (rule net_run_Cons_split)
  from t(3) obtain v w where v: "net_run peer n u mid v" "net_step peer n v f w" by (rule net_run_Cons_split)
  from t(1) assms(2) have it: "service_inv (lock_procs nonce) (server t)" by (rule service_inv_run)
  from t(2) it have iu: "service_inv (lock_procs nonce) (server u)" by (rule service_inv_net)
  from v(1) iu have iv: "service_inv (lock_procs nonce) (server v)" by (rule service_inv_run)
  from owner_step(1) [OF t(2) it assms(3)] have "owner_of (table_of u) lid = Some i" ..
  from owner_kept_net [OF v(1) iu this] no have "owner_of (table_of v) lid = Some i" by blast
  with owner_step(1) [OF v(2) iv assms(4)] show False by simp
qed

section \<open>The monitor behind the handlers\<close>

text \<open>
  The events of a history of the monitor as runs of whole handlers, one after the other; a
  thread that blocks has no effect.
\<close>

fun serve :: "lock_event list \<Rightarrow> lock_server \<Rightarrow> lock_server outcome" where
  "serve [] ls = Inr ls"
| "serve (Granted t c lid # es) ls = andthen (grant_handler c lid ls) (\<lambda>(ls, _). serve es ls)"
| "serve (Blocked t c lid # es) ls = (if grant_handler c lid ls = Inl Not_yet then serve es ls else Inl Assert_failed)"
| "serve (Released t c lid # es) ls = andthen (release_handler c lid ls) (\<lambda>(ls, _). serve es ls)"
| "serve (Refused t c lid # es) ls = andthen (release_handler c lid ls) (\<lambda>(ls, _). serve es ls)"
| "serve (Spurious t # es) ls = serve es ls"

lemma serve_append: "serve (es @ fs) ls = andthen (serve es ls) (serve fs)"
  by (induction es ls rule: serve.induct) (auto simp: andthen_def split: sum.split)

lemma grant_again:
  assumes "monitor_inv m" "parked m t = Some (c, l, w)"
  shows "grant_test c l (locks m) = grant_enter c l (locks m)"
  using monitor_invD(1) [OF assms] by (rule table.retest_enter)

lemma serve_step:
  assumes "monitor_step m e m'" "monitor_inv m"
  shows "serve [e] (locks m) = Inr (locks m')"
  using assms(1)
proof (cases rule: monitor_step.cases)
  case (retest_granted t c l ls)
  with grant_again [OF assms(2) retest_granted(3)] have "grant_enter c l (locks m) = Inr (Some ls)" by simp
  with retest_granted show ?thesis by (simp add: grant_handler_def lock_reply_def)
next
  case (retest_blocked t c l)
  with grant_again [OF assms(2) retest_blocked(3)] have "grant_enter c l (locks m) = Inr None" by simp
  with retest_blocked show ?thesis by (simp add: grant_handler_def)
qed (simp_all add: grant_handler_def release_handler_def lock_reply_def)

section \<open>Calls over a network that works\<close>

lemma lock_body: "\<exists>req. lock_request cl lid = Inr req \<and> body req (enc_u32 (rpcc_id cl) @ enc_u64 lid)"
proof -
  have p: "puts (\<lambda>m. andthen (put_uint (rpcc_id cl) m) (put_ull lid)) (enc_u32 (rpcc_id cl) @ enc_u64 lid)"
    by (rule puts_andthen uint_codec.put_enc ull_codec.put_enc TrueI)+
  from puts_new [OF p] show ?thesis by (simp add: lock_request_def call_req2_def int_max_def)
qed

lemma int_reply: "\<exists>rep. put_int r marshall_new = Inr rep \<and> body rep (enc_u32 r)"
  using puts_new [OF int_codec.put_enc, of r] by (simp add: int_max_def)

lemma lock_handler_runs:
  assumes "at_body u (enc_u32 i @ enc_u64 lid)" "meth i lid ls = Inr (ls', ret, r)" "put_int r marshall_new = Inr rep"
  shows "h1_fn2 get_int get_ull put_int meth ls u marshall_new = Inr (ls', ret, rep)"
proof -
  have g: "gets (args2 get_int get_ull) (enc_u32 i @ enc_u64 lid @ []) (i, lid)"
    unfolding args2_def [abs_def] by (rule gets_andthen [OF int_codec.get_enc] gets_andthen [OF ull_codec.get_enc] gets_return TrueI)+
  with h1_run_hit [OF assms(1), of "args2 get_int get_ull" "(i, lid)" put_int "\<lambda>(x, y). meth x y" ls marshall_new] assms(2,3)
  show ?thesis by (simp add: h1_fn2_def int_max_def)
qed

text \<open>Client 7 acquires lock 1 of a new server.\<close>

lemma grant_new: "grant_handler i lid lock_server_new = Inr (put_lock lid (snd (Set_Locked i (lock_new lid))) lock_server_new, 0, 0)"
  by (simp add: grant_handler_def grant_enter_def lock_server_new_def lock_reply_def put_lock_def lock_OK_def)

lemma first_acquire:
  "\<exists>req msg es s s' un. lock_request (rpcc_new True 7) 1 = Inr req \<and>
     net_run (\<lambda>_. 7) 7 (net_init 7 99 0 (lock_procs 99) lock_server_new) es s \<and>
     net_step (\<lambda>_. 7) 7 s (Client (Returned 0 1 0 un)) s' \<and> begun (client_part es) = [1] \<and>
     Client (Begun 0 1 msg) \<in> set es \<and> pack_req_header (first_header 7 99 proc_acquire) req = Inr msg"
proof -
  from lock_body [of "rpcc_new True 7" 1] obtain req where
    req: "lock_request (rpcc_new True 7) 1 = Inr req" "body req (enc_u32 7 @ enc_u64 1)" by (auto simp: rpcc_id_def rpcc_new_def)
  from int_reply obtain rep where rep: "put_int 0 marshall_new = Inr rep" "body rep (enc_u32 0)" by blast
  have ps: "lock_procs 99 proc_acquire = Some (h1_fn2 get_int get_ull put_int grant_handler)" by (simp add: lock_procs_def proc_defs)
  from first_call [where n = 7 and p = proc_acquire and ps = "lock_procs 99" and peer = "\<lambda>_. 7" and nonce = 99 and ret = 0,
      OF _ _ ps req(2) refl lock_handler_runs [where meth = grant_handler, OF _ grant_new rep(1)] _ rep(2)]
    req(1) show ?thesis by (force simp: proc_defs)
qed

text \<open>
  A request of a client without a nonce, from its arrival to the end of its run: the heap of
  connections is whatever it needs to be.
\<close>

definition visitor_header :: "u32 \<Rightarrow> req_header" where
  "visitor_header p = \<lparr>rq_xid = 1, rq_proc = p, rq_clt_nonce = 0, rq_srv_nonce = 0, rq_xid_rep = 0\<rparr>"

definition calm :: "(u32 \<Rightarrow> 's handler option) \<Rightarrow> 's net \<Rightarrow> 's \<Rightarrow> bool" where
  "calm ps s a \<longleftrightarrow> (\<exists>rs. server s = (rs, []) \<and> procs rs = ps \<and> app rs = a \<and> counting rs = 0 \<and> live (replies rs) = (\<lambda>_. False))"

lemma visitor_call:
  assumes "calm ps s a" "ps p = Some f" "peer c = 0" "n \<noteq> 0" "body req args"
    and "\<And>u. at_body u args \<Longrightarrow> f a u marshall_new = Inr (a', ret, rep)" "0 \<le>s ret" "body rep out"
  shows "\<exists>pdu s'. net_run peer n s [Elsewhere, Arrives c pdu, Ran 0 1 p args ret out] s' \<and> calm ps s' a'"
proof -
  let ?h = "visitor_header p"
  from assms(1) obtain rs where rs: "server s = (rs, [])" "procs rs = ps" "app rs = a" "counting rs = 0" "live (replies rs) = (\<lambda>_. False)"
    by (auto simp: calm_def)
  from pack_req_header_sent [OF assms(5), of ?h] obtain msg where msg: "sent msg (enc_req_header ?h) args" by blast
  let ?pdu = "wire (\<lambda>_. 0) (length (written msg)) (written msg)"
  from carries_request [OF sent_carries(1) [OF msg], of "\<lambda>_. 0"] obtain u where
    u: "unpack_req_header (unmarshall_of ?pdu) = (?h, u)" "at_body u args" by auto
  let ?j = "\<lparr>jb_conn = c, jb_header = ?h, jb_args = u, jb_handler = f\<rparr>"
  let ?rs = "rs\<lparr>heap := served_heap c\<rparr>"
  let ?s = "\<lambda>v. s\<lparr>server := v\<rparr>"
  have 1: "net_step peer n s Elsewhere (?s (?rs, []))" using rs(1) by (rule net_step.elsewhere)
  have "dispatch_begin c ?pdu ?rs = Inr (Some ?j, ?rs)"
    using u rs(2) assms(2) by (simp add: dispatch_begin_def visitor_header_def at_body_def)
  then have 2: "net_step peer n (?s (?rs, [])) (Arrives c ?pdu) (?s (?rs, [?j]))"
    using net_step.other_arrives [of peer c n ?pdu "?s (?rs, [])" ?rs "[]" "Some ?j" ?rs] assms(3,4) u(1)
    by (simp add: own_nonce_def client_ok_def visitor_header_def)
  from pack_reply_header_sent [OF assms(8), of "\<lparr>rp_xid = 1, rp_ret = ret\<rparr>"] obtain m where
    m: "pack_reply_header \<lparr>rp_xid = 1, rp_ret = ret\<rparr> rep = Inr m" by blast
  obtain rs' where rs': "dispatch_end 0 ?j ?rs = Inr rs'" "procs rs' = ps" "app rs' = a'" "counting rs' = 0" "live (replies rs') = (\<lambda>_. False)"
    using rs assms(6) [OF u(2)] assms(7) m
    by (simp add: dispatch_end_def visitor_header_def count_request_def keep_reply_def take_buf_def latest_conn_def
        isdead_def on_heap_def decref_def Let_def connection_new_def send_on_def served_heap_def)
  have 3: "net_step peer n (?s (?rs, [?j])) (Ran 0 1 p args ret out) (?s (rs', []))"
    using net_step.runs [of "?s (?rs, [?j])" ?rs "[]" ?j "[]" 0 rs' a' ret rep out peer n] rs(3,5) rs'(1) assms(6) [OF u(2)] assms(8) u(2)
    by (simp add: job_key_def visitor_header_def at_body_def)
  from net_run.net_next [OF net_run.net_next [OF net_run.net_next [OF net_run.net_start 1] 2] 3] rs' show ?thesis
    by (intro exI [of _ ?pdu] exI [of _ "?s (rs', [])"]) (simp add: calm_def)
qed

lemma lock_visit:
  assumes "calm (lock_procs 99) s ls" "lock_procs 99 p = Some (h1_fn2 get_int get_ull put_int meth)" "meth i lid ls = Inr (ls', lock_OK, r)"
  shows "\<exists>pre e s'. net_run (\<lambda>_. 0) 7 s (pre @ [e]) s' \<and> calm (lock_procs 99) s' ls' \<and> lock_call p i lid lock_OK e"
proof -
  from lock_body [of "rpcc_new True i" lid] obtain req where req: "body req (enc_u32 i @ enc_u64 lid)" by (auto simp: rpcc_id_def rpcc_new_def)
  from int_reply obtain rep where rep: "put_int r marshall_new = Inr rep" "body rep (enc_u32 r)" by blast
  from visitor_call [where peer = "\<lambda>_. 0" and c = 0 and n = 7, OF assms(1,2) refl _ req lock_handler_runs [where meth = meth, OF _ assms(3) rep(1)] _ rep(2)]
  obtain pdu s' where "net_run (\<lambda>_. 0) 7 s ([Elsewhere, Arrives 0 pdu] @ [Ran 0 1 p (enc_u32 i @ enc_u64 lid) lock_OK (enc_u32 r)]) s'"
    "calm (lock_procs 99) s' ls'" by (auto simp: lock_OK_def)
  then show ?thesis unfolding lock_call_def by blast
qed

section \<open>Properties\<close>

text \<open>
  C4: what the dispatch threads may take for granted of the blocking handlers. Every history
  of the monitor, with its threads that sleep, are woken and race for the mutex, has the
  effect on the table that whole runs of the handlers have, one after the other in the order
  in which they finish; a call that blocks finds the handler not runnable.
\<close>

theorem monitor_serves_atomically:
  assumes "monitor_run monitor_init es m"
  shows "serve es lock_server_new = Inr (locks m)"
  using assms
proof (induction es arbitrary: m rule: rev_induct)
  case Nil
  then have "m = monitor_init" by (auto elim: monitor_run.cases)
  then show ?case by (simp add: monitor_init_def)
next
  case (snoc e es)
  from snoc.prems obtain m1 where m1: "monitor_run monitor_init es m1" "monitor_step m1 e m" by (rule monitor_run_last)
  from serve_step [OF m1(2) run_inv [OF m1(1) monitor_inv_init]] snoc.IH [OF m1(1)] show ?case by (simp add: serve_append)
qed

text \<open>
  C5: mutual exclusion across the network. Whatever the clients send and the network does,
  between two runs of \<open>acquire\<close> for the same lock the server ran a \<open>release\<close> of that lock for
  the first of the two.
\<close>

theorem service_excludes:
  assumes "lock_smain nonce cnt = Inr rs"
    and "net_run peer n \<lparr>client = clt_init True n, server = (rs, [])\<rparr> (pre @ e # mid @ f # post) s"
    and "lock_call proc_acquire i lid lock_OK e" "lock_call proc_acquire j lid lock_OK f"
  shows "\<exists>d \<in> set mid. lock_call proc_release i lid lock_OK d"
  using exclusive [OF assms(2) _ assms(3,4)] lock_net_start(1) [OF assms(1)] by simp

text \<open>
  C1: a client that is told it has a lock has it. When a call of \<open>acquire\<close> comes back with a
  code that is not negative, the assertion of \<open>lock_client\<close> holds, the server granted the
  lock to the client's number in exactly one run, and no later run of \<open>acquire\<close> for that lock,
  by whomever, comes before a \<open>release\<close> for that number.
\<close>

theorem client_holds_lock:
  assumes "lock_smain nonce cnt = Inr rs"
    and "net_run peer n \<lparr>client = clt_init True n, server = (rs, [])\<rparr> es s" "n \<noteq> 0" "length (begun (client_part es)) < 2 ^ 32 - 1"
    and "Client (Begun b x msg) \<in> set es" "lock_request cl lid = Inr req" "pack_req_header h req = Inr msg" "rq_proc h = proc_acquire"
    and "net_step peer n s (Client (Returned t x ret un)) s'" "0 \<le>s ret"
  shows "(\<exists>r. lock_result ret un r0 = Inr r) \<and>
    (\<exists>pre e post. es = pre @ e # post \<and> lock_call proc_acquire (rpcc_id cl) lid lock_OK e \<and>
       filter (\<lambda>e. server_of e = [Runs n x]) es = [e] \<and>
       (\<forall>mid f rest j. post = mid @ f # rest \<and> lock_call proc_acquire j lid lock_OK f \<longrightarrow>
          (\<exists>d \<in> set mid. lock_call proc_release (rpcc_id cl) lid lock_OK d)))"
proof -
  note start = lock_net_start [OF assms(1)]
  note req = assms(6) [unfolded lock_request_def]
  from call2_ran [OF assms(2) [unfolded start(2)] assms(3-5) req assms(7,9,10) uint_codec.codec_axioms ull_codec.codec_axioms]
  obtain out where c: "at_body un out" "handled (lock_procs nonce) proc_acquire (enc_u32 (rpcc_id cl) @ enc_u64 lid) ret out"
    "filter (\<lambda>e. server_of e = [Runs n x]) es = [Ran n x proc_acquire (enc_u32 (rpcc_id cl) @ enc_u64 lid) ret out]"
    using assms(8) by (auto simp: int_max_def)
  have "lock_procs nonce proc_acquire = Some (h1_fn2 get_int get_ull put_int grant_handler)" by (simp add: lock_procs_def proc_defs)
  from handled_method2 [OF c(2) this int_codec.codec_axioms ull_codec.codec_axioms] obtain \<sigma> \<sigma>' r rep where
    r: "grant_handler (rpcc_id cl) lid \<sigma> = Inr (\<sigma>', ret, r)" "put_int r marshall_new = Inr rep" "body rep out" by (auto simp: int_max_def)
  from grant_handler_effect [OF r(1)] have ret: "ret = lock_OK" by simp
  from reply_read [OF int_codec.codec_axioms _ _ r(2,3) c(1) assms(10)] ret have "lock_result ret un r0 = Inr r"
    by (simp add: lock_result_def int_max_def)
  moreover
  let ?e = "Ran n x proc_acquire (enc_u32 (rpcc_id cl) @ enc_u64 lid) ret out"
  have e: "lock_call proc_acquire (rpcc_id cl) lid lock_OK ?e" using ret by (auto simp: lock_call_def)
  from c(3) have "?e \<in> set (filter (\<lambda>e. server_of e = [Runs n x]) es)" by simp
  then have "?e \<in> set es" by simp
  then obtain pre post where es: "es = pre @ ?e # post" by (auto dest: split_list)
  have "\<exists>d \<in> set mid. lock_call proc_release (rpcc_id cl) lid lock_OK d"
    if "post = mid @ f # rest" "lock_call proc_acquire j lid lock_OK f" for mid f rest j
    using exclusive [OF assms(2) [unfolded es that(1)] _ e that(2)] start(1) by simp
  ultimately show ?thesis using es e c(3) by blast
qed

text \<open>
  A \<open>lock_client\<close> whose \<open>bind\<close> failed is constructed all the same, and its first call of any
  kind ends the program: \<open>call1\<close> refuses to send, and the assertion of the method fails, as it
  does for every error of a call.
\<close>

lemma unbound_client_aborts:
  assumes "lock_client_new inet resolve dst random ret r = Inr (Some (d, cl))" "ret <s 0" "p \<in> {proc_stat, proc_acquire, proc_release}"
  shows "call_begin a p req un cl = Inr (Inl bind_failure, cl) \<and> lock_result bind_failure un' r0 = Inl Assert_failed"
proof -
  from assms(2) have "ret \<noteq> 0" by auto
  with assms(1) have "\<not> bind_done cl"
    by (auto simp: lock_client_new_def andthen_Inr_iff bind_end_def rpcc_new_def)
  with assms(3) show ?thesis
    by (auto simp: call_begin_def proc_defs lock_result_def call_m_def bind_failure_def lock_OK_def word_sless_alt)
qed

theorem monitor_serves_atomically_witness:
  "serve [Granted 0 5 1, Blocked 1 6 1, Released 0 5 1, Granted 1 6 1] lock_server_new = Inr (locks handed_monitor)"
  by (rule monitor_serves_atomically [OF handed_run])


text \<open>Client 5 acquires and releases lock 1, then client 6 acquires it.\<close>

theorem service_excludes_witness:
  "\<exists>rs pre e mid f s. lock_smain 99 0 = Inr rs \<and> net_run (\<lambda>_. 0) 7 \<lparr>client = clt_init True 7, server = (rs, [])\<rparr> (pre @ e # mid @ [f]) s \<and>
     lock_call proc_acquire 5 1 lock_OK e \<and> lock_call proc_acquire 6 1 lock_OK f \<and> (\<exists>d \<in> set mid. lock_call proc_release 5 1 lock_OK d)"
proof -
  obtain rs where rs: "lock_smain 99 0 = Inr rs" by (simp add: lock_smain_registers)
  let ?s = "\<lparr>client = clt_init True 7, server = (rs, [])\<rparr>"
  have 0: "calm (lock_procs 99) ?s lock_server_new"
    using rs by (auto simp: calm_def lock_smain_registers rpcs_new_def reply_state_init_def)
  have p: "lock_procs 99 proc_acquire = Some (h1_fn2 get_int get_ull put_int grant_handler)"
    "lock_procs 99 proc_release = Some (h1_fn2 get_int get_ull put_int release_handler)" by (simp_all add: lock_procs_def proc_defs)
  let ?l1 = "put_lock 1 (snd (Set_Locked 5 (lock_new 1))) lock_server_new"
  let ?l2 = "put_lock 1 (Set_Free (snd (Set_Locked 5 (lock_new 1)))) ?l1"
  let ?l3 = "put_lock 1 (snd (Set_Locked 6 (Set_Free (snd (Set_Locked 5 (lock_new 1)))))) ?l2"
  have g: "grant_handler 5 1 lock_server_new = Inr (?l1, lock_OK, 0)" by (simp add: grant_new lock_OK_def)
  have r: "release_handler 5 1 ?l1 = Inr (?l2, lock_OK, 0)"
    by (simp add: release_handler_def lock_defs lock_reply_def lock_server_new_def)
  have h: "grant_handler 6 1 ?l2 = Inr (?l3, lock_OK, 0)"
    by (simp add: grant_handler_def lock_defs lock_reply_def lock_server_new_def)
  from lock_visit [OF 0 p(1) g] obtain pre e s1 where 1: "net_run (\<lambda>_. 0) 7 ?s (pre @ [e]) s1" "calm (lock_procs 99) s1 ?l1"
    "lock_call proc_acquire 5 1 lock_OK e" by blast
  from lock_visit [OF 1(2) p(2) r] obtain mid d s2 where 2: "net_run (\<lambda>_. 0) 7 s1 (mid @ [d]) s2" "calm (lock_procs 99) s2 ?l2" by blast
  from lock_visit [OF 2(2) p(1) h] obtain mid' f s3 where 3: "net_run (\<lambda>_. 0) 7 s2 (mid' @ [f]) s3" "lock_call proc_acquire 6 1 lock_OK f" by blast
  from net_run_append [OF net_run_append [OF 3(1) 2(1)] 1(1)]
  have run: "net_run (\<lambda>_. 0) 7 ?s (pre @ e # (mid @ d # mid') @ f # []) s3" by simp
  from service_excludes [OF rs run 1(3) 3(2)] rs run 1(3) 3(2) show ?thesis by blast
qed

theorem client_holds_lock_witness:
  "\<exists>rs es s un s'. lock_smain 99 0 = Inr rs \<and> net_run (\<lambda>_. 7) 7 \<lparr>client = clt_init True 7, server = (rs, [])\<rparr> es s \<and>
     net_step (\<lambda>_. 7) 7 s (Client (Returned 0 1 0 un)) s' \<and> (\<exists>r. lock_result 0 un 0 = Inr r) \<and>
     (\<exists>e. filter (\<lambda>e. server_of e = [Runs 7 1]) es = [e] \<and> lock_call proc_acquire 7 1 lock_OK e)"
proof -
  obtain rs where rs: "lock_smain 99 0 = Inr rs" by (simp add: lock_smain_registers)
  from first_acquire obtain req msg es s s' un where
    a: "lock_request (rpcc_new True 7) 1 = Inr req" "net_run (\<lambda>_. 7) 7 (net_init 7 99 0 (lock_procs 99) lock_server_new) es s"
      "net_step (\<lambda>_. 7) 7 s (Client (Returned 0 1 0 un)) s'" "begun (client_part es) = [1]" "Client (Begun 0 1 msg) \<in> set es"
      "pack_req_header (first_header 7 99 proc_acquire) req = Inr msg" by blast
  note run = a(2) [folded lock_net_start(2) [OF rs]]
  from client_holds_lock [OF rs run _ _ a(5,1,6) _ a(3), of 0] a(4)
  have "\<exists>r. lock_result 0 un 0 = Inr r" "\<exists>e. filter (\<lambda>e. server_of e = [Runs 7 1]) es = [e] \<and> lock_call proc_acquire 7 1 lock_OK e"
    by (auto simp: first_header_def rpcc_id_def rpcc_new_def)
  with rs run a(3) show ?thesis by blast
qed

lemma unbound_client_aborts_witness:
  "\<exists>cl. lock_client_new (\<lambda>_. Some 16777343) (\<lambda>_. None) [50, 48] 7 timeout_failure 0 = Inr (Some (Sockaddr 16777343 (htons 20), cl)) \<and>
     call_begin 0 proc_acquire marshall_new unmarshall_empty cl = Inr (Inl bind_failure, cl)"
proof -
  let ?cl = "rpcc_new True 7"
  have 1: "lock_client_new (\<lambda>_. Some 16777343) (\<lambda>_. None) [50, 48] 7 timeout_failure 0 = Inr (Some (Sockaddr 16777343 (htons 20), ?cl))"
    using atoi_digits [of "[50, 48]"]
    by (simp add: lock_client_new_def make_sockaddr_def make_sockaddr2_def colon_def digits_value_def is_digit_def int_max_def bind_end_def timeout_failure_def)
  from unbound_client_aborts [OF 1, of proc_acquire 0 marshall_new unmarshall_empty] 1 show ?thesis
    by (auto simp: timeout_failure_def word_sless_alt)
qed

end
