(* ===== verification/TesterMain.thy ===== *)
theory TesterMain
  imports LockTester Listener
begin

text \<open>
  \<open>main\<close> of \<open>lock_tester.cc\<close>: the tests one after the other against one server, each with its
  threads, which \<open>main\<close> starts and joins.
\<close>

section \<open>main\<close>

record phase =
  ph_threads :: nat
  ph_prog :: "lt_op list"
  ph_client :: "nat \<Rightarrow> nat"

definition nt :: nat where "nt = 10"

text \<open>The arguments: \<^term>\<open>None\<close> is the end of the process by \<open>exit(1)\<close>, \<open>0\<close> stands for all tests.\<close>

definition chosen_test :: "u8 list list \<Rightarrow> int option outcome" where
  "chosen_test argv =
     (if length argv < 2 then Inr None
      else if 2 < length argv then
        andthen (atoi (argv ! 2)) (\<lambda>test. Inr (if test < 1 \<or> 5 < test then None else Some test))
      else Inr (Some 0))"

definition tester_main :: "int \<Rightarrow> phase list" where
  "tester_main test =
     (if test = 0 \<or> test = 1 then [\<lparr>ph_threads = 1, ph_prog = test1, ph_client = (\<lambda>_. 0)\<rparr>] else []) @
     (if test = 0 \<or> test = 2 then [\<lparr>ph_threads = nt, ph_prog = test2, ph_client = client_test2\<rparr>] else []) @
     (if test = 0 \<or> test = 3 then [\<lparr>ph_threads = nt, ph_prog = test3, ph_client = client_test3\<rparr>] else []) @
     (if test = 0 \<or> test = 4 then [\<lparr>ph_threads = 2, ph_prog = test4, ph_client = client_test4\<rparr>] else []) @
     (if test = 0 \<or> test = 5 then [\<lparr>ph_threads = nt, ph_prog = test5, ph_client = client_test5\<rparr>] else [])"

text \<open>The threads of a phase are started on what the phase before left; \<open>nonce\<close> are the numbers of the clients.\<close>

definition enter :: "phase \<Rightarrow> tester \<Rightarrow> tester" where
  "enter ph s = s\<lparr>prog := (\<lambda>_. ph_prog ph), stat := (\<lambda>_. Local)\<rparr>"

definition joined_all :: "phase \<Rightarrow> tester \<Rightarrow> bool" where
  "joined_all ph s \<longleftrightarrow> (\<forall>i < ph_threads ph. prog s i = [] \<and> stat s i = Local)"

definition client_ids :: "(nat \<Rightarrow> i32) \<Rightarrow> phase \<Rightarrow> nat \<Rightarrow> i32" where
  "client_ids nonce ph i = nonce (ph_client ph i)"

definition main_start :: "phase list \<Rightarrow> nat \<times> tester" where
  "main_start phs = (0, enter (phs ! 0) (tester_init (\<lambda>_. [])))"

inductive main_step :: "nat \<Rightarrow> (nat \<Rightarrow> i32) \<Rightarrow> phase list \<Rightarrow> nat \<times> tester \<Rightarrow> nat \<times> tester \<Rightarrow> bool" for w nonce phs where
  thread_step: "k < length phs \<Longrightarrow> tester_step w (ph_threads (phs ! k)) (client_ids nonce (phs ! k)) s s' \<Longrightarrow>
     main_step w nonce phs (k, s) (k, s')"
| next_test: "Suc k < length phs \<Longrightarrow> joined_all (phs ! k) s \<Longrightarrow>
     main_step w nonce phs (k, s) (Suc k, enter (phs ! Suc k) s)"

inductive main_run :: "nat \<Rightarrow> (nat \<Rightarrow> i32) \<Rightarrow> phase list \<Rightarrow> nat \<times> tester \<Rightarrow> nat \<times> tester \<Rightarrow> bool" for w nonce phs where
  main_stays: "main_run w nonce phs v v"
| main_steps: "main_run w nonce phs v v' \<Longrightarrow> main_step w nonce phs v' v'' \<Longrightarrow> main_run w nonce phs v v''"

definition passed_all :: "phase list \<Rightarrow> nat \<times> tester \<Rightarrow> bool" where
  "passed_all phs v \<longleftrightarrow> Suc (fst v) = length phs \<and> joined_all (phs ! fst v) (snd v) \<and> \<not> failed (snd v)"

section \<open>Between two tests\<close>

text \<open>Nobody holds a lock or waits for one, and the counters are back at zero.\<close>

definition clean :: "tester \<Rightarrow> bool" where
  "clean s \<longleftrightarrow> monitor_inv (mon s) \<and> owner (mon s) = (\<lambda>_. None) \<and> keys (mon s) = (\<lambda>_. None) \<and>
     ct s = (\<lambda>_. 0) \<and> \<not> failed s"

lemma clean_init: "clean (tester_init pr)"
  by (simp add: clean_def tester_init_def monitor_inv_init owner_init fun_eq_iff) (simp add: keys_def monitor_init_def)

lemma enter_rounds:
  assumes "clean s" "rounds (ph_prog ph)" "inj_on slot L" "lid_of ` set (ph_prog ph) \<subseteq> L"
  shows "tester_inv n cid L (enter ph s)"
proof -
  have "inside (ph_prog ph) = None" "counted (ph_prog ph) = None" using assms(2) rounds_inside by auto
  then have "own_ok n cid (owner (mon s)) (\<lambda>_. ph_prog ph)" "ct_ok n (ct s) (\<lambda>_. ph_prog ph)"
    using assms(1) by (auto simp: own_ok_def ct_ok_def clean_def)
  moreover have "wait_ok n cid (keys (mon s)) (\<lambda>_. Local) (\<lambda>_. ph_prog ph)"
    using assms(1) by (simp add: wait_ok_def clean_def)
  ultimately show ?thesis
    using assms by (auto simp: tester_inv_def clean_def names_ok_def rest_of_rounds_def enter_def)
qed

lemma rounds_leave:
  assumes "tester_inv (ph_threads ph) cid L s" "joined_all ph s"
  shows "clean s"
proof -
  note d = tester_invD [OF assms(1)]
  have "owner (mon s) l = None" for l
  proof (rule ccontr)
    assume "owner (mon s) l \<noteq> None"
    with own_okD(3) [OF d(2)] obtain j where "j < ph_threads ph" "inside (prog s j) = Some l" by blast
    with assms(2) show False by (simp add: joined_all_def)
  qed
  moreover have "ct s = (\<lambda>_. 0)" using d(3) assms(2) by (auto simp: ct_ok_def joined_all_def fun_eq_iff)
  moreover have "keys (mon s) i = None" for i
    using wait_okD(1) [OF d(5), of i] assms(2) by (auto simp: joined_all_def)
  ultimately show ?thesis using d(1,8) by (simp add: clean_def fun_eq_iff)
qed

section \<open>A test with one thread\<close>

text \<open>What is left of the program runs to its end, every call returning at once, and leaves all locks free.\<close>

definition solo_inv :: "i32 \<Rightarrow> tester \<Rightarrow> bool" where
  "solo_inv c s \<longleftrightarrow> monitor_inv (mon s) \<and> keys (mon s) = (\<lambda>_. None) \<and> \<not> failed s \<and> stat s 0 \<noteq> Serving \<and>
     (stat s 0 = Sent \<longrightarrow> (\<exists>l p. prog s 0 = Acquire l # p \<or> prog s 0 = Release l # p)) \<and>
     (\<exists>ls. run_alone c (prog s 0) (locks (mon s)) (ct s) = Some (ls, \<lambda>_. 0) \<and> (\<forall>l. owner_of ls l = None))"

lemma keys_none: "keys m = (\<lambda>_. None) \<Longrightarrow> parked m t = None \<and> \<not> sleeps m l t"
  by (auto simp: keys_def sleeps_def fun_eq_iff)

lemma solo_stepE:
  assumes "monitor_step m e m'" "keys m = (\<lambda>_. None)"
  obtains t c l ls where "e = Granted t c l" "grant_enter c l (locks m) = Inr (Some ls)" "m' = m\<lparr>locks := ls\<rparr>"
    | t c l where "e = Blocked t c l" "grant_enter c l (locks m) = Inr None"
    | t c l ls b where "e = Released t c l \<or> e = Refused t c l" "release_section c l (locks m) = Inr (ls, b)" "m' = m\<lparr>locks := ls\<rparr>"
  using assms(1) keys_none [OF assms(2)] by (cases rule: monitor_step.cases) auto

lemma keys_locks [simp]: "keys (m\<lparr>locks := ls\<rparr>) = keys m"
  by (simp add: keys_def)

lemma solo_inv_step:
  assumes "tester_step w 1 cid s s'" "solo_inv (cid 0) s"
  shows "solo_inv (cid 0) s'"
proof -
  from assms(2) have k: "keys (mon s) = (\<lambda>_. None)" and m: "monitor_inv (mon s)" by (simp_all add: solo_inv_def)
  show ?thesis
    using assms(1)
  proof (cases rule: tester_step.cases)
    case (send_call i l p)
    with assms(2) show ?thesis by (auto simp: solo_inv_def)
  next
    case (acquired i l p m')
    from acquired(5) k obtain ls where ls: "grant_enter (cid 0) l (locks (mon s)) = Inr (Some ls)" "m' = (mon s)\<lparr>locks := ls\<rparr>"
      using acquired(2) by (elim solo_stepE) auto
    with acquired assms(2) step_inv [OF m acquired(5)] show ?thesis by (simp add: solo_inv_def)
  next
    case (waits i l p m')
    from waits(5) k have "grant_enter (cid 0) l (locks (mon s)) = Inr None" using waits(2) by (elim solo_stepE) auto
    with waits assms(2) show ?thesis by (simp add: solo_inv_def)
  next
    case (released i l p e m')
    from released(6) k obtain ls b where ls: "release_section (cid 0) l (locks (mon s)) = Inr (ls, b)" "m' = (mon s)\<lparr>locks := ls\<rparr>"
      using released(2,5) by (elim solo_stepE) auto
    with released assms(2) step_inv [OF m released(6)] show ?thesis by (simp add: solo_inv_def)
  next
    case (reply i)
    with assms(2) show ?thesis by (auto simp: solo_inv_def)
  next
    case (spurious_wake i m')
    from this(2) k show ?thesis by (elim solo_stepE) auto
  next
    case (granted i l p)
    with assms(2) show ?thesis by (auto simp: solo_inv_def split: option.splits)
  next
    case (freed i l p)
    with assms(2) show ?thesis by (auto simp: solo_inv_def split: option.splits)
  qed
qed

lemma solo_progress:
  assumes "solo_inv (cid 0) s" "1 \<le> w" "prog s 0 \<noteq> [] \<or> stat s 0 \<noteq> Local"
  shows "\<exists>s'. tester_step w 1 cid s s' \<and> work 1 s' < work 1 s"
proof -
  from assms(1) have k: "keys (mon s) = (\<lambda>_. None)" by (simp add: solo_inv_def)
  note idle = keys_none [OF k]
  consider (replied) "stat s 0 = Replied" | (sent) "stat s 0 = Sent" | (local) x p where "stat s 0 = Local" "prog s 0 = x # p"
    using assms(1,3) by (cases "stat s 0"; cases "prog s 0") (auto simp: solo_inv_def)
  then show ?thesis
  proof cases
    case replied
    from tester_step.reply [OF _ replied, of 1 w cid] replied show ?thesis
      by (intro exI [of _ "s\<lparr>stat := (stat s)(0 := Local)\<rparr>"]) (simp add: work_def weight_def)
  next
    case sent
    have run: "may_run w 1 s 0" using sent assms(2) served_less [of 0 1 s] by (simp add: may_run_def)
    from assms(1) sent obtain l p where "prog s 0 = Acquire l # p \<or> prog s 0 = Release l # p" by (auto simp: solo_inv_def)
    then show ?thesis
    proof
      assume p: "prog s 0 = Acquire l # p"
      with assms(1) obtain ls where "grant_enter (cid 0) l (locks (mon s)) = Inr (Some ls)"
        by (auto simp: solo_inv_def split: sum.splits option.splits)
      from monitor_step.enter_granted [OF _ this] idle have "monitor_step (mon s) (Granted 0 (cid 0) l) ((mon s)\<lparr>locks := ls\<rparr>)" by blast
      from tester_step.acquired [where cid = cid, OF _ run p this] sent p show ?thesis
        by (intro exI [of _ "s\<lparr>mon := (mon s)\<lparr>locks := ls\<rparr>, stat := (stat s)(0 := Replied), prog := (prog s)(0 := p)\<rparr>"])
          (simp add: work_def weight_def)
    next
      assume p: "prog s 0 = Release l # p"
      with assms(1) obtain ls b where ls: "release_section (cid 0) l (locks (mon s)) = Inr (ls, b)"
        by (auto simp: solo_inv_def split: sum.splits)
      obtain e where e: "e = Released 0 (cid 0) l \<or> e = Refused 0 (cid 0) l" "monitor_step (mon s) e ((mon s)\<lparr>locks := ls\<rparr>)"
      proof (cases b)
        case True
        have "\<forall>w. \<not> sleeps (mon s) l w" using idle by simp
        moreover have "release_section (cid 0) l (locks (mon s)) = Inr (ls, True)" using ls True by simp
        ultimately show thesis using monitor_step.release_idle [of "mon s" 0 "cid 0" l ls] idle that [of "Released 0 (cid 0) l"] by simp
      next
        case False
        then have "release_section (cid 0) l (locks (mon s)) = Inr (ls, False)" using ls by simp
        then show thesis using monitor_step.release_refused [of "mon s" 0 "cid 0" l ls] idle that [of "Refused 0 (cid 0) l"] by simp
      qed
      from tester_step.released [where cid = cid, OF _ run p e] sent p show ?thesis
        by (intro exI [of _ "s\<lparr>mon := (mon s)\<lparr>locks := ls\<rparr>, stat := (stat s)(0 := Replied), prog := (prog s)(0 := p)\<rparr>"])
          (simp add: work_def weight_def)
    qed
  next
    case (local x p)
    then show ?thesis
    proof (cases x)
      case (Check_grant l)
      with local assms(1) obtain c where "check_grant l (ct s) = Some c" by (auto simp: solo_inv_def split: option.splits)
      with tester_step.granted [of 0 1 s l p w cid] local Check_grant show ?thesis
        by (intro exI [of _ "s\<lparr>ct := c, prog := (prog s)(0 := p)\<rparr>"]) (simp add: work_def)
    next
      case (Check_release l)
      with local assms(1) obtain c where "check_release l (ct s) = Some c" by (auto simp: solo_inv_def split: option.splits)
      with tester_step.freed [of 0 1 s l p w cid] local Check_release show ?thesis
        by (intro exI [of _ "s\<lparr>ct := c, prog := (prog s)(0 := p)\<rparr>"]) (simp add: work_def)
    qed (use local tester_step.send_call [of 0 1 s _ p w cid] in
        \<open>intro exI [of _ "s\<lparr>stat := (stat s)(0 := Sent)\<rparr>"], simp add: work_def weight_def\<close>)+
  qed
qed

lemma solo_leave:
  assumes "solo_inv c s" "prog s 0 = []"
  shows "clean s"
  using assms by (auto simp: solo_inv_def clean_def fun_eq_iff)

lemma solo_finishes:
  assumes "solo_inv (cid 0) s" "1 \<le> w"
  shows "\<exists>s'. tester_run w 1 cid s s' \<and> prog s' 0 = [] \<and> stat s' 0 = Local"
  using assms(1)
proof (induction "work 1 s" arbitrary: s rule: less_induct)
  case less
  show ?case
  proof (cases "prog s 0 \<noteq> [] \<or> stat s 0 \<noteq> Local")
    case True
    from solo_progress [where cid = cid, OF less.prems assms(2) True] obtain s1 where s1: "tester_step w 1 cid s s1" "work 1 s1 < work 1 s" by blast
    from less.hyps [OF s1(2) solo_inv_step [where cid = cid, OF s1(1) less.prems]] tester_run_trans [OF tester_run.more_step [OF tester_run.no_step s1(1)]]
    show ?thesis by blast
  qed (auto intro: tester_run.no_step)
qed

section \<open>All tests\<close>

definition phase_inv :: "(nat \<Rightarrow> i32) \<Rightarrow> phase \<Rightarrow> tester \<Rightarrow> bool" where
  "phase_inv nonce ph s \<longleftrightarrow>
     (if ph_prog ph = test1 then solo_inv (client_ids nonce ph 0) s
      else tester_inv (ph_threads ph) (client_ids nonce ph) {lock_a} s)"

definition phase_ok :: "phase \<Rightarrow> bool" where
  "phase_ok ph \<longleftrightarrow> (if ph_prog ph = test1 then ph_threads ph = 1
     else rounds (ph_prog ph) \<and> lid_of ` set (ph_prog ph) \<subseteq> {lock_a} \<and> ph_threads ph \<le> nt)"

definition main_ok :: "phase list \<Rightarrow> bool" where
  "main_ok phs \<longleftrightarrow> phs \<noteq> [] \<and> list_all phase_ok phs \<and> list_all (\<lambda>ph. ph_prog ph \<noteq> test1) (tl phs)"

lemma later_not_test1: "main_ok phs \<Longrightarrow> Suc k < length phs \<Longrightarrow> ph_prog (phs ! Suc k) \<noteq> test1"
  by (cases phs) (auto simp: main_ok_def list_all_length)

lemma main_ok_phase: "main_ok phs \<Longrightarrow> k < length phs \<Longrightarrow> phase_ok (phs ! k)"
  by (simp add: main_ok_def list_all_length)

lemma concat_round: "set (concat (replicate (Suc k) (lock_round l))) = set (lock_round l)"
  by (induction k) auto

lemma tests_lids: "lid_of ` set test2 \<subseteq> {lock_a}" "lid_of ` set test3 \<subseteq> {lock_a}" "lid_of ` set test4 \<subseteq> {lock_a}" "lid_of ` set test5 \<subseteq> {lock_a}"
  using concat_round [of 9 lock_a]
  by (simp_all add: test2_def test3_def test4_def test5_def lock_round_def eval_nat_numeral)

lemma not_test1: "test2 \<noteq> test1" "test3 \<noteq> test1" "test4 \<noteq> test1" "test5 \<noteq> test1"
  by (simp_all add: test1_def test2_def test3_def test4_def test5_def lock_round_def eval_nat_numeral)

lemma tester_main_ok: "0 \<le> test \<Longrightarrow> test \<le> 5 \<Longrightarrow> main_ok (tester_main test)"
  using rounds_tests tests_lids not_test1
  by (auto simp: main_ok_def tester_main_def phase_ok_def nt_def)

lemma phase_enter:
  assumes "clean s" "phase_ok ph" "ph_prog ph \<noteq> test1"
  shows "phase_inv nonce ph (enter ph s)"
  using enter_rounds [OF assms(1), of ph "{lock_a}"] assms(2,3) by (simp add: phase_ok_def phase_inv_def)

lemma test1_enter:
  assumes "ph_prog ph = test1"
  shows "phase_inv nonce ph (enter ph (tester_init (\<lambda>_. [])))"
  using assms test1_passes [of "client_ids nonce ph 0"] monitor_inv_init
  by (simp add: phase_inv_def solo_inv_def enter_def tester_init_def monitor_init_def keys_def)

lemma phase_leave: "phase_inv nonce ph s \<Longrightarrow> phase_ok ph \<Longrightarrow> joined_all ph s \<Longrightarrow> clean s"
  using solo_leave [of "client_ids nonce ph 0" s] rounds_leave [of ph "client_ids nonce ph" "{lock_a}" s]
  by (cases "ph_prog ph = test1") (auto simp: phase_inv_def phase_ok_def joined_all_def)

lemma phase_step:
  "tester_step w (ph_threads ph) (client_ids nonce ph) s s' \<Longrightarrow> phase_ok ph \<Longrightarrow> phase_inv nonce ph s \<Longrightarrow> phase_inv nonce ph s'"
  by (auto simp: phase_inv_def phase_ok_def intro: tester_inv_step solo_inv_step split: if_splits)

lemma phase_finishes:
  assumes "phase_inv nonce ph s" "phase_ok ph" "nt \<le> w"
  shows "\<exists>s'. tester_run w (ph_threads ph) (client_ids nonce ph) s s' \<and> joined_all ph s'"
proof (cases "ph_prog ph = test1")
  case True
  with assms solo_finishes [of "client_ids nonce ph" s w] show ?thesis
    by (simp add: phase_inv_def phase_ok_def joined_all_def nt_def)
next
  case False
  with assms tester_finishes [of "ph_threads ph" "client_ids nonce ph" "{lock_a}" s w] show ?thesis
    by (auto simp: phase_inv_def phase_ok_def joined_all_def)
qed

lemma phase_not_failed: "phase_inv nonce ph s \<Longrightarrow> \<not> failed s"
  by (simp add: phase_inv_def solo_inv_def tester_inv_def split: if_splits)

definition main_inv :: "(nat \<Rightarrow> i32) \<Rightarrow> phase list \<Rightarrow> nat \<times> tester \<Rightarrow> bool" where
  "main_inv nonce phs v \<longleftrightarrow> fst v < length phs \<and> phase_inv nonce (phs ! fst v) (snd v)"

lemma main_inv_start:
  assumes "main_ok phs"
  shows "main_inv nonce phs (main_start phs)"
proof -
  from assms have "phs \<noteq> []" "phase_ok (phs ! 0)" using main_ok_phase [of phs 0] by (simp_all add: main_ok_def)
  then show ?thesis
    using test1_enter [of "phs ! 0" nonce] phase_enter [OF clean_init, of "phs ! 0" nonce]
    by (cases "ph_prog (phs ! 0) = test1") (auto simp: main_inv_def main_start_def)
qed

lemma main_inv_step:
  assumes "main_step w nonce phs v v'" "main_ok phs" "main_inv nonce phs v"
  shows "main_inv nonce phs v'"
  using assms(1)
proof (cases rule: main_step.cases)
  case (thread_step k s s')
  with assms(3) phase_step [OF thread_step(4) main_ok_phase [OF assms(2) thread_step(3)]] show ?thesis by (simp add: main_inv_def)
next
  case (next_test k s)
  with assms(3) main_ok_phase [OF assms(2), of k] have "clean s" by (auto simp: main_inv_def intro: phase_leave)
  from phase_enter [OF this main_ok_phase [OF assms(2) next_test(3)] later_not_test1 [OF assms(2) next_test(3)]] next_test
  show ?thesis by (simp add: main_inv_def)
qed

lemma main_inv_run: "main_run w nonce phs v v' \<Longrightarrow> main_ok phs \<Longrightarrow> main_inv nonce phs v \<Longrightarrow> main_inv nonce phs v'"
  by (induction rule: main_run.induct) (auto intro: main_inv_step)

lemma main_run_trans: "main_run w nonce phs v' v'' \<Longrightarrow> main_run w nonce phs v v' \<Longrightarrow> main_run w nonce phs v v''"
  by (induction rule: main_run.induct) (auto intro: main_run.main_steps)

lemma threads_main:
  "tester_run w (ph_threads (phs ! k)) (client_ids nonce (phs ! k)) s s' \<Longrightarrow> k < length phs \<Longrightarrow> main_run w nonce phs (k, s) (k, s')"
  by (induction rule: tester_run.induct) (auto intro: main_run.intros main_step.thread_step)

lemma main_finishes:
  assumes "main_ok phs" "nt \<le> w" "main_inv nonce phs (k, s)"
  shows "\<exists>v. main_run w nonce phs (k, s) v \<and> passed_all phs v"
  using assms(3)
proof (induction "length phs - k" arbitrary: k s rule: less_induct)
  case less
  then have k: "k < length phs" "phase_inv nonce (phs ! k) s" by (simp_all add: main_inv_def)
  from phase_finishes [OF k(2) main_ok_phase [OF assms(1) k(1)] assms(2)] obtain s1 where
    s1: "tester_run w (ph_threads (phs ! k)) (client_ids nonce (phs ! k)) s s1" "joined_all (phs ! k) s1" by blast
  note run = threads_main [OF s1(1) k(1)]
  from main_inv_run [OF run assms(1) less.prems] have inv: "main_inv nonce phs (k, s1)" .
  show ?case
  proof (cases "Suc k < length phs")
    case True
    from main_step.next_test [of k phs s1 w nonce, OF True s1(2)] have st: "main_step w nonce phs (k, s1) (Suc k, enter (phs ! Suc k) s1)" .
    have "length phs - Suc k < length phs - k" using k(1) by simp
    from less.hyps [OF this main_inv_step [OF st assms(1) inv]] obtain v where
      v: "main_run w nonce phs (Suc k, enter (phs ! Suc k) s1) v" "passed_all phs v" by blast
    from main_run_trans [OF v(1) main_run.main_steps [OF run st]] v(2) show ?thesis by blast
  next
    case False
    with k(1) have "Suc k = length phs" by simp
    moreover from inv have "\<not> failed s1" by (auto simp: main_inv_def dest: phase_not_failed)
    ultimately have "passed_all phs (k, s1)" using s1(2) by (simp add: passed_all_def)
    with run show ?thesis by blast
  qed
qed

lemma chosen_test_range: "chosen_test argv = Inr (Some test) \<Longrightarrow> 0 \<le> test \<and> test \<le> 5"
  by (auto simp: chosen_test_def andthen_Inr_iff split: if_splits)

section \<open>Property\<close>

text \<open>
  C23: the lock tester passes. Whichever test its arguments name, or with all of them one after
  the other against the same server, in every interleaving no check has failed so far, and
  with a dispatch thread for each of the ten callers the run can be brought to the end of the
  last test with no check failed.
\<close>

theorem tester_main_passes:
  assumes "chosen_test argv = Inr (Some test)" "nt \<le> w"
    and "main_run w nonce (tester_main test) (main_start (tester_main test)) v"
  shows "\<not> failed (snd v) \<and> (\<exists>v'. main_run w nonce (tester_main test) v v' \<and> passed_all (tester_main test) v')"
proof -
  from chosen_test_range [OF assms(1)] have ok: "main_ok (tester_main test)" by (simp add: tester_main_ok)
  from main_inv_run [OF assms(3) ok main_inv_start [OF ok]] have inv: "main_inv nonce (tester_main test) v" .
  obtain k s where v: "v = (k, s)" by (cases v)
  with main_finishes [OF ok assms(2)] inv show ?thesis by (auto simp: main_inv_def dest: phase_not_failed)
qed

theorem tester_main_passes_witness:
  "\<exists>v. main_run 10 of_nat (tester_main 0) (main_start (tester_main 0)) v \<and> passed_all (tester_main 0) v"
  using tester_main_passes [of "[[], []]" 0 10 of_nat, OF _ _ main_run.main_stays] by (simp add: chosen_test_def nt_def)

end
