(* ===== verification/LockDemo.thy ===== *)
theory LockDemo
  imports LockService Session
begin

text \<open>
  The program \<open>lock_demo.cc\<close>: a \<open>lock_client\<close> on the endpoints of \<open>Session\<close>, with lost requests and
  replies, and one call of its method \<open>stat\<close>.
\<close>

section \<open>The program\<close>

type_synonym lock_world = "lock_server rpcs option \<times> rpcc"

text \<open>The constructor with the call of \<open>bind\<close> that it makes: the code of \<open>bind\<close> is only looked at to print a line.\<close>

definition lock_client_over :: "resolver \<Rightarrow> resolver \<Rightarrow> u8 list \<Rightarrow> u32 \<Rightarrow> way \<Rightarrow> lock_server rpcs option \<Rightarrow> lock_world option outcome" where
  "lock_client_over inet resolve dst random way srv =
     andthen (make_sockaddr inet resolve dst) (\<lambda>dstsock.
     case dstsock of
       None \<Rightarrow> Inr None
     | Some d \<Rightarrow> andthen (bind_over way (srv, rpcc_new True random)) (\<lambda>(ret, srv, cl). Inr (Some (srv, cl))))"

text \<open>A method of the client: \<open>stat\<close>, \<open>acquire\<close> and \<open>release\<close> differ in the procedure only.\<close>

definition lock_call_over :: "way \<Rightarrow> u32 \<Rightarrow> u64 \<Rightarrow> i32 \<Rightarrow> lock_world \<Rightarrow> (i32 \<times> lock_world) outcome" where
  "lock_call_over way p lid r w =
     andthen (call_over way p (lock_request (snd w) lid) w) (\<lambda>(ret, un, w).
     andthen (lock_result ret un r) (\<lambda>r. Inr (r, w)))"

text \<open>\<open>main\<close>: what it prints, and \<^term>\<open>None\<close> where it exits before.\<close>

definition lock_demo :: "nat \<Rightarrow> resolver \<Rightarrow> resolver \<Rightarrow> u8 list \<Rightarrow> u32 \<Rightarrow> way \<Rightarrow> way \<Rightarrow> i32 \<Rightarrow> lock_server rpcs option \<Rightarrow> (i32 \<times> lock_world) option outcome" where
  "lock_demo argc inet resolve dst random way1 way2 r srv =
     (if argc \<noteq> 2 then Inr None
      else andthen (lock_client_over inet resolve dst random way1 srv) (\<lambda>lc.
        case lc of None \<Rightarrow> Inr None | Some w \<Rightarrow> andthen (lock_call_over way2 proc_stat 1 r w) (\<lambda>res. Inr (Some res))))"

section \<open>A method call\<close>

lemma lock_call_served:
  assumes "linked n x (Suc k) rs cl" "bind_done cl" "cl_srv_nonce cl = srv_nonce rs" "p \<noteq> rpc_bind"
    and "procs rs p = Some (h1_fn2 get_int get_ull put_int meth)" "meth (rpcc_id cl) lid (app rs) = Inr (ls, lock_OK, out)"
  shows "\<exists>rs'. lock_call_over way p lid r (Some rs, cl) = Inr (out, Some rs', after_call cl) \<and> linked n (x + 1) k rs' (after_call cl) \<and>
     app rs' = ls \<and> others_kept n rs rs'"
proof -
  from lock_body obtain req where req: "lock_request cl lid = Inr req" "body req (enc_u32 (rpcc_id cl) @ enc_u64 lid)" by blast
  from int_reply obtain rep where rep: "put_int out marshall_new = Inr rep" "body rep (enc_u32 out)" by blast
  have ok: "0 \<le>s (lock_OK :: i32)" by (simp add: lock_OK_def)
  from call_served [OF assms(1) _ req(2) _ assms(5) lock_handler_runs [where meth = meth, OF _ assms(6) rep(1)] rep(2), of way] assms(2-4) ok obtain un rs' where
    1: "call_over way p (Inr req) (Some rs, cl) = Inr (lock_OK, un, Some rs', after_call cl)" "at_body un (enc_u32 out)"
      "linked n (x + 1) k rs' (after_call cl)" "app rs' = ls" "others_kept n rs rs'" by (auto simp: may_call_def)
  from reply_read [OF int_codec.codec_axioms _ _ rep 1(2) ok, of r] have "lock_result lock_OK un r = Inr out"
    by (simp add: lock_result_def int_max_def)
  with 1 req(1) show ?thesis by (auto simp: lock_call_over_def)
qed

lemma lock_call_unbound:
  assumes "\<not> bind_done cl" "p \<noteq> rpc_bind"
  shows "lock_call_over way p lid r (srv, cl) = Inl Assert_failed"
proof -
  from lock_body obtain req where req: "lock_request cl lid = Inr req" by blast
  have "call_over way p (Inr req) (srv, cl) = Inr (bind_failure, unmarshall_empty, srv, cl)"
    using call_refused [where w = "(srv, cl)" and p = p] assms by (simp add: may_call_def)
  then show ?thesis by (simp add: lock_call_over_def req lock_result_def call_m_def bind_failure_def lock_OK_def word_sless_alt)
qed

section \<open>Property\<close>



end
