(* ===== verification/TypedArgs.thy ===== *)
theory TypedArgs
  imports LockService
begin

text \<open>
  Arguments of a fixed size. A handler whose arguments are numbers accepts exactly the requests
  whose bytes are an encoding of its arguments, and reading any others faults nowhere.
\<close>

section \<open>Readers of a fixed size\<close>

definition checks :: "('a getter) \<Rightarrow> nat \<Rightarrow> bool" where
  "checks g k \<longleftrightarrow> (\<forall>u. \<exists>x u'. g u = Inr (x, u') \<and> ubuf u' = ubuf u \<and> (uok u' \<longleftrightarrow> uok u \<and> uind u + k \<le> usz u) \<and>
     (uok u' \<longrightarrow> uind u' = uind u + k))"

lemma checksD:
  assumes "checks g k"
  obtains x u' where "g u = Inr (x, u')" "ubuf u' = ubuf u" "uok u' \<longleftrightarrow> uok u \<and> uind u + k \<le> usz u" "uok u' \<Longrightarrow> uind u' = uind u + k"
  using assms unfolding checks_def by blast

lemma checks_pair:
  assumes "checks g1 k1" "checks g2 k2" "0 < k2"
  shows "checks (\<lambda>u. andthen (g1 u) (\<lambda>(a, u). andthen (g2 u) (\<lambda>(b, u). Inr (f a b, u)))) (k1 + k2)"
  unfolding checks_def
proof
  fix u
  obtain a u1 where 1: "g1 u = Inr (a, u1)" "ubuf u1 = ubuf u" "uok u1 \<longleftrightarrow> uok u \<and> uind u + k1 \<le> usz u" "uok u1 \<Longrightarrow> uind u1 = uind u + k1"
    using checksD [OF assms(1), of u] by blast
  obtain b u2 where 2: "g2 u1 = Inr (b, u2)" "ubuf u2 = ubuf u1" "uok u2 \<longleftrightarrow> uok u1 \<and> uind u1 + k2 \<le> usz u1" "uok u2 \<Longrightarrow> uind u2 = uind u1 + k2"
    using checksD [OF assms(2), of u1] by blast
  from 1 2 show "\<exists>x u'. andthen (g1 u) (\<lambda>(a, u). andthen (g2 u) (\<lambda>(b, u). Inr (f a b, u))) = Inr (x, u') \<and> ubuf u' = ubuf u \<and>
      (uok u' \<longleftrightarrow> uok u \<and> uind u + (k1 + k2) \<le> usz u) \<and> (uok u' \<longrightarrow> uind u' = uind u + (k1 + k2))"
    by auto
qed

lemma checks_byte: "checks get_uchar 1" "checks get_char 1"
  by (auto simp: checks_def get_uchar_def get_char_def urawbyte_def Let_def)

lemma checks_short: "checks get_ushort 2" "checks get_short 2"
  unfolding checks_def by (auto simp: get_ushort_def get_short_def urawbyte_def Let_def)

lemma checks_uint: "checks get_uint 4" "checks get_int 4"
  unfolding checks_def get_int_eq by (auto simp: get_uint_def urawbyte_def Let_def)

lemma checks_ull: "checks get_ull 8"
  using checks_pair [OF checks_uint(1) checks_uint(1), of "\<lambda>h l. ucast l OR push_bit 32 (ucast h)"]
  by (simp add: get_ull_def [abs_def])

lemma u32_bytes: "\<exists>x. [a, b, c, d] = enc_u32 x"
proof -
  let ?x = "push_bit 24 (ucast a) OR push_bit 16 (ucast b) OR push_bit 8 (ucast c) OR ucast d :: u32"
  have "enc_u32 ?x = [a, b, c, d]"
    by (auto simp: enc_u32_def bit_eq_iff bit_simps dest: bit_imp_le_length)
  then show ?thesis by metis
qed

lemma u16_bytes: "\<exists>x. [a, b] = enc_u16 x"
proof -
  have "enc_u16 (push_bit 8 (ucast a) OR ucast b) = [a, b]"
    by (auto simp: enc_u16_def bit_eq_iff bit_simps dest: bit_imp_le_length)
  then show ?thesis by metis
qed

lemma u64_bytes:
  assumes "length bs = 8"
  shows "\<exists>x. bs = enc_u64 x"
proof -
  from assms obtain a b c d e f g h where bs: "bs = [a, b, c, d] @ [e, f, g, h]" by (auto simp: eval_nat_numeral length_Suc_conv)
  obtain x y where "[a, b, c, d] = enc_u32 x" "[e, f, g, h] = enc_u32 y" using u32_bytes by metis
  moreover have "(ucast (drop_bit 32 (push_bit 32 (ucast x) OR ucast y :: u64)) :: u32) = x"
    "(ucast (push_bit 32 (ucast x) OR ucast y :: u64) :: u32) = y"
    by (auto simp: bit_eq_iff bit_simps dest: bit_imp_le_length)
  ultimately have "bs = enc_u64 (push_bit 32 (ucast x) OR ucast y)" by (simp add: bs enc_u64_def)
  then show ?thesis by blast
qed

text \<open>The contract of a type whose encodings are all the byte strings of one length.\<close>

locale fixed_reader =
  fixes get :: "unmarshall \<Rightarrow> ('a \<times> unmarshall) outcome"
    and enc :: "'a \<Rightarrow> u8 list"
    and width :: nat
  assumes reads: "checks get width"
    and hit: "gets get (enc x) x"
    and enc_length: "length (enc x) = width"
    and enc_onto: "length bs = width \<Longrightarrow> \<exists>x. bs = enc x"
    and width_pos: "0 < width"

locale fixed_args = a: fixed_reader get1 enc1 width1 + b: fixed_reader get2 enc2 width2
  for get1 :: "unmarshall \<Rightarrow> ('a \<times> unmarshall) outcome" and enc1 width1
    and get2 :: "unmarshall \<Rightarrow> ('b \<times> unmarshall) outcome" and enc2 width2
begin

lemma args_read: "checks (args2 get1 get2) (width1 + width2)"
  unfolding args2_def [abs_def] by (rule checks_pair [OF a.reads b.reads b.width_pos])

lemma handler_checked:
  assumes "uind u = RPC_HEADER_SZ" "usz u \<le> int_max"
  shows "if uok u \<and> usz u = RPC_HEADER_SZ + width1 + width2
    then \<exists>x y. drop RPC_HEADER_SZ (ubuf u) = enc1 x @ enc2 y \<and>
      (\<forall>s ret. h1_fn2 get1 get2 pr meth s u ret = andthen (meth x y s) (\<lambda>(s, b, r). andthen (pr r ret) (\<lambda>ret. Inr (s, b, ret))))
    else \<forall>s ret. h1_fn2 get1 get2 pr meth s u ret = Inr (s, unmarshal_args_failure, ret)"
proof (cases "uok u \<and> usz u = RPC_HEADER_SZ + width1 + width2")
  case True
  let ?bs = "drop RPC_HEADER_SZ (ubuf u)"
  have len: "length ?bs = width1 + width2" using True by simp
  have l1: "length (take width1 ?bs) = width1" and l2: "length (drop width1 ?bs) = width2" using len by simp_all
  obtain x where x: "take width1 ?bs = enc1 x" using a.enc_onto [OF l1] by blast
  obtain y where y: "drop width1 ?bs = enc2 y" using b.enc_onto [OF l2] by blast
  have bs: "?bs = enc1 x @ enc2 y" using x y by (metis append_take_drop_id)
  have at: "at_body u (enc1 x @ enc2 y)" using True assms bs by (simp add: at_body_def a.enc_length b.enc_length)
  have "gets (args2 get1 get2) (enc1 x @ enc2 y @ []) (x, y)"
    unfolding args2_def [abs_def] by (rule gets_andthen a.hit b.hit gets_return)+
  then have "gets (args2 get1 get2) (enc1 x @ enc2 y) (x, y)" by simp
  from h1_run_hit [OF at this, of pr "\<lambda>(a1, a2). meth a1 a2"] True assms(2) bs show ?thesis
    by (auto simp: h1_fn2_def a.enc_length b.enc_length)
next
  case False
  obtain z u' where u': "args2 get1 get2 u = Inr (z, u')" "ubuf u' = ubuf u" "uok u' \<longleftrightarrow> uok u \<and> uind u + (width1 + width2) \<le> usz u"
    "uok u' \<Longrightarrow> uind u' = uind u + (width1 + width2)" using checksD [OF args_read, of u] by blast
  then have "\<not> okdone u'" using False assms(1) by (auto simp: okdone_def)
  with u'(1) False show ?thesis by (auto simp: h1_fn2_def h1_run_not_done)
qed

end

lemma bytes_cases: "length bs = 1 \<Longrightarrow> \<exists>a. bs = [a]" "length bs = 2 \<Longrightarrow> \<exists>a b. bs = [a, b]" "length bs = 4 \<Longrightarrow> \<exists>a b c d. bs = [a, b, c, d]"
  by (auto simp: eval_nat_numeral length_Suc_conv)

interpretation int_reader: fixed_reader get_int enc_u32 4
  using gets_int checks_uint(2) by unfold_locales (use u32_bytes bytes_cases(3) in \<open>auto, metis\<close>)

interpretation ull_reader: fixed_reader get_ull enc_u64 8
  using gets_u64 checks_ull by unfold_locales (use u64_bytes in auto)

interpretation ushort_reader: fixed_reader get_ushort enc_u16 2
  using gets_u16 checks_short(1) by unfold_locales (use u16_bytes bytes_cases(2) in \<open>auto, metis\<close>)

interpretation uchar_reader: fixed_reader get_uchar "\<lambda>x. [x]" 1
  using gets_byte(2) checks_byte(1) by unfold_locales (use bytes_cases(1) in auto)

interpretation lock_args: fixed_args get_int enc_u32 4 get_ull enc_u64 8
  by unfold_locales

section \<open>Property\<close>

lemma unpack_any:
  assumes "unpack_req_header (unmarshall_of pdu) = (h, u)"
  shows "uind u = RPC_HEADER_SZ" "ubuf u = pdu" "uok u \<longleftrightarrow> RPC_HEADER_SZ \<le> length pdu"
  using assms by (auto simp: unpack_req_header_def unpack_def urawbyte_def unmarshall_of_def Let_def split: if_splits)

text \<open>The method the lock server registered for a procedure.\<close>

definition lock_method :: "u32 \<Rightarrow> u32 \<Rightarrow> u64 \<Rightarrow> lock_server \<Rightarrow> (lock_server \<times> u32 \<times> u32) outcome" where
  "lock_method p = (if p = proc_stat then lock_stat else if p = proc_acquire then grant_handler else release_handler)"

lemma lock_procs_method:
  "p \<in> {proc_stat, proc_acquire, proc_release} \<Longrightarrow> lock_procs nonce p = Some (h1_fn2 get_int get_ull put_int (lock_method p))"
  by (auto simp: lock_procs_def lock_method_def proc_defs)


text \<open>An acquire whose lock number lost its last byte, and the whole request.\<close>

definition acquire_header :: req_header where
  "acquire_header = \<lparr>rq_xid = 1, rq_proc = proc_acquire, rq_clt_nonce = 7, rq_srv_nonce = 0, rq_xid_rep = 0\<rparr>"

definition acquire_request :: "u8 list" where
  "acquire_request = [0, 0, 0, 36] @ enc_req_header acquire_header @ enc_u32 5 @ enc_u64 9"


end
