(* ===== verification/ServerLife.thy ===== *)
theory ServerLife
  imports Session Listener
begin

text \<open>
  The life of a server: the constructor and destructor of \<open>tcpsconn\<close>, and the destructor of \<open>rpcs\<close>,
  which closes the listener, waits until the pool has run its jobs, and frees the windows.
\<close>

section \<open>The listener\<close>

record tcpsconn =
  ts_tcp :: int
  ts_pipe :: "int \<times> int"
  ts_lossy :: int
  ts_conns :: conn_map

text \<open>
  The arguments are what \<open>socket\<close>, \<open>bind\<close> and \<open>listen\<close> answer, the two ends of the pipe if there
  is one, and whether the thread was started.
\<close>

definition tcpsconn_new :: "int \<Rightarrow> int \<Rightarrow> int \<Rightarrow> (int \<times> int) option \<Rightarrow> bool \<Rightarrow> int \<Rightarrow> tcpsconn outcome" where
  "tcpsconn_new s bnd lis pip th lossy =
     (if s < 0 then Inl Assert_failed
      else if bnd < 0 then Inl Assert_failed
      else if lis < 0 then Inl Assert_failed
      else case pip of
        None \<Rightarrow> Inl Assert_failed
      | Some p \<Rightarrow>
          if \<not> th then Inl Assert_failed
          else Inr \<lparr>ts_tcp = s, ts_pipe = p, ts_lossy = lossy, ts_conns = []\<rparr>)"

definition tcpsconn_delete :: "int \<Rightarrow> int \<Rightarrow> tcpsconn \<Rightarrow> conn_heap \<Rightarrow> conn_heap outcome" where
  "tcpsconn_delete cls join t h =
     (if cls \<noteq> 0 then Inl Assert_failed
      else if join \<noteq> 0 then Inl Assert_failed
      else close_all (ts_conns t) h)"

section \<open>The server\<close>

text \<open>The destructor before and after it waits for the pool; the jobs left run in between.\<close>

definition rpcs_delete_listener :: "int \<Rightarrow> int \<Rightarrow> tcpsconn \<Rightarrow> 's rpcs \<Rightarrow> 's rpcs outcome" where
  "rpcs_delete_listener cls join t rs = on_heap (tcpsconn_delete cls join t) rs"

definition rpcs_delete_replies :: "u32 list \<Rightarrow> 's rpcs \<Rightarrow> 's rpcs outcome" where
  "rpcs_delete_replies keys rs = andthen (free_reply_window keys (replies rs)) (\<lambda>st. Inr (rs\<lparr>replies := st\<rparr>))"

inductive rpcs_deleted :: "tcpsconn \<Rightarrow> 's rpcs \<times> 's job list \<Rightarrow> 's rpcs outcome \<Rightarrow> bool" where
  "rpcs_delete_listener cls join t rs = Inr rs1 \<Longrightarrow> disp_run (rs1, js) es (rs2, []) \<Longrightarrow>
     distinct keys \<Longrightarrow> set keys = dom (reply_window (replies rs2)) \<Longrightarrow>
     rpcs_deleted t (rs, js) (rpcs_delete_replies keys rs2)"

section \<open>Buffers that no window holds\<close>

definition orphan :: "addr \<Rightarrow> reply_state \<Rightarrow> bool" where
  "orphan b st \<longleftrightarrow> live st b \<and> (\<forall>c. \<forall>e \<in> set (window_of st c). rt_buf e \<noteq> Some b)"

lemma orphan_step:
  assumes "rw_step st e st'" "reply_inv st" "orphan b st"
  shows "orphan b st'"
  using assms(1)
proof (rule rw_stepE)
  fix r x c a
  assume r: "r < x" "checkduplicate_and_update c x r st = Inr (a, st')"
  have "b \<notin> bufset (filter (\<lambda>e. rt_xid e < r) (window_of st c))" using assms(3) by (auto simp: orphan_def bufset_def)
  moreover have "rt_buf f \<noteq> Some b" if "f \<in> set (window_ref x (kept r (window_of st c)))" for f
    using that assms(3) by (auto simp: window_ref_set kept_simps orphan_def split: if_splits)
  ultimately show ?thesis
    using r(2) check_ok [OF assms(2) r(1), of c] assms(3) by (auto simp: orphan_def trimmed_live_def split: if_splits)
next
  fix b' c x s
  assume b': "\<not> live st b'" and st': "st' = add_reply c x (Some b') s (st\<lparr>live := (live st)(b' := True)\<rparr>)"
  from b' assms(3) have "b' \<noteq> b" by (auto simp: orphan_def)
  moreover from this have "rt_buf f \<noteq> Some b" if "f \<in> set (store_reply x (Some b') s (window_of st c))" for f
    using store_reply_set [OF that] assms(3) by (auto simp: orphan_def)
  ultimately show ?thesis using assms(3) by (auto simp: orphan_def st' add_reply_def)
qed

lemma orphan_run: "rw_run st es st' \<Longrightarrow> reply_inv st \<Longrightarrow> orphan b st \<Longrightarrow> orphan b st' \<and> reply_inv st'"
  by (induction rule: rw_run.induct) (auto intro: orphan_step rw_step_inv)

lemma disp_run_rw: "disp_run s es s' \<Longrightarrow> \<exists>ws. rw_run (replies (fst s)) ws (replies (fst s'))"
proof (induction rule: disp_run.induct)
  case (at_start s)
  then show ?case using rw_run.start by blast
next
  case (next_disp s es s' e s'')
  from next_disp.hyps(2) have "\<exists>vs. rw_run (replies (fst s')) vs (replies (fst s''))"
  proof (cases rule: disp_step.cases)
    case (begins pdu c rs new rs' js)
    with begin_window [OF begins(5,4)] show ?thesis by auto
  next
    case (ends rs b j rs' xs ys)
    with end_window [OF ends(5,4)] show ?thesis by auto
  next
    case (outside rs js h)
    then show ?thesis by (auto intro: rw_run.start)
  qed
  with next_disp.IH show ?case using rw_run_append by blast
qed

lemma delete_listener_replies: "rpcs_delete_listener cls join t rs = Inr rs1 \<Longrightarrow> replies rs1 = replies rs"
  by (auto simp: rpcs_delete_listener_def on_heap_def andthen_Inr_iff)

text \<open>A reply that comes when its entry is gone.\<close>

lemma late_reply_orphan:
  assumes "reply_inv (replies rs)" "dispatch_end b j rs = Inr rs'" "\<not> live (replies rs) b" "rq_clt_nonce (jb_header j) = n" "n \<noteq> 0"
    and "rq_xid (jb_header j) \<notin> rt_xid ` set (window_of (replies rs) n)"
  shows "orphan b (replies rs')"
proof -
  let ?h = "jb_header j"
  from assms(2) obtain rs1 s rep c rs2
    where core: "same_core rs rs1" "same_core (keep_reply b ?h rep (rs1\<lparr>app := s\<rparr>)) rs2"
      and fin: "on_heap (decref c) (send_on c (written rep) rs2) = Inr rs'"
    by (rule dispatch_endE) blast
  from on_heap_core [OF fin] core assms(4,5) have r: "replies rs' =
      add_reply n (rq_xid ?h) (Some b) (mind rep) ((replies rs)\<lparr>live := (live (replies rs))(b := True)\<rparr>)"
    by (auto simp: same_core_def send_on_def keep_reply_def take_buf_def word_gt_0)
  have w: "store_reply (rq_xid ?h) (Some b) k (window_of (replies rs) n) = window_of (replies rs) n" for k
  proof -
    have "x \<notin> rt_xid ` set es \<Longrightarrow> store_reply x v k es = es" for x v es by (induction es) auto
    with assms(6) show ?thesis by blast
  qed
  have "rt_buf e \<noteq> Some b" if "e \<in> set (window_of (replies rs) d)" for e d
    using reply_invD(3) [OF assms(1) that] assms(3) by auto
  then show ?thesis by (auto simp: orphan_def r add_reply_def w)
qed

section \<open>Property\<close>


text \<open>Client 7 sends 1, gives up on it, and sends 3 with the acknowledgement 2; then 1 comes to its end.\<close>

definition late_header :: req_header where
  "late_header = \<lparr>rq_xid = 3, rq_proc = 23, rq_clt_nonce = 7, rq_srv_nonce = 0, rq_xid_rep = 2\<rparr>"

definition late_request :: "u8 list" where
  "late_request = [0, 0, 0, 24] @ enc_req_header late_header"

definition late_job :: "nat job" where
  "late_job = \<lparr>jb_conn = 5, jb_header = late_header, jb_args = (unmarshall_of late_request)\<lparr>uind := 24\<rparr>, jb_handler = sample_handler\<rparr>"

lemma late_unpack:
  "unpack_req_header (unmarshall_of late_request) = (late_header, (unmarshall_of late_request)\<lparr>uind := 24\<rparr>)"
  by (rule unpack_req_header_hit) (simp add: late_request_def unmarshall_of_def enc_req_header_def enc_u32_def)

lemma late_client_ok: "client_ok late_request"
  by (simp add: client_ok_def late_unpack late_header_def)

abbreviation (input) late_server :: "nat rpcs" where
  "late_server \<equiv> rpcs_new 99 0 0\<lparr>procs := (\<lambda>_. None)(23 \<mapsto> sample_handler)\<rparr>"

lemma late_begins:
  "\<exists>rs1 rs2. dispatch_begin 5 sample_request (late_server\<lparr>heap := steady\<rparr>) = Inr (Some sample_job, rs1) \<and>
     dispatch_begin 5 late_request (rs1\<lparr>heap := steady\<rparr>) = Inr (Some late_job, rs2) \<and>
     app rs2 = 0 \<and> counting rs2 = 0 \<and> reply_inv (replies rs2) \<and> live (replies rs2) = (\<lambda>_. False) \<and>
     reply_window (replies rs2) = (\<lambda>_. None)(7 \<mapsto> [reply_t_new 3])"
proof -
  have calm: "server_calm late_server" "seen_below 7 1 late_server" by (rule server_calm_new)+
  have ok: "uok ((unmarshall_of sample_request)\<lparr>uind := 24\<rparr>)" "uok ((unmarshall_of late_request)\<lparr>uind := 24\<rparr>)"
    by (simp_all add: unmarshall_of_def)
  have none: "kept 0 [] = []" "window_ref 1 [] = [reply_t_new 1]" "kept 2 [reply_t_new 1] = []" "window_ref 3 [] = [reply_t_new 3]"
    by (simp_all add: kept_def window_ref_def answer_ref_def lookup_reply_def word_le_nat_alt)
  from begins_new [where f = sample_handler and c = 5, OF calm _ _ sample_unpack ok(1), of 0] obtain rs1 where
    1: "dispatch_begin 5 sample_request (late_server\<lparr>heap := steady\<rparr>) = Inr (Some sample_job, rs1)"
      "replies rs1 = set_window 7 [reply_t_new 1] (reply_state_init\<lparr>live := \<lambda>_. False\<rparr>)"
      "app rs1 = 0" "sends rs1 = []" "counting rs1 = 0" "procs rs1 = (\<lambda>_. None)(23 \<mapsto> sample_handler)" "srv_nonce rs1 = 99"
    by (auto simp: sample_header_def sample_job_def rpcs_new_def reply_state_init_def window_of_def trimmed_live_def none)
  have inv1: "reply_inv (replies rs1)"
    by (simp add: 1(2) reply_inv_def reply_state_init_def window_of_def set_window_def entry_ok_def reply_t_new_def)
  have "server_calm rs1" "seen_below 7 3 rs1"
    using inv1 1(5) by (simp_all add: server_calm_def seen_below_def 1(2) reply_state_init_def window_of_def set_window_def reply_t_new_def)
  from begins_new [where f = sample_handler and c = 5, OF this _ _ late_unpack ok(2), of 2] 1(6) obtain rs2 where
    2: "dispatch_begin 5 late_request (rs1\<lparr>heap := steady\<rparr>) = Inr (Some late_job, rs2)"
      "replies rs2 = set_window 7 [reply_t_new 3] ((replies rs1)\<lparr>live := \<lambda>_. False\<rparr>)"
      "app rs2 = app rs1" "counting rs2 = 0"
    by (auto simp: late_header_def late_job_def 1(2) reply_state_init_def window_of_def set_window_def trimmed_live_def none)
  have "reply_inv (replies rs2)"
    by (simp add: 1(2) 2(2) reply_inv_def reply_state_init_def window_of_def set_window_def entry_ok_def reply_t_new_def)
  with 1 2 show ?thesis by (auto simp: set_window_def reply_state_init_def fun_eq_iff)
qed

lemma late_ends:
  assumes "reply_inv (replies rs)" "counting rs = 0" "\<not> live (replies rs) b" "jb_conn j = 5" "jb_handler j = sample_handler" "rq_clt_nonce (jb_header j) = 7"
  shows "\<exists>rs2 k. dispatch_end b j (rs\<lparr>heap := steady\<rparr>) = Inr rs2 \<and> counting rs2 = 0 \<and>
     replies rs2 = add_reply 7 (rq_xid (jb_header j)) (Some b) k ((replies rs)\<lparr>live := (live (replies rs))(b := True)\<rparr>)"
proof -
  let ?rs = "rs\<lparr>heap := steady\<rparr>" and ?o = "(connection_new 5 0 (0, 0))\<lparr>cn_refno := 3\<rparr>"
  have h: "sample_handler (app ?rs) (jb_args j) marshall_new = Inr (app rs + 1, 0, marshall_new)" by (simp add: sample_handler_def)
  have j: "\<lparr>jb_conn = 5, jb_header = jb_header j, jb_args = jb_args j, jb_handler = sample_handler\<rparr> = j" using assms(4,5) by simp
  have "\<exists>rs2 m. dispatch_end b \<lparr>jb_conn = 5, jb_header = jb_header j, jb_args = jb_args j, jb_handler = sample_handler\<rparr> ?rs = Inr rs2 \<and>
     sent m (enc_reply_header \<lparr>rp_xid = rq_xid (jb_header j), rp_ret = 0\<rparr>) [] \<and> sends rs2 = sends ?rs @ [(5, written m)] \<and> app rs2 = app rs + 1 \<and>
     replies rs2 = add_reply 7 (rq_xid (jb_header j)) (Some b) (mind m) ((replies ?rs)\<lparr>live := (live (replies ?rs))(b := True)\<rparr>) \<and>
     counting rs2 = 0 \<and> procs rs2 = procs ?rs \<and> srv_nonce rs2 = srv_nonce ?rs \<and> bufs rs2 b = written m"
    by (rule ends_new [where rs = ?rs and c = 5 and f = sample_handler and n = 7 and ?o1.0 = ?o, OF _ _ _ _ _ _ h body_new _ assms(6)])
      (use assms(1-3) in \<open>simp_all add: steady_def connection_new_def\<close>)
  then obtain rs2 and m :: marshall where "dispatch_end b j ?rs = Inr rs2" "counting rs2 = 0"
    "replies rs2 = add_reply 7 (rq_xid (jb_header j)) (Some b) (mind m) ((replies ?rs)\<lparr>live := (live (replies ?rs))(b := True)\<rparr>)"
    unfolding j by blast
  then show ?thesis by (intro exI [of _ rs2] exI [of _ "mind m"]) simp
qed


end
