(* ===== verification/Spawn.thy ===== *)
theory Spawn
  imports ThrPool
begin

text \<open>
  Calling a method of an object on another thread: the \<open>method_thread\<close> templates of
  \<open>rpc/method_thread.h\<close> and \<open>ThrPool::addObjJob\<close> of \<open>rpc/thr_pool.h\<close>. Both put the object, the
  method and the arguments into a packet on the heap, whose address is all the other thread
  gets, and which that thread deletes.
\<close>

section \<open>Packets\<close>

text \<open>A method works on the world \<open>'s\<close>; several arguments are a tuple.\<close>

record ('o, 'a, 's) packet =
  pk_obj :: 'o
  pk_meth :: "'o \<Rightarrow> 'a \<Rightarrow> 's \<Rightarrow> 's outcome"
  pk_args :: 'a

text \<open>
  Threads that were started and did not run yet, with their packet and whether they are detached;
  the queue of the pool, the jobs its workers took, and those that came back from their method.
\<close>

record ('o, 'a, 's) spawner =
  packets :: "nat \<Rightarrow> ('o, 'a, 's) packet option"
  started :: "(nat \<times> bool) list"
  queued :: "nat fifo"
  taken :: "nat list"
  called :: "nat list"
  world :: 's

definition new_packet :: "nat \<Rightarrow> 'o \<Rightarrow> ('o \<Rightarrow> 'a \<Rightarrow> 's \<Rightarrow> 's outcome) \<Rightarrow> 'a \<Rightarrow> ('o, 'a, 's) spawner \<Rightarrow> ('o, 'a, 's) spawner" where
  "new_packet x ob m a st = st\<lparr>packets := (packets st)(x \<mapsto> \<lparr>pk_obj = ob, pk_meth = m, pk_args = a\<rparr>)\<rparr>"

definition read_packet :: "nat \<Rightarrow> ('o, 'a, 's) spawner \<Rightarrow> ('o, 'a, 's) packet outcome" where
  "read_packet x st = (case packets st x of None \<Rightarrow> Inl Use_after_free | Some p \<Rightarrow> Inr p)"

definition delete_packet :: "nat \<Rightarrow> ('o, 'a, 's) spawner \<Rightarrow> ('o, 'a, 's) spawner outcome" where
  "delete_packet x st = andthen (read_packet x st) (\<lambda>_. Inr (st\<lparr>packets := (packets st)(x := None)\<rparr>))"

section \<open>method_thread\<close>

text \<open>
  \<open>err\<close> and \<open>det\<close> are what \<open>pthread_create\<close> and \<open>pthread_detach\<close> answer; \<^term>\<open>None\<close> is \<open>exit(1)\<close>.
\<close>

definition method_thread_parent :: "int \<Rightarrow> int \<Rightarrow> nat \<Rightarrow> bool \<Rightarrow> ('o, 'a, 's) spawner \<Rightarrow> ('o, 'a, 's) spawner option outcome" where
  "method_thread_parent err det x detach st =
     (if err \<noteq> 0 then Inr None
      else if detach \<and> det \<noteq> 0 then Inl Assert_failed
      else Inr (Some (st\<lparr>started := started st @ [(x, detach)]\<rparr>)))"

definition method_thread_child :: "int \<Rightarrow> int \<Rightarrow> unit outcome" where
  "method_thread_child state typ = (if state = 0 \<and> typ = 0 then Inr () else Inl Assert_failed)"

definition method_thread :: "int \<Rightarrow> int \<Rightarrow> nat \<Rightarrow> 'o \<Rightarrow> bool \<Rightarrow> ('o \<Rightarrow> 's \<Rightarrow> 's outcome) \<Rightarrow> ('o, unit, 's) spawner \<Rightarrow>
    ('o, unit, 's) spawner option outcome" where
  "method_thread err det x ob detach m st = method_thread_parent err det x detach (new_packet x ob (\<lambda>ob _. m ob) () st)"

definition method_thread1 :: "int \<Rightarrow> int \<Rightarrow> nat \<Rightarrow> 'o \<Rightarrow> bool \<Rightarrow> ('o \<Rightarrow> 'a \<Rightarrow> 's \<Rightarrow> 's outcome) \<Rightarrow> 'a \<Rightarrow> ('o, 'a, 's) spawner \<Rightarrow>
    ('o, 'a, 's) spawner option outcome" where
  "method_thread1 err det x ob detach m a st = method_thread_parent err det x detach (new_packet x ob m a st)"

definition method_thread2 :: "int \<Rightarrow> int \<Rightarrow> nat \<Rightarrow> 'o \<Rightarrow> bool \<Rightarrow> ('o \<Rightarrow> 'a \<Rightarrow> 'b \<Rightarrow> 's \<Rightarrow> 's outcome) \<Rightarrow> 'a \<Rightarrow> 'b \<Rightarrow>
    ('o, 'a \<times> 'b, 's) spawner \<Rightarrow> ('o, 'a \<times> 'b, 's) spawner option outcome" where
  "method_thread2 err det x ob detach m a1 a2 st =
     method_thread_parent err det x detach (new_packet x ob (\<lambda>ob (a1, a2). m ob a1 a2) (a1, a2) st)"

definition method_thread3 :: "int \<Rightarrow> int \<Rightarrow> nat \<Rightarrow> 'o \<Rightarrow> bool \<Rightarrow> ('o \<Rightarrow> 'a \<Rightarrow> 'b \<Rightarrow> 'c \<Rightarrow> 's \<Rightarrow> 's outcome) \<Rightarrow> 'a \<Rightarrow> 'b \<Rightarrow> 'c \<Rightarrow>
    ('o, 'a \<times> 'b \<times> 'c, 's) spawner \<Rightarrow> ('o, 'a \<times> 'b \<times> 'c, 's) spawner option outcome" where
  "method_thread3 err det x ob detach m a1 a2 a3 st =
     method_thread_parent err det x detach (new_packet x ob (\<lambda>ob (a1, a2, a3). m ob a1 a2 a3) (a1, a2, a3) st)"

text \<open>What the new thread runs: the packet is copied and deleted before the method is called.\<close>

definition yyy :: "int \<Rightarrow> int \<Rightarrow> nat \<Rightarrow> ('o, 'a, 's) spawner \<Rightarrow> ('o, 'a, 's) spawner outcome" where
  "yyy state typ x st =
     andthen (read_packet x st) (\<lambda>p.
     andthen (delete_packet x st) (\<lambda>st.
     andthen (method_thread_child state typ) (\<lambda>_.
     andthen (pk_meth p (pk_obj p) (pk_args p) (world st)) (\<lambda>w. Inr (st\<lparr>world := w\<rparr>)))))"

section \<open>addObjJob\<close>

text \<open>The job of the pool is the address of the packet. A thread that has to wait for space is not covered.\<close>

definition addObjJob :: "bool \<Rightarrow> nat \<Rightarrow> 'o \<Rightarrow> ('o \<Rightarrow> 'a \<Rightarrow> 's \<Rightarrow> 's outcome) \<Rightarrow> 'a \<Rightarrow> ('o, 'a, 's) spawner \<Rightarrow> (bool \<times> ('o, 'a, 's) spawner) outcome" where
  "addObjJob blocking x ob m a st =
     (let st = new_packet x ob m a st in
      case enq x blocking (queued st) of
        (Enq_done, q) \<Rightarrow> Inr (True, st\<lparr>queued := q\<rparr>)
      | (Enq_refused, q) \<Rightarrow> Inr (False, st\<lparr>queued := q\<rparr>)
      | (Enq_waits, q) \<Rightarrow> Inl Not_yet)"

text \<open>What a worker runs, up to the end of the method and after it.\<close>

definition func_call :: "nat \<Rightarrow> ('o, 'a, 's) spawner \<Rightarrow> ('o, 'a, 's) spawner outcome" where
  "func_call x st =
     andthen (read_packet x st) (\<lambda>p.
     andthen (pk_meth p (pk_obj p) (pk_args p) (world st)) (\<lambda>w. Inr (st\<lparr>world := w\<rparr>)))"

definition func_delete :: "nat \<Rightarrow> ('o, 'a, 's) spawner \<Rightarrow> ('o, 'a, 's) spawner outcome" where
  "func_delete x st = delete_packet x st"

section \<open>Histories\<close>

datatype ('o, 'a, 's) spawn_event =
    Handed "('o, 'a, 's) packet"
  | Turned_down "('o, 'a, 's) packet"
  | Called "('o, 'a, 's) packet"
  | Other

inductive spawn_step :: "('o, 'a, 's) spawner \<Rightarrow> ('o, 'a, 's) spawn_event \<Rightarrow> ('o, 'a, 's) spawner \<Rightarrow> bool" where
  starts: "packets st x = None \<Longrightarrow> method_thread1 err det x ob detach m a st = Inr (Some st') \<Longrightarrow>
     spawn_step st (Handed \<lparr>pk_obj = ob, pk_meth = m, pk_args = a\<rparr>) st'"
| thread_runs: "started st = as @ (x, d) # bs \<Longrightarrow> packets st x = Some p \<Longrightarrow> yyy 0 0 x (st\<lparr>started := as @ bs\<rparr>) = Inr st' \<Longrightarrow>
     spawn_step st (Called p) st'"
| adds: "packets st x = None \<Longrightarrow> addObjJob blocking x ob m a st = Inr (ok, st') \<Longrightarrow>
     spawn_step st ((if ok then Handed else Turned_down) \<lparr>pk_obj = ob, pk_meth = m, pk_args = a\<rparr>) st'"
| takes: "deq (queued st) = (Some (x, sig), q) \<Longrightarrow> spawn_step st Other (st\<lparr>queued := q, taken := taken st @ [x]\<rparr>)"
| job_runs: "taken st = as @ x # bs \<Longrightarrow> packets st x = Some p \<Longrightarrow> func_call x (st\<lparr>taken := as @ bs, called := called st @ [x]\<rparr>) = Inr st' \<Longrightarrow>
     spawn_step st (Called p) st'"
| job_deletes: "called st = as @ x # bs \<Longrightarrow> func_delete x (st\<lparr>called := as @ bs\<rparr>) = Inr st' \<Longrightarrow> spawn_step st Other st'"

inductive spawn_run :: "('o, 'a, 's) spawner \<Rightarrow> ('o, 'a, 's) spawn_event list \<Rightarrow> ('o, 'a, 's) spawner \<Rightarrow> bool" where
  spawn_start: "spawn_run st [] st"
| spawn_next: "spawn_run st es st' \<Longrightarrow> spawn_step st' e st'' \<Longrightarrow> spawn_run st (es @ [e]) st''"

definition spawner_new :: "nat \<Rightarrow> 's \<Rightarrow> ('o, 'a, 's) spawner" where
  "spawner_new limit w = \<lparr>packets = (\<lambda>_. None), started = [], queued = fifo_new limit, taken = [], called = [], world = w\<rparr>"

definition waiting :: "('o, 'a, 's) spawner \<Rightarrow> nat list" where
  "waiting st = map fst (started st) @ fq (queued st) @ taken st"

definition handed :: "('o, 'a, 's) spawn_event list \<Rightarrow> ('o, 'a, 's) packet list" where
  "handed es = concat (map (\<lambda>e. case e of Handed p \<Rightarrow> [p] | _ \<Rightarrow> []) es)"

definition ran_methods :: "('o, 'a, 's) spawn_event list \<Rightarrow> ('o, 'a, 's) packet list" where
  "ran_methods es = concat (map (\<lambda>e. case e of Called p \<Rightarrow> [p] | _ \<Rightarrow> []) es)"

definition turned_down :: "('o, 'a, 's) spawn_event list \<Rightarrow> nat" where
  "turned_down es = length (filter (\<lambda>e. case e of Turned_down p \<Rightarrow> True | _ \<Rightarrow> False) es)"

text \<open>The packets on the heap are those of the waiting and the returned jobs, and those left behind (\<open>lk\<close>).\<close>

definition heap_of :: "nat list \<Rightarrow> ('o, 'a, 's) spawner \<Rightarrow> bool" where
  "heap_of lk st \<longleftrightarrow> finite (dom (packets st)) \<and> mset (waiting st @ called st @ lk) = mset_set (dom (packets st))"

definition spawn_inv :: "('o, 'a, 's) spawn_event list \<Rightarrow> ('o, 'a, 's) spawner \<Rightarrow> bool" where
  "spawn_inv es st \<longleftrightarrow> mset (handed es) = mset (ran_methods es) + image_mset (the \<circ> packets st) (mset (waiting st)) \<and>
     (\<exists>lk. length lk = turned_down es \<and> heap_of lk st)"

lemma log_simps:
  "handed (es @ [e]) = handed es @ (case e of Handed p \<Rightarrow> [p] | _ \<Rightarrow> [])"
  "ran_methods (es @ [e]) = ran_methods es @ (case e of Called p \<Rightarrow> [p] | _ \<Rightarrow> [])"
  "turned_down (es @ [e]) = turned_down es + (case e of Turned_down p \<Rightarrow> 1 | _ \<Rightarrow> 0)"
  by (simp_all add: handed_def ran_methods_def turned_down_def split: spawn_event.split)

lemma heap_of_set: "heap_of lk st \<Longrightarrow> set (waiting st) \<union> set (called st) \<union> set lk = dom (packets st)"
proof -
  assume h: "heap_of lk st"
  then have "set_mset (mset (waiting st @ called st @ lk)) = dom (packets st)" by (simp only: heap_of_def finite_set_mset_mset_set)
  then show ?thesis by auto
qed

lemma packet_kept: "x \<notin> set_mset M \<Longrightarrow> image_mset (the \<circ> h(x := v)) M = image_mset (the \<circ> h) M"
  by (auto intro!: image_mset_cong)

text \<open>A packet that is new, and one that goes.\<close>

lemma heap_of_new:
  assumes "heap_of lk st" "packets st x = None" "packets st' = (packets st)(x \<mapsto> p)"
    and "mset (waiting st' @ called st' @ lk') = add_mset x (mset (waiting st @ called st @ lk))"
  shows "heap_of lk' st'"
  using assms by (simp add: heap_of_def domIff)

lemma heap_of_gone:
  assumes "heap_of lk st" "packets st' = (packets st)(x := None)"
    and "mset (waiting st @ called st @ lk) = add_mset x (mset (waiting st' @ called st' @ lk))"
  shows "heap_of lk st'" "x \<notin> set (waiting st')"
proof -
  from assms(1) have f: "finite (dom (packets st))" and m: "mset (waiting st @ called st @ lk) = mset_set (dom (packets st))"
    by (simp_all add: heap_of_def)
  then have "x \<in># mset_set (dom (packets st))" using assms(3) by (metis union_single_eq_member add_mset_add_single multi_member_split union_commute)
  then have x: "x \<in> dom (packets st)" using f by simp
  have "mset_set (dom (packets st) - {x}) = mset_set (dom (packets st)) - {#x#}" using f x by (simp add: mset_set_Diff)
  then have d: "mset (waiting st' @ called st' @ lk) = mset_set (dom (packets st) - {x})" using m assms(3) by simp
  then show "heap_of lk st'" using f assms(2) by (simp add: heap_of_def)
  from d have "set_mset (mset (waiting st' @ called st' @ lk)) = dom (packets st) - {x}" using f by (simp only: finite_set_mset_mset_set finite_Diff)
  then show "x \<notin> set (waiting st')" by auto
qed

lemma spawn_step_inv: "spawn_step st e st' \<Longrightarrow> spawn_inv es st \<Longrightarrow> spawn_inv (es @ [e]) st'"
proof (induction rule: spawn_step.induct)
  case (starts st x err det ob detach m a st')
  let ?p = "\<lparr>pk_obj = ob, pk_meth = m, pk_args = a\<rparr>"
  from starts(3) obtain lk where lk: "length lk = turned_down es" "heap_of lk st"
    and l: "mset (handed es) = mset (ran_methods es) + image_mset (the \<circ> packets st) (mset (waiting st))" by (auto simp: spawn_inv_def)
  from starts(2) have st': "st' = (new_packet x ob m a st)\<lparr>started := started st @ [(x, detach)]\<rparr>"
    by (auto simp: method_thread1_def method_thread_parent_def new_packet_def split: if_splits)
  have "x \<notin> set (waiting st)" using heap_of_set [OF lk(2)] starts(1) by auto
  moreover have "heap_of lk st'" by (rule heap_of_new [OF lk(2) starts(1)]) (simp_all add: st' new_packet_def waiting_def)
  ultimately show ?case using l lk(1) packet_kept [of x "mset (waiting st)" "packets st"]
    by (auto simp: spawn_inv_def log_simps st' new_packet_def waiting_def)
next
  case (thread_runs st as x d bs p st')
  from thread_runs(4) obtain lk where lk: "length lk = turned_down es" "heap_of lk st"
    and l: "mset (handed es) = mset (ran_methods es) + image_mset (the \<circ> packets st) (mset (waiting st))" by (auto simp: spawn_inv_def)
  from thread_runs(2,3) obtain w where st': "st' = st\<lparr>started := as @ bs, packets := (packets st)(x := None), world := w\<rparr>"
    by (auto simp: yyy_def read_packet_def delete_packet_def method_thread_child_def andthen_Inr_iff)
  have "mset (waiting st @ called st @ lk) = add_mset x (mset (waiting st' @ called st' @ lk))"
    by (simp add: st' waiting_def thread_runs(1))
  with heap_of_gone [OF lk(2)] have h: "heap_of lk st'" "x \<notin> set (waiting st')" by (simp_all add: st')
  have w: "mset (waiting st) = add_mset x (mset (waiting st'))" by (simp add: st' waiting_def thread_runs(1))
  have "image_mset (the \<circ> packets st') (mset (waiting st')) = image_mset (the \<circ> packets st) (mset (waiting st'))"
    using packet_kept [of x "mset (waiting st')" "packets st" None] h(2) by (simp add: st')
  with l w lk(1) h(1) thread_runs(2) show ?case by (auto simp: spawn_inv_def log_simps)
next
  case (adds st x blocking ob m a ok st')
  let ?p = "\<lparr>pk_obj = ob, pk_meth = m, pk_args = a\<rparr>"
  from adds(3) obtain lk where lk: "length lk = turned_down es" "heap_of lk st"
    and l: "mset (handed es) = mset (ran_methods es) + image_mset (the \<circ> packets st) (mset (waiting st))" by (auto simp: spawn_inv_def)
  have x: "x \<notin> set (waiting st)" using heap_of_set [OF lk(2)] adds(1) by auto
  note kept = packet_kept [of x "mset (waiting st)" "packets st"]
  from adds(2) consider q where "ok" "enq x blocking (queued st) = (Enq_done, q)" "st' = (new_packet x ob m a st)\<lparr>queued := q\<rparr>"
    | "\<not> ok" "st' = new_packet x ob m a st"
    by (auto simp: addObjJob_def Let_def enq_def new_packet_def split: if_splits)
  then show ?case
  proof cases
    case 1
    from enq_contents(1) [OF 1(2)] have q: "fq q = fq (queued st) @ [x]" .
    have "heap_of lk st'" by (rule heap_of_new [OF lk(2) adds(1)]) (simp_all add: 1(3) new_packet_def waiting_def q)
    with l lk(1) kept x 1(1) show ?thesis by (auto simp: spawn_inv_def log_simps 1(3) new_packet_def waiting_def q)
  next
    case 2
    have "heap_of (x # lk) st'" by (rule heap_of_new [OF lk(2) adds(1)]) (simp_all add: 2(2) new_packet_def waiting_def)
    moreover have "length (x # lk) = turned_down (es @ [Turned_down ?p])" using lk(1) by (simp add: log_simps)
    ultimately have "\<exists>lk. length lk = turned_down (es @ [Turned_down ?p]) \<and> heap_of lk st'" by blast
    with l kept x 2 show ?thesis by (auto simp: spawn_inv_def log_simps new_packet_def waiting_def)
  qed
next
  case (takes st x sig q)
  from deq_contents(1) [OF takes(1)] takes(2) show ?case
    by (auto simp: spawn_inv_def log_simps heap_of_def waiting_def)
next
  case (job_runs st as x bs p st')
  from job_runs(4) obtain lk where lk: "length lk = turned_down es" "heap_of lk st"
    and l: "mset (handed es) = mset (ran_methods es) + image_mset (the \<circ> packets st) (mset (waiting st))" by (auto simp: spawn_inv_def)
  from job_runs(2,3) obtain w where st': "st' = st\<lparr>taken := as @ bs, called := called st @ [x], world := w\<rparr>"
    by (auto simp: func_call_def read_packet_def andthen_Inr_iff)
  have "mset (waiting st) = add_mset x (mset (waiting st'))" by (simp add: st' waiting_def job_runs(1))
  moreover have "heap_of lk st'" using lk(2) by (simp add: heap_of_def st' waiting_def job_runs(1))
  ultimately show ?case using l lk(1) job_runs(2) by (auto simp: spawn_inv_def log_simps st')
next
  case (job_deletes st as x bs st')
  from job_deletes(3) obtain lk where lk: "length lk = turned_down es" "heap_of lk st"
    and l: "mset (handed es) = mset (ran_methods es) + image_mset (the \<circ> packets st) (mset (waiting st))" by (auto simp: spawn_inv_def)
  from job_deletes(2) have st': "st' = st\<lparr>called := as @ bs, packets := (packets st)(x := None)\<rparr>"
    by (auto simp: func_delete_def delete_packet_def andthen_Inr_iff)
  have "mset (waiting st @ called st @ lk) = add_mset x (mset (waiting st' @ called st' @ lk))"
    by (simp add: st' waiting_def job_deletes(1))
  with heap_of_gone [OF lk(2)] have h: "heap_of lk st'" "x \<notin> set (waiting st')" by (simp_all add: st')
  have "waiting st' = waiting st" by (simp add: st' waiting_def)
  with packet_kept [of x "mset (waiting st')" "packets st" None] h l lk(1) show ?case
    by (auto simp: spawn_inv_def log_simps st')
qed

lemma spawn_run_inv: "spawn_run st es st' \<Longrightarrow> spawn_inv [] st \<Longrightarrow> spawn_inv es st'"
  by (induction rule: spawn_run.induct) (auto intro: spawn_step_inv)

lemma inv_new: "spawn_inv [] (spawner_new limit w)"
  by (simp add: spawn_inv_def heap_of_def waiting_def spawner_new_def handed_def ran_methods_def turned_down_def fifo_new_def)

section \<open>Property\<close>


definition sample_packet :: "nat \<Rightarrow> (nat, nat, nat) packet" where
  "sample_packet n = \<lparr>pk_obj = 1, pk_meth = (\<lambda>ob a s. Inr (s + ob + a)), pk_args = n\<rparr>"

definition sample_log :: "(nat, nat, nat) spawn_event list" where
  "sample_log = [Handed (sample_packet 5), Turned_down (sample_packet 6), Other, Called (sample_packet 5), Other]"

definition sample_end :: "(nat, nat, nat) spawner" where
  "sample_end = \<lparr>packets = (\<lambda>_. None)(20 \<mapsto> sample_packet 6), started = [], queued = fifo_new 1, taken = [], called = [], world = 6\<rparr>"

lemma sample_spawn: "spawn_run (spawner_new 1 0) sample_log sample_end"
proof -
  let ?m = "\<lambda>ob a s. Inr (s + ob + a) :: nat outcome"
  let ?h = "(\<lambda>_. None)(10 \<mapsto> sample_packet 5, 20 \<mapsto> sample_packet 6)"
  let ?s = "\<lambda>h q t c w. \<lparr>packets = h, started = [], queued = \<lparr>fq = q, max_items = 1\<rparr>, taken = t, called = c, world = w\<rparr>"
  have 1: "spawn_step (?s (\<lambda>_. None) [] [] [] 0) (Handed (sample_packet 5)) (?s ((\<lambda>_. None)(10 \<mapsto> sample_packet 5)) [10] [] [] 0)"
    using spawn_step.adds [of "?s (\<lambda>_. None) [] [] [] 0" 10 False 1 ?m 5 True] by (simp add: addObjJob_def new_packet_def enq_def sample_packet_def)
  have 2: "spawn_step (?s ((\<lambda>_. None)(10 \<mapsto> sample_packet 5)) [10] [] [] 0) (Turned_down (sample_packet 6)) (?s ?h [10] [] [] 0)"
    using spawn_step.adds [of "?s ((\<lambda>_. None)(10 \<mapsto> sample_packet 5)) [10] [] [] 0" 20 False 1 ?m 6 False]
    by (simp add: addObjJob_def new_packet_def enq_def sample_packet_def)
  have 3: "spawn_step (?s ?h [10] [] [] 0) Other (?s ?h [] [10] [] 0)"
    using spawn_step.takes [of "?s ?h [10] [] [] 0" 10 True "\<lparr>fq = [], max_items = 1\<rparr>"] by (simp add: deq_def)
  have 4: "spawn_step (?s ?h [] [10] [] 0) (Called (sample_packet 5)) (?s ?h [] [] [10] 6)"
    by (rule spawn_step.job_runs [where as = "[]" and x = 10 and bs = "[]"]) (simp_all add: func_call_def read_packet_def sample_packet_def)
  have 5: "spawn_step (?s ?h [] [] [10] 6) Other (?s ((\<lambda>_. None)(20 \<mapsto> sample_packet 6)) [] [] [] 6)"
    by (rule spawn_step.job_deletes [where as = "[]" and x = 10 and bs = "[]"])
      (simp_all add: func_delete_def delete_packet_def read_packet_def fun_upd_twist)
  have "(spawner_new 1 0 :: (nat, nat, nat) spawner) = ?s (\<lambda>_. None) [] [] [] 0" by (simp add: spawner_new_def fifo_new_def)
  with spawn_next [OF spawn_next [OF spawn_next [OF spawn_next [OF spawn_next [OF spawn_start 1] 2] 3] 4] 5] show ?thesis
    by (simp add: sample_log_def sample_end_def fifo_new_def)
qed


end
