(* ===== verification/Gettime.thy ===== *)
theory Gettime
  imports Timespec
begin

text \<open>
  \<open>clock_gettime\<close> of \<open>gettime.cc\<close>, which stands in for the system call on a platform without it.
  What the kernel answers is the argument \<open>mach\<close>. Doubles are IEEE: 53 bits, rounded to nearest and
  to even on a tie, which is computed on integers.
\<close>

section \<open>Doubles\<close>

text \<open>By how many bits a number exceeds 53, and the number rounded to 53 bits.\<close>

fun excess :: "nat \<Rightarrow> nat" where
  "excess n = (if n < 2 ^ 53 then 0 else Suc (excess (n div 2)))"

declare excess.simps [simp del]

definition round53 :: "nat \<Rightarrow> nat" where
  "round53 n =
     (let q = n div 2 ^ excess n; r = n mod 2 ^ excess n in
      if 2 * r > 2 ^ excess n \<or> 2 * r = 2 ^ excess n \<and> odd q then (q + 1) * 2 ^ excess n else q * 2 ^ excess n)"

definition round53_int :: "int \<Rightarrow> int" where
  "round53_int x = sgn x * int (round53 (nat \<bar>x\<bar>))"

text \<open>The double \<open>1e-9\<close> is \<open>nano_unit / 2 ^ 82\<close>.\<close>

definition nano_unit :: nat where
  "nano_unit = 0x112E0BE826D695"

section \<open>The code\<close>

definition CLOCK_REALTIME :: int where "CLOCK_REALTIME = 0"
definition CLOCK_MONOTONIC :: int where "CLOCK_MONOTONIC = 1"
definition CLOCK_PROCESS_CPUTIME_ID :: int where "CLOCK_PROCESS_CPUTIME_ID = 2"
definition CLOCK_THREAD_CPUTIME_ID :: int where "CLOCK_THREAD_CPUTIME_ID = 3"

datatype clock_serv = SYSTEM_CLOCK | CALENDAR_CLOCK

text \<open>
  The answers of the kernel: what \<open>host_get_clock_service\<close> and \<open>clock_get_time\<close> return for a clock,
  with its seconds and nanoseconds, two readings of \<open>mach_absolute_time\<close>, and the fraction of
  \<open>mach_timebase_info\<close>. Zero is \<open>KERN_SUCCESS\<close>.
\<close>

record mach =
  get_service :: "clock_serv \<Rightarrow> int"
  get_time :: "clock_serv \<Rightarrow> int \<times> u32 \<times> i32"
  abs_start :: u64
  abs_end :: u64
  timebase :: "u32 \<times> u32"

text \<open>The static fraction, zero at first, and whether \<open>errno\<close> was set to \<open>EINVAL\<close>.\<close>

record clock_state =
  timebase_inf :: "u32 \<times> u32"
  einval :: bool

definition clock_service_time :: "mach \<Rightarrow> clock_serv \<Rightarrow> clock_state \<Rightarrow> timespec \<Rightarrow> int \<times> timespec \<times> clock_state" where
  "clock_service_time k clk st tp =
     (let (ret, sec, nsec) = get_time k clk in
      if get_service k clk = 0 \<and> ret = 0 then (0, \<lparr>ts_sec = uint sec, ts_nsec = sint nsec\<rparr>, st)
      else (- 1, tp, st\<lparr>einval := True\<rparr>))"

definition nano_fields :: "nat \<Rightarrow> timespec" where
  "nano_fields nano =
     (let sec = int (round53 (round53 nano * nano_unit) div 2 ^ 82) in
      \<lparr>ts_sec = sec, ts_nsec = round53_int (int (round53 nano) - round53_int (round53_int sec * 1000000000))\<rparr>)"

text \<open>The time between two readings of the clock of the machine, which is 64 bits wide.\<close>

definition cpu_time :: "mach \<Rightarrow> clock_state \<Rightarrow> (int \<times> timespec \<times> clock_state) outcome" where
  "cpu_time k st =
     (let delta = abs_end k - abs_start k;
          st = (if snd (timebase_inf st) = 0 then st\<lparr>timebase_inf := timebase k\<rparr> else st);
          (numer, denom) = timebase_inf st
      in if denom = 0 then Inl Division_by_zero
         else Inr (0, nano_fields (unat (delta * ucast numer div ucast denom :: u64)), st))"

definition clock_gettime :: "mach \<Rightarrow> int \<Rightarrow> clock_state \<Rightarrow> timespec \<Rightarrow> (int \<times> timespec \<times> clock_state) outcome" where
  "clock_gettime k clk_id st tp =
     (if clk_id = CLOCK_REALTIME \<or> clk_id = CLOCK_MONOTONIC
      then Inr (clock_service_time k (if clk_id = CLOCK_REALTIME then CALENDAR_CLOCK else SYSTEM_CLOCK) st tp)
      else if clk_id = CLOCK_PROCESS_CPUTIME_ID \<or> clk_id = CLOCK_THREAD_CPUTIME_ID then cpu_time k st
      else Inr (- 1, tp, st\<lparr>einval := True\<rparr>))"

section \<open>Rounding\<close>

lemma round53_small: "n < 2 ^ 53 \<Longrightarrow> round53 n = n"
  by (simp add: round53_def excess.simps [of n])

lemma excess_shift: "n < 2 ^ (53 + k) \<Longrightarrow> excess n \<le> k"
proof (induction k arbitrary: n)
  case 0
  then show ?case by (simp add: excess.simps [of n])
next
  case (Suc k)
  then have "n div 2 < 2 ^ (53 + k)" by (simp add: div_less_iff_less_mult power_add)
  with Suc.IH show ?case by (simp add: excess.simps [of n])
qed

lemma excess_low: "0 < excess n \<Longrightarrow> 2 ^ (52 + excess n) \<le> n"
proof (induction n rule: excess.induct)
  case (1 n)
  from 1(2) have n: "\<not> n < 2 ^ 53" by (auto simp: excess.simps [of n] split: if_splits)
  then have e: "excess n = Suc (excess (n div 2))" by (simp add: excess.simps [of n])
  show ?case
  proof (cases "excess (n div 2) = 0")
    case True
    with n e show ?thesis by simp
  next
    case False
    with 1(1) [OF n] have "2 ^ (52 + excess (n div 2)) \<le> n div 2" by simp
    then have "2 * 2 ^ (52 + excess (n div 2)) \<le> n" by linarith
    then show ?thesis unfolding e by (simp add: power_add)
  qed
qed

lemma round53_le: "round53 n * 2 ^ 53 \<le> n * (2 ^ 53 + 1)"
proof (cases "excess n = 0")
  case True
  then show ?thesis by (simp add: round53_def)
next
  case False
  let ?p = "2 ^ excess n :: nat"
  have "2 ^ (52 + excess n) \<le> n" using excess_low False by simp
  then have p: "2 ^ 52 * ?p \<le> n" by (simp add: power_add)
  have d: "n = n div ?p * ?p + n mod ?p" by (rule div_mult_mod_eq [symmetric])
  have "2 * round53 n \<le> 2 * n + ?p"
  proof (cases "2 * (n mod ?p) > ?p \<or> 2 * (n mod ?p) = ?p \<and> odd (n div ?p)")
    case True
    then have "round53 n = n div ?p * ?p + ?p" by (simp add: round53_def Let_def)
    with d True show ?thesis by linarith
  next
    case False
    then have "round53 n = n div ?p * ?p" by (simp only: round53_def Let_def if_False)
    with d show ?thesis by linarith
  qed
  with p show ?thesis by simp
qed

lemma round53_ge:
  assumes "excess n \<le> k" "c * 2 ^ k \<le> n"
  shows "c * 2 ^ k \<le> round53 n"
proof -
  let ?p = "2 ^ excess n :: nat"
  have k: "2 ^ k = 2 ^ (k - excess n) * ?p" using assms(1) by (simp flip: power_add)
  with assms(2) have "c * 2 ^ (k - excess n) * ?p \<le> n" by (simp add: mult.assoc)
  then have "c * 2 ^ (k - excess n) \<le> n div ?p" by (simp add: less_eq_div_iff_mult_less_eq)
  then have "c * 2 ^ (k - excess n) * ?p \<le> n div ?p * ?p" by simp
  also have "\<dots> \<le> round53 n" by (simp add: round53_def Let_def)
  finally show ?thesis by (simp add: k mult.assoc)
qed

text \<open>Up to \<open>5 * 10 ^ 15\<close> the two roundings do not reach the next second.\<close>

lemma seconds_exact:
  assumes "nano \<le> 5000000000000000"
  shows "round53 (nano * nano_unit) div 2 ^ 82 = nano div 1000000000"
proof -
  let ?k = "nano div 1000000000"
  have u: "nano < (?k + 1) * 1000000000" "?k * 1000000000 \<le> nano" by simp_all
  have k: "?k \<le> 5000000" using assms by simp
  have "?k * 2 ^ 82 \<le> ?k * 1000000000 * nano_unit" by (simp add: nano_unit_def)
  also have "\<dots> \<le> nano * nano_unit" using u(2) by (rule mult_le_mono1)
  finally have l: "?k * 2 ^ 82 \<le> nano * nano_unit" .
  have "nano * nano_unit < 2 ^ (53 + 82)" using assms by (simp add: nano_unit_def)
  from round53_ge [OF excess_shift [OF this] l] have lo: "?k * 2 ^ 82 \<le> round53 (nano * nano_unit)" .
  have "round53 (nano * nano_unit) * 2 ^ 53 \<le> nano * nano_unit * (2 ^ 53 + 1)" by (rule round53_le)
  also have "\<dots> < (?k + 1) * 2 ^ 82 * 2 ^ 53" using u(1) k by (simp add: nano_unit_def)
  finally have hi: "round53 (nano * nano_unit) < (?k + 1) * 2 ^ 82" by simp
  from lo hi show ?thesis by (intro div_nat_eqI) (simp_all add: mult.commute)
qed

lemma nano_fields_exact:
  assumes "nano \<le> 5000000000000000"
  shows "nano_fields nano = \<lparr>ts_sec = int (nano div 1000000000), ts_nsec = int (nano mod 1000000000)\<rparr>"
proof -
  have n: "round53 nano = nano" using assms by (intro round53_small) simp
  have i: "round53_int (int m) = int m" if "m < 2 ^ 53" for m using that by (cases "m = 0") (simp_all add: round53_int_def round53_small)
  have s: "nano div 1000000000 < 2 ^ 53" "nano div 1000000000 * 1000000000 < 2 ^ 53" "nano mod 1000000000 < 2 ^ 53"
    using assms by (simp_all add: div_less_iff_less_mult)
  have "int nano - int (nano div 1000000000 * 1000000000) = int (nano mod 1000000000)"
    by (metis div_mult_mod_eq of_nat_add add_diff_cancel_left')
  with i [OF s(1)] i [OF s(2)] i [OF s(3)] show ?thesis by (simp add: nano_fields_def n seconds_exact [OF assms, simplified] Let_def)
qed

lemma nano_fields_times:
  assumes "nano \<le> 5000000000000000"
  shows "valid_ts (nano_fields nano)" "nanos (nano_fields nano) = int nano"
proof -
  have "nano = nano div 1000000000 * 1000000000 + nano mod 1000000000" by (rule div_mult_mod_eq [symmetric])
  then show "nanos (nano_fields nano) = int nano" unfolding nano_fields_exact [OF assms] nanos_def
    by (metis of_nat_add of_nat_mult of_nat_numeral timespec.select_convs)
  show "valid_ts (nano_fields nano)" unfolding nano_fields_exact [OF assms] by (simp add: valid_ts_def)
qed

text \<open>Beyond it, one nanosecond before a full second, the seconds are rounded up.\<close>

lemma nano_fields_negative:
  "nano_fields 8999999999999999 = \<lparr>ts_sec = 9000000, ts_nsec = - 1\<rparr>"
proof -
  have "excess (8999999999999999 * nano_unit) = 53" by (simp add: nano_unit_def excess.simps)
  then have "round53 (8999999999999999 * nano_unit) = 9000000 * 2 ^ 82" by (simp add: round53_def nano_unit_def)
  moreover have "round53 8999999999999999 = 8999999999999999" "round53_int 9000000 = 9000000"
    "round53_int 9000000000000000 = 9000000000000000" "round53_int (- 1) = - 1"
    by (simp_all add: round53_small round53_int_def)
  ultimately show ?thesis by (simp add: nano_fields_def)
qed

lemma unat_u32_u64: "unat (ucast (w :: u32) :: u64) = unat w"
proof -
  have "unat w < 2 ^ 64" using unsigned_less [of w, where 'a = nat] by simp
  then have "take_bit 64 (unat w) = unat w" by (rule take_bit_nat_eq_self)
  then show ?thesis by (simp add: unsigned_ucast_eq)
qed

section \<open>Properties\<close>

text \<open>The clocks the library uses: the kernel's time, or an error and nothing stored.\<close>

lemma service_clock_answers:
  "get_time k CALENDAR_CLOCK = (ret, sec, nsec) \<Longrightarrow> clock_gettime k CLOCK_REALTIME st tp =
    Inr (if get_service k CALENDAR_CLOCK = 0 \<and> ret = 0 then (0, \<lparr>ts_sec = uint sec, ts_nsec = sint nsec\<rparr>, st) else (- 1, tp, st\<lparr>einval := True\<rparr>))"
  "get_time k SYSTEM_CLOCK = (ret, sec, nsec) \<Longrightarrow> clock_gettime k CLOCK_MONOTONIC st tp =
    Inr (if get_service k SYSTEM_CLOCK = 0 \<and> ret = 0 then (0, \<lparr>ts_sec = uint sec, ts_nsec = sint nsec\<rparr>, st) else (- 1, tp, st\<lparr>einval := True\<rparr>))"
  by (simp_all add: clock_gettime_def clock_service_time_def CLOCK_REALTIME_def CLOCK_MONOTONIC_def)

text \<open>
  C40: Both CPU time clocks answer the time between two readings of the clock of the machine, taken
  around a single \<open>getpid\<close> or \<open>sched_yield\<close> within this very call, whatever the process used before. Up
  to \<open>5 * 10 ^ 15\<close> nanoseconds the arithmetic on doubles is exact: the fields are a valid time and together
  the span, scaled by the fraction of the machine, which is asked for once and then kept. (One
  nanosecond before 9000000 seconds the nanoseconds would be -1.)
\<close>
theorem cpu_clock_times_its_own_call:
  assumes "clk_id \<in> {CLOCK_PROCESS_CPUTIME_ID, CLOCK_THREAD_CPUTIME_ID}"
    and "(n, d) = (if snd (timebase_inf st) = 0 then timebase k else timebase_inf st)" "d \<noteq> 0"
    and "unat (abs_end k - abs_start k) * unat n < 2 ^ 64"
    and "unat (abs_end k - abs_start k) * unat n div unat d \<le> 5000000000000000"
  shows "\<exists>t. clock_gettime k clk_id st tp = Inr (0, t, st\<lparr>timebase_inf := (n, d)\<rparr>) \<and> valid_ts t \<and>
    nanos t = int (unat (abs_end k - abs_start k) * unat n div unat d)"
proof -
  let ?d = "abs_end k - abs_start k" and ?x = "unat (abs_end k - abs_start k) * unat n div unat d"
  have "unat (?d * ucast n) = unat ?d * unat n" using assms(4) by (simp add: unat_word_ariths unat_u32_u64)
  then have x: "unat (?d * ucast n div ucast d :: u64) = ?x" by (simp add: unat_div unat_u32_u64)
  have c: "cpu_time k st = Inr (0, nano_fields ?x, st\<lparr>timebase_inf := (n, d)\<rparr>)"
    using assms(2,3) x by (cases st) (auto simp: cpu_time_def Let_def split: if_splits prod.splits)
  have "clock_gettime k clk_id st tp = cpu_time k st" using assms(1)
    by (auto simp: clock_gettime_def CLOCK_REALTIME_def CLOCK_MONOTONIC_def CLOCK_PROCESS_CPUTIME_ID_def CLOCK_THREAD_CPUTIME_ID_def)
  then show ?thesis using c nano_fields_times [OF assms(5)] by auto
qed

text \<open>A span of 3 ticks, 125/3 nanoseconds each, that the counter passes its end in.\<close>

theorem cpu_clock_times_its_own_call_witness:
  "\<exists>t. clock_gettime \<lparr>get_service = \<lambda>_. 0, get_time = \<lambda>_. (0, 7, 8), abs_start = - 1, abs_end = 2, timebase = (125, 3)\<rparr>
      CLOCK_PROCESS_CPUTIME_ID \<lparr>timebase_inf = (0, 0), einval = False\<rparr> \<lparr>ts_sec = 0, ts_nsec = 0\<rparr> =
      Inr (0, t, \<lparr>timebase_inf = (125, 3), einval = False\<rparr>) \<and> valid_ts t \<and> nanos t = 125"
  using cpu_clock_times_its_own_call [of CLOCK_PROCESS_CPUTIME_ID 125 3 "\<lparr>timebase_inf = (0, 0), einval = False\<rparr>"
    "\<lparr>get_service = \<lambda>_. 0, get_time = \<lambda>_. (0, 7, 8), abs_start = - 1, abs_end = 2, timebase = (125, 3)\<rparr>" "\<lparr>ts_sec = 0, ts_nsec = 0\<rparr>"]
  by simp

end
