(* ===== verification/Mains.thy ===== *)
theory Mains
  imports RpcTest LockService
begin

text \<open>
  What the programs do before they start to call and to serve: the options of \<open>rpctest.cc\<close>, the
  arguments of \<open>lock_smain.cc\<close>, and the level of \<open>jsl_log\<close>. A program that exits is \<^term>\<open>None\<close>.
\<close>

section \<open>Logging\<close>

definition jsl_set_debug :: "int \<Rightarrow> int \<Rightarrow> int" where
  "jsl_set_debug level _ = level"

text \<open>Whether \<open>jsl_log\<close> prints, at a debug level.\<close>

definition jsl_log :: "int \<Rightarrow> int \<Rightarrow> bool" where
  "jsl_log debug level = (\<not> debug < \<bar>level\<bar>)"

section \<open>The options of rpctest\<close>

record options =
  op_client :: bool
  op_server :: bool
  op_debug :: int
  op_port :: int
  op_lossy :: bool

definition options_new :: "int \<Rightarrow> options" where
  "options_new pid = \<lparr>op_client = False, op_server = False, op_debug = 0, op_port = 20000 + pid mod 10000, op_lossy = False\<rparr>"

text \<open>One letter; \<open>l\<close> sets an environment variable and falls through to nothing.\<close>

definition option_step :: "int \<Rightarrow> u8 list \<Rightarrow> options \<Rightarrow> options outcome" where
  "option_step ch optarg o1 =
     (if ch = 99 then Inr (o1\<lparr>op_client := True\<rparr>)
      else if ch = 115 then Inr (o1\<lparr>op_server := True\<rparr>)
      else if ch = 100 then andthen (atoi optarg) (\<lambda>n. Inr (o1\<lparr>op_debug := n\<rparr>))
      else if ch = 112 then andthen (atoi optarg) (\<lambda>n. Inr (o1\<lparr>op_port := n\<rparr>))
      else if ch = 108 then Inr (o1\<lparr>op_lossy := True\<rparr>)
      else Inr o1)"

text \<open>An \<open>int\<close> stored in a \<open>char\<close>, which is signed on some machines and unsigned on others.\<close>

definition as_char :: "bool \<Rightarrow> int \<Rightarrow> int" where
  "as_char sgnd x = (if sgnd then (x + 128) mod 256 - 128 else x mod 256)"

text \<open>
  The loop: \<open>getopt\<close> answers the letters of the command line with their arguments, and -1 from
  then on.
\<close>

partial_function (option) getopt_loop :: "bool \<Rightarrow> (int \<times> u8 list) list \<Rightarrow> options \<Rightarrow> options outcome option" where
  "getopt_loop sgnd ans o1 =
     (let (opt, optarg) = (case ans of [] \<Rightarrow> (- 1, []) | a # _ \<Rightarrow> a);
          ch = as_char sgnd opt
      in if ch = - 1 then Some (Inr o1)
         else case option_step ch optarg o1 of
           Inl e \<Rightarrow> Some (Inl e)
         | Inr o1 \<Rightarrow> getopt_loop sgnd (tl ans) o1)"

text \<open>Without \<open>-c\<close> and \<open>-s\<close> the program is both; the level of the log follows \<open>-d\<close>.\<close>

definition rpctest_options :: "bool \<Rightarrow> int \<Rightarrow> (int \<times> u8 list) list \<Rightarrow> int \<Rightarrow> (options \<times> int) outcome option" where
  "rpctest_options sgnd pid ans level =
     map_option (\<lambda>r. andthen r (\<lambda>o1.
       let o1 = (if \<not> op_server o1 \<and> \<not> op_client o1 then o1\<lparr>op_server := True, op_client := True\<rparr> else o1)
       in Inr (o1, if 0 < op_debug o1 then jsl_set_debug (op_debug o1) level else level)))
     (getopt_loop sgnd ans (options_new pid))"

section \<open>Arguments and environment\<close>

text \<open>An environment variable that holds a number: \<open>RPC_LOSSY\<close> in both endpoints, \<open>RPC_COUNT\<close> in the server.\<close>

definition env_number :: "u8 list option \<Rightarrow> int outcome" where
  "env_number e = (case e of None \<Rightarrow> Inr 0 | Some s \<Rightarrow> atoi s)"

text \<open>\<open>main\<close> of the lock server with its port.\<close>

definition lock_smain_start :: "u8 list list \<Rightarrow> u8 list option \<Rightarrow> u32 \<Rightarrow> (int \<times> lock_server rpcs) option outcome" where
  "lock_smain_start argv count_env nonce =
     (if length argv \<noteq> 2 then Inr None
      else andthen (env_number count_env) (\<lambda>count.
        andthen (atoi (argv ! 1)) (\<lambda>port.
        andthen (lock_smain nonce count) (\<lambda>rs. Inr (Some (port, rs))))))"

text \<open>The seed of the random numbers, from the time and the number of the process.\<close>

definition set_rand_seed :: "timespec \<Rightarrow> int \<Rightarrow> u32" where
  "set_rand_seed ts pid = word_of_int (ts_nsec ts) XOR word_of_int pid"

text \<open>Within one process, different nanoseconds give different seeds.\<close>

lemma set_rand_seed_inj:
  assumes "set_rand_seed a pid = set_rand_seed b pid" "valid_ts a" "valid_ts b"
  shows "ts_nsec a = ts_nsec b"
proof -
  from assms(1) have "set_rand_seed a pid XOR word_of_int pid = set_rand_seed b pid XOR word_of_int pid" by simp
  then have "(word_of_int (ts_nsec a) :: u32) = word_of_int (ts_nsec b)" by (simp add: set_rand_seed_def ac_simps)
  then have "uint (word_of_int (ts_nsec a) :: u32) = uint (word_of_int (ts_nsec b) :: u32)" by simp
  with assms(2,3) show ?thesis by (simp add: valid_ts_def uint_word_of_int)
qed

section \<open>The loop ends, or does not\<close>

lemma as_char_letter: "0 \<le> c \<Longrightarrow> c < 128 \<Longrightarrow> as_char sgnd c = c"
  by (simp add: as_char_def)

lemma as_char_end: "as_char True (- 1) = - 1" "as_char False (- 1) = 255"
  by (simp_all add: as_char_def)

text \<open>Where \<open>char\<close> is signed, the loop takes the letters one after the other.\<close>

lemma getopt_loop_steps:
  assumes "list_all (\<lambda>(c, _). 0 \<le> c \<and> c < 128) ans"
  shows "getopt_loop True ans o1 = Some (foldl (\<lambda>r (c, arg). andthen r (option_step c arg)) (Inr o1) ans)"
  using assms
proof (induction ans arbitrary: o1)
  case Nil
  then show ?case by (simp add: getopt_loop.simps as_char_end)
next
  case (Cons a as)
  obtain c arg where a: "a = (c, arg)" by fastforce
  have l: "foldl (\<lambda>r (c, arg). andthen r (option_step c arg)) (Inl e) as = Inl e" for e by (induction as) auto
  from Cons a show ?case
    by (subst getopt_loop.simps) (simp add: as_char_letter l split: sum.split)
qed

text \<open>Where it is unsigned, the -1 of \<open>getopt\<close> is 255, and the loop does not end.\<close>

lemma plain_step: "c \<in> {63, 99, 108, 115, 255} \<Longrightarrow> \<exists>o2. option_step c arg o1 = Inr o2"
  by (auto simp: option_step_def)

lemma getopt_loop_unsigned:
  assumes "getopt_loop False ans o1 = Some r" "list_all (\<lambda>(c, _). c \<in> {63, 99, 108, 115}) ans"
  shows False
proof -
  let ?P = "\<lambda>sgnd ans o1 r. list_all (\<lambda>(c, _). c \<in> {63, 99, 108, 115}) ans \<longrightarrow> sgnd"
  have "?P False ans o1 r"
  proof (rule getopt_loop.raw_induct [where P = ?P, OF _ assms(1)], rule impI, rule ccontr)
    fix f sgnd ans o1 r
    assume IH: "\<And>sgnd ans o1 r. f sgnd ans o1 = Some r \<Longrightarrow> ?P sgnd ans o1 r"
      and body: "(let (opt, optarg) = (case ans of [] \<Rightarrow> (- 1, []) | a # _ \<Rightarrow> a); ch = as_char sgnd opt
        in if ch = - 1 then Some (Inr o1) else case option_step ch optarg o1 of Inl e \<Rightarrow> Some (Inl e) | Inr o1 \<Rightarrow> f sgnd (tl ans) o1) = Some r"
      and l: "list_all (\<lambda>(c, _). c \<in> {63, 99, 108, 115}) ans" and s: "\<not> sgnd"
    obtain c arg where a: "(case ans of [] \<Rightarrow> (- 1, []) | a # _ \<Rightarrow> a) = (c, arg)" by fastforce
    with l have d: "c \<in> {63, 99, 108, 115, - 1}" and t: "list_all (\<lambda>(c, _). c \<in> {63, 99, 108, 115}) (tl ans)" by (auto split: list.splits)
    from s d have c: "as_char sgnd c \<in> {63, 99, 108, 115, 255}" by (auto simp: as_char_def)
    then obtain o2 where "option_step (as_char sgnd c) arg o1 = Inr o2" using plain_step by blast
    moreover have "as_char sgnd c \<noteq> - 1" using c by auto
    ultimately have "f sgnd (tl ans) o2 = Some r" using body a by (simp add: Let_def)
    from IH [OF this] s t show False by simp
  qed
  with assms(2) show False by simp
qed

text \<open>
  So the program starts with every command line of known letters where \<open>char\<close> is signed, as a
  client, a server or both, and where it is unsigned no command line ever starts it.
\<close>

lemma rpctest_options_end:
  assumes "list_all (\<lambda>(c, _). c \<in> {63, 99, 108, 115}) ans"
  shows "\<exists>o1. rpctest_options True pid ans level = Some (Inr (o1, level)) \<and> op_port o1 = 20000 + pid mod 10000 \<and>
      (op_client o1 \<longleftrightarrow> 99 \<in> fst ` set ans \<or> 115 \<notin> fst ` set ans) \<and> (op_server o1 \<longleftrightarrow> 115 \<in> fst ` set ans \<or> 99 \<notin> fst ` set ans) \<and>
      (op_lossy o1 \<longleftrightarrow> 108 \<in> fst ` set ans)"
    and "rpctest_options False pid ans level = None"
proof -
  let ?step = "\<lambda>r (c, arg). andthen r (option_step c arg)"
  have f: "\<exists>o2. foldl ?step (Inr o1) ans = Inr o2 \<and> op_port o2 = op_port o1 \<and> op_debug o2 = op_debug o1 \<and>
      (op_client o2 \<longleftrightarrow> op_client o1 \<or> 99 \<in> fst ` set ans) \<and> (op_server o2 \<longleftrightarrow> op_server o1 \<or> 115 \<in> fst ` set ans) \<and>
      (op_lossy o2 \<longleftrightarrow> op_lossy o1 \<or> 108 \<in> fst ` set ans)" for o1
    using assms
  proof (induction ans arbitrary: o1)
    case (Cons a as)
    then obtain c arg where a: "a = (c, arg)" "c \<in> {63, 99, 108, 115}" "list_all (\<lambda>(c, _). c \<in> {63, 99, 108, 115}) as" by auto
    let ?o = "if c = 99 then o1\<lparr>op_client := True\<rparr> else if c = 115 then o1\<lparr>op_server := True\<rparr> else if c = 108 then o1\<lparr>op_lossy := True\<rparr> else o1"
    have "option_step c arg o1 = Inr ?o" using a(2) by (auto simp: option_step_def)
    with Cons.IH [OF a(3), of ?o] a show ?case by (auto split: if_splits)
  qed simp
  have "list_all (\<lambda>(c, _). 0 \<le> c \<and> c < 128) ans" using assms by (auto simp: list_all_iff)
  from getopt_loop_steps [OF this, of "options_new pid"] f [of "options_new pid"]
  show "\<exists>o1. rpctest_options True pid ans level = Some (Inr (o1, level)) \<and> op_port o1 = 20000 + pid mod 10000 \<and>
      (op_client o1 \<longleftrightarrow> 99 \<in> fst ` set ans \<or> 115 \<notin> fst ` set ans) \<and> (op_server o1 \<longleftrightarrow> 115 \<in> fst ` set ans \<or> 99 \<notin> fst ` set ans) \<and>
      (op_lossy o1 \<longleftrightarrow> 108 \<in> fst ` set ans)"
    by (auto simp: rpctest_options_def options_new_def Let_def)
  show "rpctest_options False pid ans level = None"
    using getopt_loop_unsigned [OF _ assms] by (cases "getopt_loop False ans (options_new pid)") (auto simp: rpctest_options_def)
qed

text \<open>The lock server starts with one argument; its port is taken as it comes.\<close>

lemma lock_smain_starts:
  assumes "ds \<noteq> []" "list_all is_digit ds" "digits_value ds \<le> int int_max"
  shows "lock_smain_start [prog, ds] None nonce =
     Inr (Some (digits_value ds, (rpcs_new nonce 0 lock_server_new)\<lparr>procs := lock_procs nonce\<rparr>))"
  using atoi_digits [OF assms] by (simp add: lock_smain_start_def env_number_def lock_smain_registers)

end
