(* ===== verification/ScopedLock.thy ===== *)
theory ScopedLock
  imports RpcServer
begin

text \<open>
  \<open>ScopedLock\<close> of \<open>rpc/slock.h\<close>, and why the other theories may take a section, the code from the
  declaration of a \<open>ScopedLock\<close> to the end of its scope, as one atomic function.
\<close>

section \<open>The constructor and the destructor\<close>

text \<open>
  A mutex is held by a thread or free. \<^term>\<open>Not_yet\<close> is a thread that has to wait; the mutex of
  another thread cannot be unlocked.
\<close>

type_synonym mutex = "nat option"

definition scoped_lock :: "nat \<Rightarrow> mutex \<Rightarrow> mutex outcome" where
  "scoped_lock t m = (if m = None then Inr (Some t) else Inl Not_yet)"

definition scoped_unlock :: "nat \<Rightarrow> mutex \<Rightarrow> mutex outcome" where
  "scoped_unlock t m = (if m = Some t then Inr None else Inl Assert_failed)"

section \<open>Threads\<close>

text \<open>
  The code of the threads, in small steps: \<open>outside\<close> a scope on what is the thread's own, until it
  comes to a scope; \<open>inside\<close> also on what the mutex protects, until the scope ends, be it by a
  \<open>return\<close> from its middle; \<open>leave\<close> is where the thread goes on.
\<close>

record ('g, 'l) code =
  outside :: "nat \<Rightarrow> 'l \<Rightarrow> 'l option"
  inside :: "nat \<Rightarrow> 'g \<times> 'l \<Rightarrow> ('g \<times> 'l) option"
  leave :: "nat \<Rightarrow> 'l \<Rightarrow> 'l"

type_synonym ('g, 'l) memory = "'g \<times> (nat \<Rightarrow> 'l)"

text \<open>Any thread may do its next small step at any time.\<close>

inductive fine_step :: "('g, 'l) code \<Rightarrow> mutex \<times> ('g, 'l) memory \<Rightarrow> mutex \<times> ('g, 'l) memory \<Rightarrow> bool" for c where
  own: "m \<noteq> Some t \<Longrightarrow> outside c t (l t) = Some x \<Longrightarrow> fine_step c (m, g, l) (m, g, l(t := x))"
| enter: "outside c t (l t) = None \<Longrightarrow> scoped_lock t m = Inr m' \<Longrightarrow> fine_step c (m, g, l) (m', g, l)"
| within: "m = Some t \<Longrightarrow> inside c t (g, l t) = Some (g', x) \<Longrightarrow> fine_step c (m, g, l) (m, g', l(t := x))"
| exit: "m = Some t \<Longrightarrow> inside c t (g, l t) = None \<Longrightarrow> scoped_unlock t m = Inr m' \<Longrightarrow>
     fine_step c (m, g, l) (m', g, l(t := leave c t (l t)))"

text \<open>Here a scope is one step; \<open>within_scope\<close> is the code in it.\<close>

definition within_scope :: "('g, 'l) code \<Rightarrow> nat \<Rightarrow> 'g \<times> 'l \<Rightarrow> 'g \<times> 'l \<Rightarrow> bool" where
  "within_scope c t = (\<lambda>s s'. inside c t s = Some s')\<^sup>*\<^sup>*"

inductive coarse_step :: "('g, 'l) code \<Rightarrow> ('g, 'l) memory \<Rightarrow> ('g, 'l) memory \<Rightarrow> bool" for c where
  alone: "outside c t (l t) = Some x \<Longrightarrow> coarse_step c (g, l) (g, l(t := x))"
| scope: "outside c t (l t) = None \<Longrightarrow> within_scope c t (g, l t) (g', x) \<Longrightarrow> inside c t (g', x) = None \<Longrightarrow>
     coarse_step c (g, l) (g', l(t := leave c t x))"

abbreviation fine_run :: "('g, 'l) code \<Rightarrow> mutex \<times> ('g, 'l) memory \<Rightarrow> mutex \<times> ('g, 'l) memory \<Rightarrow> bool" where
  "fine_run c \<equiv> (fine_step c)\<^sup>*\<^sup>*"

abbreviation coarse_run :: "('g, 'l) code \<Rightarrow> ('g, 'l) memory \<Rightarrow> ('g, 'l) memory \<Rightarrow> bool" where
  "coarse_run c \<equiv> (coarse_step c)\<^sup>*\<^sup>*"

section \<open>Sections are atomic\<close>

text \<open>
  What the run in coarse steps looks like while a thread is in its scope: it stands where the
  thread entered, and what the others did of their own since is done.
\<close>

definition follows :: "('g, 'l) code \<Rightarrow> ('g, 'l) memory \<Rightarrow> mutex \<times> ('g, 'l) memory \<Rightarrow> bool" where
  "follows c s0 s = (case s of (m, g, l) \<Rightarrow>
     case m of
       None \<Rightarrow> coarse_run c s0 (g, l)
     | Some t \<Rightarrow> \<exists>g1 x1. coarse_run c s0 (g1, l(t := x1)) \<and> outside c t x1 = None \<and> within_scope c t (g1, x1) (g, l t))"

lemma follows_step: "fine_step c s s' \<Longrightarrow> follows c s0 s \<Longrightarrow> follows c s0 s'"
proof (induction rule: fine_step.induct)
  case (own m t l x g)
  show ?case
  proof (cases m)
    case None
    with own coarse_step.alone [of c t l x g] show ?thesis by (auto simp: follows_def intro: rtranclp.rtrancl_into_rtrancl)
  next
    case (Some u)
    with own obtain g1 x1 where 1: "coarse_run c s0 (g1, l(u := x1))" "outside c u x1 = None" "within_scope c u (g1, x1) (g, l u)" and u: "u \<noteq> t"
      by (auto simp: follows_def)
    have "coarse_step c (g1, l(u := x1)) (g1, (l(u := x1))(t := x))" using own(2) u by (intro coarse_step.alone) simp
    with 1(1) u have "coarse_run c s0 (g1, (l(t := x))(u := x1))" by (simp add: fun_upd_twist)
    with 1 u Some show ?thesis by (auto simp: follows_def)
  qed
next
  case (enter t l m m' g)
  then have "m = None" "m' = Some t" by (auto simp: scoped_lock_def split: if_splits)
  with enter show ?case by (auto simp: follows_def within_scope_def intro!: exI [of _ g] exI [of _ "l t"])
next
  case (within m t g l g' x)
  then obtain g1 x1 where "coarse_run c s0 (g1, l(t := x1))" "outside c t x1 = None" "within_scope c t (g1, x1) (g, l t)"
    by (auto simp: follows_def)
  with within(1,2) show ?case by (auto simp: follows_def within_scope_def intro!: exI [of _ g1] exI [of _ x1] intro: rtranclp.rtrancl_into_rtrancl)
next
  case (exit m t g l m')
  then obtain g1 x1 where 1: "coarse_run c s0 (g1, l(t := x1))" "outside c t x1 = None" "within_scope c t (g1, x1) (g, l t)"
    by (auto simp: follows_def)
  have "coarse_step c (g1, l(t := x1)) (g, (l(t := x1))(t := leave c t (l t)))" by (rule coarse_step.scope) (use 1 exit(2) in simp_all)
  with 1(1) have "coarse_run c s0 (g, l(t := leave c t (l t)))" by simp
  with exit(1,3) show ?case by (auto simp: follows_def scoped_unlock_def)
qed

lemma fine_follows: "fine_run c (None, s0) s \<Longrightarrow> follows c s0 s"
proof (induction rule: rtranclp_induct)
  case base
  then show ?case by (cases s0) (simp add: follows_def)
qed (rule follows_step)

text \<open>Conversely a scope in one step is one whose thread is not interrupted.\<close>

lemma within_fine:
  assumes "within_scope c t (g, x) y"
  shows "fine_run c (Some t, g, l(t := x)) (Some t, fst y, l(t := snd y))"
  using assms unfolding within_scope_def
proof (induction rule: rtranclp_induct)
  case (step y z)
  have "fine_step c (Some t, fst y, l(t := snd y)) (Some t, fst z, (l(t := snd y))(t := snd z))"
    by (rule fine_step.within) (use step(2) in simp_all)
  then have "fine_step c (Some t, fst y, l(t := snd y)) (Some t, fst z, l(t := snd z))" by simp
  with step(3) show ?case by (rule rtranclp.rtrancl_into_rtrancl)
qed simp

lemma coarse_fine:
  assumes "coarse_step c (g, l) (g', l')"
  shows "fine_run c (None, g, l) (None, g', l')"
  using assms
proof (cases rule: coarse_step.cases)
  case (alone t x)
  then show ?thesis using fine_step.own [of None t c l x g] by auto
next
  case (scope t x)
  have "fine_step c (None, g, l) (Some t, g, l)" by (rule fine_step.enter) (simp_all add: scope(2) scoped_lock_def)
  moreover have "fine_run c (Some t, g, l) (Some t, g', l(t := x))" using within_fine [OF scope(3), of l] by simp
  moreover have "fine_step c (Some t, g', l(t := x)) (None, g', (l(t := x))(t := leave c t ((l(t := x)) t)))"
    by (rule fine_step.exit) (simp_all add: scope(4) scoped_unlock_def)
  ultimately show ?thesis using scope(1) by (auto intro: converse_rtranclp_into_rtranclp rtranclp.rtrancl_into_rtrancl)
qed

lemma coarse_run_fine: "coarse_run c s s' \<Longrightarrow> fine_run c (None, s) (None, s')"
proof (induction rule: rtranclp_induct)
  case (step y z)
  have "fine_run c (None, y) (None, z)" using step(2) coarse_fine [of c "fst y" "snd y" "fst z" "snd z"] by simp
  with step(3) show ?case by (rule rtranclp_trans)
qed simp

section \<open>updatestat\<close>

text \<open>
  An example: the dispatch threads in \<open>updatestat\<close>, whose \<open>++\<close> and \<open>--\<close> read and write in two steps. A
  thread has the procedures of its next requests, its place in the scope, and a register.
\<close>

record stat_thread =
  st_todo :: "i32 list"
  st_pc :: nat
  st_reg :: int

definition stat_inside :: "'s rpcs \<times> stat_thread \<Rightarrow> ('s rpcs \<times> stat_thread) option" where
  "stat_inside s = (case s of (rs, x) \<Rightarrow>
     case st_todo x of
       [] \<Rightarrow> None
     | p # ps \<Rightarrow>
         if st_pc x = 0 then Some (rs, x\<lparr>st_reg := counts rs p, st_pc := 1\<rparr>)
         else if st_pc x = 1 then Some (rs\<lparr>counts := (counts rs)(p := st_reg x + 1)\<rparr>, x\<lparr>st_pc := 2\<rparr>)
         else if st_pc x = 2 then Some (rs, x\<lparr>st_reg := curr_counts rs, st_pc := 3\<rparr>)
         else if st_pc x = 3 then Some (rs\<lparr>curr_counts := st_reg x - 1\<rparr>, x\<lparr>st_pc := 4\<rparr>)
         else if st_pc x = 4 then Some (if curr_counts rs = 0 then rs\<lparr>curr_counts := counting rs\<rparr> else rs, x\<lparr>st_pc := 5\<rparr>)
         else None)"

definition stat_code :: "('s rpcs, stat_thread) code" where
  "stat_code = \<lparr>outside = (\<lambda>_ x. if st_todo x = [] then Some x else None), inside = (\<lambda>_. stat_inside),
     leave = (\<lambda>_ x. x\<lparr>st_todo := tl (st_todo x), st_pc := 0\<rparr>)\<rparr>"

definition counted :: "i32 \<Rightarrow> 's rpcs \<Rightarrow> 's rpcs" where
  "counted p rs = (let rs = rs\<lparr>counts := (counts rs)(p := counts rs p + 1), curr_counts := curr_counts rs - 1\<rparr>
     in if curr_counts rs = 0 then rs\<lparr>curr_counts := counting rs\<rparr> else rs)"

lemma updatestat_counted: "updatestat p rs = Inr rs' \<Longrightarrow> rs' = counted p rs"
  by (auto simp: updatestat_def counted_def Let_def split: if_splits)

text \<open>The scope from its start to its end.\<close>

definition stat_reached :: "i32 \<Rightarrow> 's rpcs \<Rightarrow> nat \<Rightarrow> 's rpcs \<times> int \<Rightarrow> bool" where
  "stat_reached p rs n s = (case s of (rs', r) \<Rightarrow>
     let rs1 = rs\<lparr>counts := (counts rs)(p := counts rs p + 1)\<rparr> in
     if n = 0 then rs' = rs
     else if n = 1 then rs' = rs \<and> r = counts rs p
     else if n = 2 then rs' = rs1
     else if n = 3 then rs' = rs1 \<and> r = curr_counts rs
     else if n = 4 then rs' = rs1\<lparr>curr_counts := curr_counts rs - 1\<rparr>
     else n = 5 \<and> rs' = counted p rs)"

lemma stat_within:
  assumes "within_scope stat_code t (rs, x) (rs', x')" "st_todo x = p # ps" "st_pc x = 0"
  shows "st_todo x' = p # ps \<and> stat_reached p rs (st_pc x') (rs', st_reg x')"
proof -
  have "(\<lambda>s s'. inside stat_code t s = Some s')\<^sup>*\<^sup>* (rs, x) y \<Longrightarrow> st_todo (snd y) = p # ps \<and> stat_reached p rs (st_pc (snd y)) (fst y, st_reg (snd y))" for y
  proof (induction rule: rtranclp_induct)
    case base
    then show ?case using assms(2,3) by (simp add: stat_reached_def)
  next
    case (step y z)
    then show ?case
      by (cases y; cases z) (auto simp: stat_code_def stat_inside_def stat_reached_def counted_def Let_def split: if_splits)
  qed
  from this [of "(rs', x')"] assms(1) show ?thesis by (simp add: within_scope_def)
qed

lemma stat_scope:
  assumes "within_scope stat_code t (rs, x) (rs', x')" "inside stat_code t (rs', x') = None" "st_todo x = p # ps" "st_pc x = 0"
  shows "rs' = counted p rs \<and> st_todo x' = p # ps"
  using stat_within [OF assms(1,3,4)] assms(2) by (auto simp: stat_code_def stat_inside_def stat_reached_def split: if_splits)

text \<open>
  No count is lost: however the threads interleave, the counts are those of whole updates, one
  after the other, of the procedures that each thread took from the front of its list.
\<close>

lemma no_count_is_lost:
  assumes "fine_run stat_code (None, rs, l) (None, rs', l')" "\<forall>t. st_pc (l t) = 0"
  shows "\<exists>ps. rs' = fold (\<lambda>(t, p). counted p) ps rs \<and> (\<forall>t. st_todo (l t) = map snd (filter (\<lambda>q. fst q = t) ps) @ st_todo (l' t))"
proof -
  from assms(1) have "coarse_run stat_code (rs, l) (rs', l')" using fine_follows [OF assms(1)] by (simp add: follows_def)
  then have "(\<exists>ps. fst (rs', l') = fold (\<lambda>(t, p). counted p) ps rs \<and> (\<forall>t. st_todo (l t) = map snd (filter (\<lambda>q. fst q = t) ps) @ st_todo (snd (rs', l') t))) \<and>
     (\<forall>t. st_pc (snd (rs', l') t) = 0)"
  proof (induction rule: rtranclp_induct)
    case base
    then show ?case using assms(2) by (auto intro: exI [of _ "[]"])
  next
    case (step y z)
    then obtain ps where ps: "fst y = fold (\<lambda>(t, p). counted p) ps rs" "\<forall>t. st_todo (l t) = map snd (filter (\<lambda>q. fst q = t) ps) @ st_todo (snd y t)"
      "\<forall>t. st_pc (snd y t) = 0" by blast
    from step(2) show ?case
    proof (cases rule: coarse_step.cases)
      case (alone t l1 x g)
      then have "z = y" by (auto simp: stat_code_def fun_eq_iff split: if_splits)
      with ps show ?thesis by (intro conjI exI [of _ ps]) simp_all
    next
      case (scope t l1 g g' x)
      then obtain p qs where q: "st_todo (l1 t) = p # qs" by (cases "st_todo (l1 t)") (auto simp: stat_code_def)
      have g': "g' = counted p g" "st_todo x = p # qs"
        using stat_scope [OF scope(4,5) q] ps(3) scope(1) by auto
      let ?ps = "ps @ [(t, p)]"
      have "fst z = fold (\<lambda>(t, p). counted p) ?ps rs" using ps(1) scope(1,2) g'(1) by simp
      moreover have "\<forall>u. st_todo (l u) = map snd (filter (\<lambda>q. fst q = u) ?ps) @ st_todo (snd z u)"
        using ps(2) scope(1,2) q g'(2) by (auto simp: stat_code_def)
      moreover have "\<forall>u. st_pc (snd z u) = 0" using ps(3) scope(1,2) by (auto simp: stat_code_def)
      ultimately show ?thesis by (intro conjI exI [of _ ?ps])
    qed
  qed
  then show ?thesis by simp
qed

section \<open>Property\<close>

text \<open>
  C13: the code under a \<open>ScopedLock\<close> is atomic. For any code of any number of threads, the
  memories that its small steps, interleaved at will, reach with the mutex free are exactly those
  that it reaches when every scope runs in one step; and while a thread is in its scope, the memory
  is one that such a run reaches, with the part of the scope that the thread has run so far.
\<close>
theorem scoped_sections_are_atomic:
  "fine_run c (None, s0) (m, g, l) \<longleftrightarrow>
    (case m of
       None \<Rightarrow> coarse_run c s0 (g, l)
     | Some t \<Rightarrow> \<exists>g1 x1. coarse_run c s0 (g1, l(t := x1)) \<and> outside c t x1 = None \<and> within_scope c t (g1, x1) (g, l t))"
proof
  assume "fine_run c (None, s0) (m, g, l)"
  from fine_follows [OF this] show "case m of None \<Rightarrow> coarse_run c s0 (g, l)
     | Some t \<Rightarrow> \<exists>g1 x1. coarse_run c s0 (g1, l(t := x1)) \<and> outside c t x1 = None \<and> within_scope c t (g1, x1) (g, l t)"
    by (simp add: follows_def)
next
  assume r: "case m of None \<Rightarrow> coarse_run c s0 (g, l)
     | Some t \<Rightarrow> \<exists>g1 x1. coarse_run c s0 (g1, l(t := x1)) \<and> outside c t x1 = None \<and> within_scope c t (g1, x1) (g, l t)"
  show "fine_run c (None, s0) (m, g, l)"
  proof (cases m)
    case None
    with r coarse_run_fine [of c s0 "(g, l)"] show ?thesis by simp
  next
    case (Some t)
    with r obtain g1 x1 where 1: "coarse_run c s0 (g1, l(t := x1))" "outside c t x1 = None" "within_scope c t (g1, x1) (g, l t)" by auto
    have "fine_step c (None, g1, l(t := x1)) (Some t, g1, l(t := x1))" by (rule fine_step.enter) (simp_all add: 1(2) scoped_lock_def)
    with coarse_run_fine [OF 1(1)] have "fine_run c (None, s0) (Some t, g1, l(t := x1))" by (rule rtranclp.rtrancl_into_rtrancl)
    with within_fine [OF 1(3), of l] Some show ?thesis by simp
  qed
qed

end
