(* ===== verification/Spec2Isabelle.thy ===== *)
theory Spec2Isabelle
  imports Stubs XidWindow ReplyWindow LockServer SendQueue RpcServer LockTester EndToEnd ThrPool PollMgr Listener Session RpcTest LockService TesterMain
    LockDemo TypedArgs ServerLife Spawn Gettime Mains ScopedLock
begin

text \<open>
  Verification of the RPC library (\<open>rpc/\<close>) and of the lock service built on it.

  The program. A client (\<open>lock_client.cc\<close>) calls a server (\<open>lock_server.cc\<close>) through
  stubs that marshall arguments into a byte buffer (\<open>rpc/marshall.h\<close>, \<open>rpc/rpc.h\<close>). The
  client endpoint \<open>rpcc\<close> numbers its requests, retransmits them over TCP connections that
  may die, and tells the server up to which number it has all replies; the server endpoint
  \<open>rpcs\<close> dispatches requests to a pool of threads and keeps, per client, a window of
  replies, so that a request is executed at most once (\<open>rpc/rpc.cc\<close>). Connections frame
  PDUs on non-blocking sockets that one poll thread watches (\<open>rpc/connection.cc\<close>,
  \<open>rpc/pollmgr.cc\<close>). Locks are granted by a monitor with one condition variable per lock.

  How it is modelled. Every operation is a function on explicit state. A place where the
  C++ code would have undefined behaviour, fail an assertion or throw is the left side of
  \<^typ>\<open>'a outcome\<close> (\<open>Prelude\<close>), so a theorem whose conclusion is \<^term>\<open>Inr\<close> also says that
  nothing of the kind happens. Machine integers are words where their bits or their
  wrap-around matter, and \<open>int\<close> or \<open>nat\<close> with the range written out where they are sizes.
  What the kernel, \<open>malloc\<close> or the network answers is an argument. Code that runs under a
  mutex is one section, that is one atomic function; threads are step relations over
  sections whose events record what happened, and properties of all interleavings are
  proved by induction over runs.

  \<^item> \<open>Prelude\<close>: machine types, outcomes, lemmas on lists and words.
  \<^item> \<open>Marshall\<close>: \<open>marshall\<close> and \<open>unmarshall\<close> with their growing buffer, all overloaded
    operators, both headers, \<open>take_buf\<close>, \<open>take_in\<close>, the way to a string and back, and \<open>testmarshall\<close> of \<open>rpctest.cc\<close>.
    Lemmas: what each operator appends and reads back, and that it stays in bounds.
  \<^item> \<open>Codec\<close>: the vector and map templates over any element codec. The locale \<open>codec\<close> is
    the contract of an output operator and its input operator, \<open>map_codec\<close> that of a map;
    both are interpreted for every type the program has operators for.
  \<^item> \<open>Stubs\<close>: the \<open>call\<close> and \<open>reg\<close> templates of \<open>rpc.h\<close>, the error codes, the handlers of
    \<open>rpctest.cc\<close>. Lemmas: arguments and results arrive unchanged, wrong ones are refused.
  \<^item> \<open>XidWindow\<close>: \<open>rpcc::update_xid_rep\<close>. Its front is the cumulative acknowledgement.
  \<^item> \<open>ReplyWindow\<close>: \<open>checkduplicate_and_update\<close>, \<open>add_reply\<close>, \<open>free_reply_window\<close> on a
    heap of reply buffers. A declarative reference, an invariant of all histories, at most
    once, what the answers mean, and that no buffer is freed twice.
  \<^item> \<open>Connection\<close>: the connection object, its reference count, \<open>writepdu\<close>, \<open>readpdu\<close>,
    \<open>read_cb\<close>. Framing is proved on both sides for every way the kernel cuts the bytes.
  \<^item> \<open>SendQueue\<close>: \<open>connection::send\<close> and \<open>write_cb\<close> as a monitor of any number of threads.
  \<^item> \<open>RpcServer\<close>: \<open>reg1\<close>, \<open>updatestat\<close>, \<open>got_pdu\<close> and \<open>dispatch\<close> of \<open>rpcs\<close>; dispatch threads
    are interleaved where a handler starts to run.
  \<^item> \<open>Timespec\<close>: \<open>cmp_timespec\<close>, \<open>add_timespec\<close>, \<open>diff_timespec\<close> and a wait for a deadline.
  \<^item> \<open>RpcClient\<close>: \<open>bind\<close>, \<open>cancel\<close>, \<open>call1\<close>, \<open>get_refconn\<close>, \<open>got_pdu\<close> and the destructor of \<open>rpcc\<close>,
    and the step relation of the threads that run them, of replies and of dying connections.
  \<^item> \<open>ClientCalls\<close>: its histories. The answer of a call is a function of the history, and every
    call returns it; waiting calls are never acknowledged; \<open>cancel\<close> drains; reference
    counts are exact; a call without a reply ends after a bounded number of rounds.
  \<^item> \<open>EndToEnd\<close>: one \<open>rpcc\<close> and one \<open>rpcs\<close> over a network that loses, repeats and reorders, with
    other clients at the same server. Each endpoint meets what the model of the other relies
    on; a call that returns a handler's code was run exactly once, on its own arguments.
  \<^item> \<open>ThrPool\<close>: \<open>fifo.h\<close> and \<open>thr_pool.cc\<close>. The locale \<open>job_queue\<close> is the contract of a queue,
    interpreted on \<open>enq\<close> and \<open>deq\<close>; the pool starts jobs in order, runs each once, loses no
    wake-up, and its destructor ends.
  \<^item> \<open>PollMgr\<close>: \<open>pollmgr.cc\<close>. The locale \<open>aio_mgr\<close> is the contract of the two ways to watch
    descriptors, interpreted on \<open>SelectAIO\<close> and \<open>EPollAIO\<close>; the poll thread and the threads
    that remove callbacks: a removal can always finish, and after it no callback runs.
  \<^item> \<open>LockServer\<close>: the class \<open>lock\<close>, the handlers of \<open>lock_server.cc\<close>, and their monitor. The
    locale \<open>lock_table\<close> is the contract of the table of locks, interpreted on the code's
    own sections.
  \<^item> \<open>LockTester\<close>: the test programs of \<open>lock_tester.cc\<close> as clients of that monitor, with a
    dispatch pool of a given size: no test ever sees a lock granted twice, all tests can
    finish when the pool is large enough, and one thread less can deadlock.
  \<^item> \<open>TesterMain\<close>: its \<open>main\<close>, the tests one after the other against one server: none fails, and
    the whole run can always be brought to its end.
  \<^item> \<open>Listener\<close>: \<open>tcpsconn\<close>, \<open>connect_to_dst\<close> and the addresses (\<open>make_sockaddr\<close>, ordered as
    a \<open>linorder\<close>). Lemmas: what accepting and closing do to the reference counts.
  \<^item> \<open>LockService\<close>: \<open>lock_client.cc\<close> and \<open>lock_smain.cc\<close> over the network of \<open>EndToEnd\<close>. The
    monitor of \<open>LockServer\<close> acts like whole handlers run one after the other; hence mutual
    exclusion for clients across the network, and what a successful \<open>acquire\<close> gives them.
  \<^item> \<open>Session\<close>: one client and one server whose sections run in the order of a call, with lost
    requests and lost replies before an attempt gets through. A remote object then behaves
    as a local one. The connections are taken to be alive when a message arrives.
  \<^item> \<open>RpcTest\<close>: \<open>rpctest.cc\<close>. The tests are proved over the contract \<open>rpc_service\<close> of a call,
    interpreted on the endpoints of \<open>Session\<close>; threads take turns at whole calls, in every
    order. \<open>main\<close> runs to its end.
  \<^item> \<open>LockDemo\<close>: \<open>lock_demo.cc\<close>, and the methods of \<open>lock_client\<close> on the endpoints of \<open>Session\<close>.
  \<^item> \<open>TypedArgs\<close>: handlers whose arguments have a fixed size. The locale \<open>fixed_reader\<close> is the
    contract of a type whose encodings are all the byte strings of one length, \<open>fixed_args\<close> that
    of two arguments; interpreted on the readers of the number types and on the arguments of
    the lock server, which so refuses or decodes every request and never faults on one.
  \<^item> \<open>ServerLife\<close>: the constructor and destructor of \<open>tcpsconn\<close> and the destructor of \<open>rpcs\<close>: it
    frees what the windows hold, and what a late reply left behind is lost.
  \<^item> \<open>Spawn\<close>: the \<open>method_thread\<close> templates and \<open>addObjJob\<close>: packets on a heap that another thread
    reads and deletes. Every method handed over runs once, and the heap is accounted for.
  \<^item> \<open>Gettime\<close>: \<open>gettime.cc\<close>. Doubles are computed exactly, as rounded integers.
  \<^item> \<open>Mains\<close>: what the programs do before they call and serve: the options of \<open>rpctest.cc\<close>, the
    arguments of \<open>lock_smain.cc\<close>, the level of the log. The \<open>getopt\<close> loop is a partial function.
  \<^item> \<open>ScopedLock\<close>: \<open>slock.h\<close>. Threads in small steps under a lock that is held for a scope reach what
    they reach when every scope is one step, which is how all the other theories take sections;
    \<open>updatestat\<close>, whose increments are two steps each, is an example.

  Bounds. Buffers are limited by \<^term>\<open>int_max\<close>, since the sizes are an \<open>int\<close>; no fuel is used:
  loops are structural in the list they walk, or have a termination proof, but for the one loop
  over \<open>getopt\<close> that need not end. Loops of a thread over a condition
  variable are runs of a step relation.

  What is not modelled. The attributes of sockets and threads that system calls set (of those
  calls only the answer counts), and the text of the lines that are logged and printed. The
  random shutdown of the lossy test mode is among what the kernel may answer.
\<close>

end
